(* ===== verification/Prelude.thy ===== *)
theory Prelude
  imports Complex_Main "HOL-Library.Word" "HOL-Library.Multiset" "HOL-Library.Signed_Division"
begin

section \<open>Prelude: machine types and lemmas shared by every component\<close>

text \<open>
  The fixed-width types of the C++ code and the generic facts on lists, multisets and
  words that the component theories use.  \<open>size_t\<close> and \<open>std::uint64_t\<close> are
  64-bit words (their arithmetic wraps), \<open>int\<close> is a 32-bit word that is read with
  \<^const>\<open>sint\<close>, and a \<open>steady_clock\<close> time point is the count of nanoseconds
  since the epoch of the clock.
\<close>

type_synonym i32 = "32 word"
type_synonym u64 = "64 word"
type_synonym size_t = "64 word"
type_synonym time_point = int

text \<open>\<open>static_cast<std::size_t>(int)\<close> sign-extends; \<open>static_cast<int>(std::size_t)\<close>
  keeps the low 32 bits.\<close>

definition size_of_int :: "i32 \<Rightarrow> size_t" where
  "size_of_int x = word_of_int (sint x)"

definition int_of_size :: "size_t \<Rightarrow> i32" where
  "int_of_size x = word_of_int (uint x)"

text \<open>The number of elements of a \<open>std::vector\<close> as a \<open>size_t\<close>.\<close>

abbreviation vector_size :: "'a list \<Rightarrow> size_t" where
  "vector_size xs \<equiv> word_of_nat (length xs)"

named_theorems unat_sum_simps \<open>sums of words that do not wrap\<close>
named_theorems handler_defs \<open>the definitions of the handlers of a component\<close>
named_theorems frame_simps \<open>fields that an operation leaves alone\<close>

subsection \<open>Conversions\<close>

lemma size_of_int_pos:
  assumes "0 \<le> sint x"
  shows "unat (size_of_int x) = nat (sint x)"
proof -
  have "sint x < 2 ^ 31" using sint_lt [of x] by simp
  then have "sint x mod 2 ^ 64 = sint x" using assms by (intro mod_pos_pos_trivial) simp_all
  then have "uint (size_of_int x) = sint x"
    by (simp only: size_of_int_def uint_word_of_int) simp
  then show ?thesis by (simp only: unat_eq_nat_uint)
qed

lemma int_of_size_small:
  "n < 2 ^ 31 \<Longrightarrow> sint (int_of_size (word_of_nat n)) = int n"
  by (simp add: int_of_size_def sint_uint uint_word_of_int signed_take_bit_int_eq_self
      unsigned_of_nat take_bit_nat_eq_self take_bit_int_eq_self)

lemma sint_le_neq: "sint (a :: i32) \<le> sint b \<Longrightarrow> a \<noteq> b \<Longrightarrow> sint a < sint b"
  by (metis order_le_imp_less_or_eq signed_word_eqI)

lemma uint_le_neq: "uint (a :: u64) \<le> uint b \<Longrightarrow> a \<noteq> b \<Longrightarrow> uint a < uint b"
  by (metis order_le_imp_less_or_eq unsigned_word_eqI)

text \<open>C++ division truncates towards zero; on non-negative values it is \<open>div\<close>.\<close>

lemma sdiv_nonneg: "0 \<le> (a :: int) \<Longrightarrow> 0 < b \<Longrightarrow> a sdiv b = a div b"
  by (simp add: signed_divide_int_def sgn_if)

lemma sdiv_neg: "(a :: int) < 0 \<Longrightarrow> 0 < b \<Longrightarrow> a sdiv b \<le> 0"
  by (simp add: signed_divide_int_def sgn_if pos_imp_zdiv_nonneg_iff)

subsection \<open>Sums of words\<close>

lemma unat_add_no_wrap:
  "unat (x :: 'a::len word) + unat y < 2 ^ LENGTH('a) \<Longrightarrow> unat (x + y) = unat x + unat y"
  by (simp add: unat_word_ariths)

lemma unat_add_wrap_or:
  fixes x y :: size_t
  shows "unat (x + y) = unat x + unat y \<or> 2 ^ 64 \<le> unat x + unat y"
  by (cases "unat x + unat y < 2 ^ 64") (simp_all add: unat_word_ariths)

definition nat_sum :: "('a \<Rightarrow> size_t) \<Rightarrow> 'a list \<Rightarrow> nat" where
  "nat_sum f xs = sum_list (map (\<lambda>x. unat (f x)) xs)"

definition word_sum :: "('a \<Rightarrow> size_t) \<Rightarrow> 'a list \<Rightarrow> size_t" where
  "word_sum f xs = sum_list (map f xs)"

lemma nat_sum_simps [simp, unat_sum_simps]:
  "nat_sum f [] = 0"
  "nat_sum f (x # xs) = unat (f x) + nat_sum f xs"
  "nat_sum f (xs @ ys) = nat_sum f xs + nat_sum f ys"
  by (simp_all add: nat_sum_def)

lemma word_sum_simps [simp, unat_sum_simps]:
  "word_sum f [] = 0"
  "word_sum f (x # xs) = f x + word_sum f xs"
  "word_sum f (xs @ ys) = word_sum f xs + word_sum f ys"
  by (simp_all add: word_sum_def)

lemma foldl_word_sum: "foldl (\<lambda>acc x. acc + f x) a xs = a + word_sum f xs"
  by (induction xs arbitrary: a) (simp_all add: add.assoc)

lemma word_sum_nat_sum: "word_sum f xs = word_of_nat (nat_sum f xs)"
  by (induction xs) (simp_all add: add.commute)

lemma unat_word_sum: "nat_sum f xs < 2 ^ 64 \<Longrightarrow> unat (word_sum f xs) = nat_sum f xs"
  by (simp add: word_sum_nat_sum unsigned_of_nat take_bit_nat_eq_self)

lemma nat_sum_mset: "mset xs = mset ys \<Longrightarrow> nat_sum f xs = nat_sum f ys"
  by (simp add: nat_sum_def flip: sum_mset_sum_list mset_map)
     (simp add: sum_mset_sum_list [symmetric])

lemma nat_sum_filter_le: "nat_sum f (filter P xs) \<le> nat_sum f xs"
  by (induction xs) auto

subsection \<open>Lists and multisets\<close>

lemma mset_filter_partition: "mset (filter P xs) + mset (filter (\<lambda>x. \<not> P x) xs) = mset xs"
  by (induction xs) auto

lemma word_of_nat_inj_64:
  assumes "i < 2 ^ 64" "j < 2 ^ 64" "(word_of_nat i :: u64) = word_of_nat j"
  shows "i = j"
proof -
  have "unat (word_of_nat i :: u64) = unat (word_of_nat j :: u64)" using assms(3) by simp
  with assms(1,2) show ?thesis by (simp add: unsigned_of_nat take_bit_nat_eq_self)
qed

lemma distinct_word_of_nat_upt: "n \<le> 2 ^ 64 \<Longrightarrow> distinct (map (word_of_nat :: nat \<Rightarrow> u64) [0..<n])"
  by (auto simp: distinct_map inj_on_def intro: word_of_nat_inj_64)

text \<open>The \<open>size T\<close> smallest elements weigh no more than \<open>T\<close>.\<close>

lemma sum_take_sorted_le:
  fixes f :: "'a \<Rightarrow> nat"
  shows "sorted (map f xs) \<Longrightarrow> T \<subseteq># mset xs \<Longrightarrow> sum_list (map f (take (size T) xs)) \<le> (\<Sum>x \<in># T. f x)"
proof (induction xs arbitrary: T)
  case (Cons x xs)
  show ?case
  proof (cases "T = {#}")
    case False
    obtain y T' where T: "T = add_mset y T'" and T': "T' \<subseteq># mset xs" and y: "f x \<le> f y"
    proof (cases "x \<in># T")
      case True
      then obtain T' where "T = add_mset x T'" by (metis mset_add)
      with Cons.prems(2) that [of x T'] show ?thesis by simp
    next
      case False
      obtain y T' where T: "T = add_mset y T'" using \<open>T \<noteq> {#}\<close> by (metis multiset_cases)
      have sub: "T \<subseteq># mset xs"
        using Cons.prems(2) False by (metis inter_add_left1 mset.simps(2) subset_mset.inf.absorb_iff2
          subset_mset.inf.commute)
      then have "y \<in> set xs" using T by (metis mset_subset_eqD set_mset_mset union_single_eq_member)
      then have "f x \<le> f y" using Cons.prems(1) by simp
      moreover have "T' \<subseteq># mset xs" using sub T by (metis add_mset_subseteq_single_iff mset_subset_eq_insertD subset_mset.less_imp_le)
      ultimately show ?thesis using that T by blast
    qed
    have "sum_list (map f (take (size T') xs)) \<le> (\<Sum>x \<in># T'. f x)"
      using Cons.IH [OF _ T'] Cons.prems(1) by simp
    with y show ?thesis by (simp add: T)
  qed simp
qed simp

end
