(* ===== verification/Ordering.thy ===== *)
theory Ordering
  imports Prelude "HOL-Library.Product_Lexorder"
begin

section \<open>Comparators: strict weak orders and the stable sort\<close>

text \<open>
  \<open>std::stable_sort\<close> and \<open>std::priority_queue\<close> take a comparator that has to be a
  strict weak order.  The locale \<open>strict_weak_order\<close> states that contract, and the
  facts on the stable sort are proved in it once; \<open>key_order\<close> is the special case of a
  comparator that compares a key of a linear order.  Both comparators of the scheduler are
  interpretations (in \<open>Job\<close> and in \<open>Packing\<close>).
\<close>

subsection \<open>The stable sort\<close>

text \<open>\<open>insort_by lt x ys\<close> puts \<open>x\<close> before the first element that is not below it.\<close>

fun insort_by :: "('a \<Rightarrow> 'a \<Rightarrow> bool) \<Rightarrow> 'a \<Rightarrow> 'a list \<Rightarrow> 'a list" where
  "insort_by lt x [] = [x]"
| "insort_by lt x (y # ys) = (if lt y x then y # insort_by lt x ys else x # y # ys)"

text \<open>\<open>std::stable_sort(first, last, comp)\<close>: elements that the comparator does not
  separate keep their order.\<close>

definition stable_sort :: "('a \<Rightarrow> 'a \<Rightarrow> bool) \<Rightarrow> 'a list \<Rightarrow> 'a list" where
  "stable_sort lt xs = foldr (insort_by lt) xs []"

lemma stable_sort_simps [simp]:
  "stable_sort lt [] = []"
  "stable_sort lt (x # xs) = insort_by lt x (stable_sort lt xs)"
  by (simp_all add: stable_sort_def)

lemma mset_insort_by [simp]: "mset (insort_by lt x ys) = add_mset x (mset ys)"
  by (induction ys) auto

lemma set_insort_by [simp]: "set (insort_by lt x ys) = insert x (set ys)"
  by (induction ys) auto

lemma length_insort_by [simp]: "length (insort_by lt x ys) = Suc (length ys)"
  by (induction ys) auto

lemma mset_stable_sort [simp]: "mset (stable_sort lt xs) = mset xs"
  by (induction xs) auto

lemma set_stable_sort [simp]: "set (stable_sort lt xs) = set xs"
  by (metis mset_stable_sort set_mset_mset)

lemma length_stable_sort [simp]: "length (stable_sort lt xs) = length xs"
  by (metis mset_stable_sort size_mset)

text \<open>A list in the order of the comparator: nothing later is below anything earlier.\<close>

definition ordered_by :: "('a \<Rightarrow> 'a \<Rightarrow> bool) \<Rightarrow> 'a list \<Rightarrow> bool" where
  "ordered_by lt xs = sorted_wrt (\<lambda>a b. \<not> lt b a) xs"

lemma ordered_by_simps [simp]:
  "ordered_by lt []"
  "ordered_by lt (x # xs) \<longleftrightarrow> (\<forall>y \<in> set xs. \<not> lt y x) \<and> ordered_by lt xs"
  by (simp_all add: ordered_by_def)

lemma ordered_by_append:
  "ordered_by lt (xs @ ys) \<longleftrightarrow>
   ordered_by lt xs \<and> ordered_by lt ys \<and> (\<forall>x \<in> set xs. \<forall>y \<in> set ys. \<not> lt y x)"
  by (auto simp: ordered_by_def sorted_wrt_append)

text \<open>Sorting by \<open>f\<close> a list that is already increasing in \<open>g\<close> sorts it by
  \<open>f\<close> and then \<open>g\<close>.\<close>

lemma insort_key_lex:
  fixes f :: "'a \<Rightarrow> 'k :: linorder" and g :: "'a \<Rightarrow> 'l :: linorder"
  shows "\<forall>y \<in> set ys. g x < g y \<Longrightarrow> insort_key (\<lambda>x. (f x, g x)) x ys = insort_key f x ys"
  by (induction ys) auto

lemma sort_key_lex:
  fixes f :: "'a \<Rightarrow> 'k :: linorder" and g :: "'a \<Rightarrow> 'l :: linorder"
  shows "sorted_wrt (\<lambda>a b. g a < g b) js \<Longrightarrow> sort_key (\<lambda>x. (f x, g x)) js = sort_key f js"
  by (induction js) (simp_all add: insort_key_lex)

subsection \<open>Strict weak orders\<close>

locale strict_weak_order =
  fixes lt :: "'a \<Rightarrow> 'a \<Rightarrow> bool"
  assumes less_irrefl: "\<not> lt x x"
    and less_trans: "lt x y \<Longrightarrow> lt y z \<Longrightarrow> lt x z"
    and incomp_trans: "\<not> lt x y \<Longrightarrow> \<not> lt y z \<Longrightarrow> \<not> lt x z"
begin

lemma less_asym: "lt x y \<Longrightarrow> \<not> lt y x"
  using less_irrefl less_trans by blast

lemma less_mono_right: "lt x y \<Longrightarrow> \<not> lt z y \<Longrightarrow> lt x z"
  using incomp_trans by blast

lemma ordered_insort_by: "ordered_by lt ys \<Longrightarrow> ordered_by lt (insort_by lt x ys)"
proof (induction ys)
  case (Cons y ys)
  show ?case
  proof (cases "lt y x")
    case True
    with Cons show ?thesis using less_asym by auto
  next
    case False
    with Cons.prems show ?thesis using incomp_trans by auto
  qed
qed simp

lemma ordered_stable_sort: "ordered_by lt (stable_sort lt xs)"
  by (induction xs) (simp_all add: ordered_insort_by)

text \<open>The elements that \<open>j\<close> is not before come first.\<close>

lemma ordered_split:
  "ordered_by lt xs \<Longrightarrow> filter (\<lambda>i. \<not> lt j i) xs @ filter (\<lambda>i. lt j i) xs = xs"
proof (induction xs)
  case (Cons x xs)
  show ?case
  proof (cases "lt j x")
    case True
    have "lt j y" if "y \<in> set xs" for y
      using less_mono_right [OF True, of y] Cons.prems that by simp
    then have "filter (\<lambda>i. \<not> lt j i) xs = []" by (simp add: filter_empty_conv)
    with True Cons show ?thesis by simp
  qed (use Cons in simp)
qed simp

text \<open>Stability: the elements equivalent to any \<open>x\<close> keep their order.\<close>

lemma filter_insort_by:
  assumes "ordered_by lt ys"
  shows "filter (\<lambda>y. \<not> lt x y \<and> \<not> lt y x) (insort_by lt z ys) =
         filter (\<lambda>y. \<not> lt x y \<and> \<not> lt y x) (z # ys)"
  using assms
proof (induction ys)
  case (Cons y ys)
  show ?case
  proof (cases "lt y z")
    case True
    have "\<not> ((\<not> lt x y \<and> \<not> lt y x) \<and> (\<not> lt x z \<and> \<not> lt z x))"
      using True incomp_trans by blast
    with True Cons show ?thesis by auto
  qed simp
qed simp

lemma stable_sort_stable:
  "filter (\<lambda>y. \<not> lt x y \<and> \<not> lt y x) (stable_sort lt xs) =
   filter (\<lambda>y. \<not> lt x y \<and> \<not> lt y x) xs"
  by (induction xs) (simp_all add: filter_insort_by ordered_stable_sort)

end

subsection \<open>Comparators of a key\<close>

locale key_order =
  fixes lt :: "'a \<Rightarrow> 'a \<Rightarrow> bool" and key :: "'a \<Rightarrow> 'k :: linorder"
  assumes less_key: "lt x y \<longleftrightarrow> key x < key y"

sublocale key_order \<subseteq> strict_weak_order lt
  by unfold_locales (auto simp: less_key)

context key_order
begin

lemma ordered_by_key: "ordered_by lt xs \<longleftrightarrow> sorted (map key xs)"
  by (simp add: ordered_by_def less_key not_less sorted_map)

lemma insort_by_key: "insort_by lt x ys = insort_key key x ys"
  by (induction ys) (auto simp: less_key)

text \<open>The comparator sort is the stable sort of the library on the key.\<close>

lemma stable_sort_key: "stable_sort lt xs = sort_key key xs"
  by (induction xs) (simp_all add: insort_by_key)

text \<open>With an injective key there is one ordered list of the elements.\<close>

lemma ordered_unique:
  assumes "ordered_by lt xs" "ordered_by lt ys" "mset xs = mset ys" "inj_on key (set xs)"
  shows "xs = ys"
proof -
  have "sorted (map key xs)" "sorted (map key ys)"
    using assms(1,2) by (simp_all add: ordered_by_key)
  moreover have "mset (map key xs) = mset (map key ys)" using assms(3) by simp
  ultimately have "map key xs = map key ys"
    by (metis properties_for_sort)
  moreover have "set ys = set xs" using assms(3) by (metis set_mset_mset)
  ultimately show ?thesis using assms(4) by (metis Un_absorb map_inj_on)
qed

end

end
