(* ===== verification/Job.thy ===== *)
theory Job
  imports Ordering
begin

section \<open>Jobs (src/src/sched/job.hpp)\<close>

text \<open>
  The job record, the bytes it needs on the device and the comparator of the priority
  queue.  \<open>bytes_required\<close> is computed in \<open>size_t\<close>, so it wraps at 64 bits; its
  reference \<open>job_bytes\<close> is the exact number.
\<close>

record InferenceJob =
  job_id :: u64
  job_m :: i32
  job_n :: i32
  job_k :: i32
  job_batch :: i32
  priority :: i32
  submit_time :: time_point
  seq :: u64

text \<open>The default member initialisers.\<close>

definition default_job :: InferenceJob where
  "default_job = \<lparr>job_id = 0, job_m = 0, job_n = 0, job_k = 0, job_batch = 1, priority = 0,
     submit_time = 0, seq = 0\<rparr>"

definition bytes_required :: "InferenceJob \<Rightarrow> size_t" where
  "bytes_required j =
     (let a = size_of_int (job_m j) * size_of_int (job_k j);
          b = size_of_int (job_k j) * size_of_int (job_n j);
          c = size_of_int (job_m j) * size_of_int (job_n j)
      in (a + b + c) * size_of_int (job_batch j) * 4)"

text \<open>\<open>JobPriorityCompare()(a, b)\<close>: \<open>a\<close> comes out of the queue after \<open>b\<close>.\<close>

definition JobPriorityCompare :: "InferenceJob \<Rightarrow> InferenceJob \<Rightarrow> bool" where
  "JobPriorityCompare a b =
     (if priority a \<noteq> priority b then sint (priority a) < sint (priority b)
      else seq a > seq b)"

subsection \<open>The exact number of bytes\<close>

definition valid_job :: "InferenceJob \<Rightarrow> bool" where
  "valid_job j \<longleftrightarrow> 0 < sint (job_m j) \<and> 0 < sint (job_n j) \<and> 0 < sint (job_k j) \<and> 0 < sint (job_batch j)"

definition dim :: "i32 \<Rightarrow> nat" where
  "dim x = nat (sint x)"

definition job_bytes :: "InferenceJob \<Rightarrow> nat" where
  "job_bytes j = (dim (job_m j) * dim (job_k j) + dim (job_k j) * dim (job_n j)
     + dim (job_m j) * dim (job_n j)) * dim (job_batch j) * 4"

lemma size_of_int_dim: "0 < sint x \<Longrightarrow> size_of_int x = word_of_nat (dim x)"
  by (simp add: dim_def size_of_int_def word_of_nat_eq_iff)

text \<open>On a job with positive dimensions \<open>bytes_required\<close> is the exact number modulo
  \<open>2 ^ 64\<close>, with no other loss.\<close>

lemma bytes_required_mod: "valid_job j \<Longrightarrow> bytes_required j = word_of_nat (job_bytes j)"
  by (simp add: valid_job_def bytes_required_def job_bytes_def Let_def size_of_int_dim algebra_simps)

lemma unat_bytes_required:
  "valid_job j \<Longrightarrow> job_bytes j < 2 ^ 64 \<Longrightarrow> unat (bytes_required j) = job_bytes j"
  by (simp add: bytes_required_mod unsigned_of_nat take_bit_nat_eq_self)

lemma dim_bound: "dim x < 2 ^ 31"
  using sint_lt [of x] by (simp add: dim_def)

text \<open>The number of elements of a matrix, three factors in \<open>size_t\<close>.\<close>

lemma unat_size_product:
  assumes "0 < sint x" "0 < sint y" "0 < sint z" "dim x * dim y < 2 ^ 31"
  shows "unat (size_of_int x * size_of_int y * size_of_int z) = dim x * dim y * dim z"
proof -
  have "dim x * dim y * dim z < 2 ^ 31 * 2 ^ 31" using assms(4) dim_bound [of z] by (intro mult_strict_mono') simp_all
  then have "dim x * dim y * dim z < 2 ^ 64" by simp
  moreover have "size_of_int x * size_of_int y * size_of_int z = word_of_nat (dim x * dim y * dim z)"
    by (simp add: size_of_int_dim assms)
  ultimately show ?thesis by (simp add: unsigned_of_nat take_bit_nat_eq_self del: of_nat_mult)
qed

subsection \<open>The comparator\<close>

text \<open>The place of a job in the queue: descending priority, then the sequence number.\<close>

definition queue_key :: "InferenceJob \<Rightarrow> int \<times> int" where
  "queue_key j = (- sint (priority j), uint (seq j))"

lemma JobPriorityCompare_key: "JobPriorityCompare a b \<longleftrightarrow> queue_key b < queue_key a"
  by (auto simp: JobPriorityCompare_def queue_key_def word_less_def dest: sint_le_neq)

interpretation jpc: strict_weak_order JobPriorityCompare
  by unfold_locales (auto simp: JobPriorityCompare_key)

interpretation runs_before: key_order "\<lambda>a b. JobPriorityCompare b a" queue_key
  by unfold_locales (simp add: JobPriorityCompare_key)

end
