(* ===== verification/PriorityQueue.thy ===== *)
theory PriorityQueue
  imports Job
begin

section \<open>The queue of submitted jobs (std::priority_queue)\<close>

text \<open>
  \<open>queue_\<close> is a \<open>std::priority_queue<InferenceJob, std::vector<InferenceJob>,
  JobPriorityCompare>\<close>.  The scheduler uses \<open>push\<close>, \<open>top\<close>, \<open>pop\<close>,
  \<open>empty\<close> and \<open>size\<close>; the standard promises that \<open>top\<close> is an element that
  the comparator puts before no other.  The locale \<open>priority_queue\<close> states these
  promises over the multiset of the elements, the dispatcher's drain loop is proved
  against them, and the queue of the model (a list kept with the top first) is an
  interpretation.  Among equal elements the standard leaves the choice open; the scheduler
  never stores two, because the sequence numbers differ.
\<close>

subsection \<open>The loop that empties the queue\<close>

text \<open>\<open>while (!queue_.empty()) { candidates.push_back(queue_.top()); queue_.pop(); }\<close>.
  The fuel is the number of elements, and \<open>drain_empties\<close> shows that it is enough.\<close>

fun drain_loop :: "('q \<Rightarrow> 'a option) \<Rightarrow> ('q \<Rightarrow> 'q) \<Rightarrow> nat \<Rightarrow> 'q \<Rightarrow> 'a list \<Rightarrow> 'a list \<times> 'q" where
  "drain_loop top_of pop_of 0 q acc = (acc, q)"
| "drain_loop top_of pop_of (Suc n) q acc =
     (case top_of q of None \<Rightarrow> (acc, q) | Some x \<Rightarrow> drain_loop top_of pop_of n (pop_of q) (acc @ [x]))"

locale priority_queue = strict_weak_order cmp
  for cmp :: "'a \<Rightarrow> 'a \<Rightarrow> bool" +
  fixes empty :: 'q and push :: "'q \<Rightarrow> 'a \<Rightarrow> 'q" and top_of :: "'q \<Rightarrow> 'a option"
    and pop_of :: "'q \<Rightarrow> 'q" and elems :: "'q \<Rightarrow> 'a multiset" and wf :: "'q \<Rightarrow> bool"
  assumes wf_empty: "wf empty"
    and wf_push: "wf q \<Longrightarrow> wf (push q x)"
    and wf_pop: "wf q \<Longrightarrow> wf (pop_of q)"
    and elems_empty: "elems empty = {#}"
    and elems_push: "elems (push q x) = add_mset x (elems q)"
    and top_None: "top_of q = None \<longleftrightarrow> elems q = {#}"
    and elems_pop: "top_of q = Some x \<Longrightarrow> elems q = add_mset x (elems (pop_of q))"
    and top_max: "wf q \<Longrightarrow> top_of q = Some x \<Longrightarrow> y \<in># elems q \<Longrightarrow> \<not> cmp x y"
begin

lemma drain_elems:
  "drain_loop top_of pop_of n q acc = (xs, q') \<Longrightarrow> mset xs + elems q' = mset acc + elems q"
proof (induction n arbitrary: q acc)
  case (Suc n)
  then show ?case by (cases "top_of q") (auto dest: elems_pop)
qed simp

lemma drain_empties:
  "drain_loop top_of pop_of n q acc = (xs, q') \<Longrightarrow> size (elems q) \<le> n \<Longrightarrow> elems q' = {#}"
proof (induction n arbitrary: q acc)
  case (Suc n)
  show ?case
  proof (cases "top_of q")
    case None
    with Suc.prems show ?thesis by (simp add: top_None)
  next
    case (Some x)
    with elems_pop have "size (elems (pop_of q)) \<le> n" using Suc.prems(2) by force
    with Suc.IH [of "pop_of q" "acc @ [x]"] Suc.prems(1) Some show ?thesis by simp
  qed
qed simp

text \<open>What comes out is in the order of the comparator: no later element has to run
  before an earlier one.\<close>

lemma drain_ordered:
  assumes "drain_loop top_of pop_of n q acc = (xs, q')" "wf q"
    and "ordered_by (\<lambda>a b. cmp b a) acc" "\<forall>x \<in> set acc. \<forall>y. y \<in># elems q \<longrightarrow> \<not> cmp x y"
  shows "ordered_by (\<lambda>a b. cmp b a) xs"
  using assms
proof (induction n arbitrary: q acc)
  case (Suc n)
  show ?case
  proof (cases "top_of q")
    case (Some x)
    have x: "x \<in># elems q" using elems_pop [OF Some] by simp
    have sub: "y \<in># elems q" if "y \<in># elems (pop_of q)" for y
      using elems_pop [OF Some] that by simp
    have "ordered_by (\<lambda>a b. cmp b a) (acc @ [x])"
      using Suc.prems(3,4) x by (simp add: ordered_by_append)
    moreover have "\<forall>z \<in> set (acc @ [x]). \<forall>y. y \<in># elems (pop_of q) \<longrightarrow> \<not> cmp z y"
      using Suc.prems(2,4) top_max [OF _ Some] sub by auto
    ultimately show ?thesis
      using Suc.IH [of "pop_of q" "acc @ [x]"] Suc.prems(1,2) Some by (simp add: wf_pop)
  qed (use Suc.prems in simp)
qed simp

end

subsection \<open>The queue of the model\<close>

definition pq_empty :: "'a list" where
  "pq_empty = []"

definition pq_push :: "('a \<Rightarrow> 'a \<Rightarrow> bool) \<Rightarrow> 'a list \<Rightarrow> 'a \<Rightarrow> 'a list" where
  "pq_push cmp q x = insort_by (\<lambda>a b. cmp b a) x q"

definition pq_top :: "'a list \<Rightarrow> 'a option" where
  "pq_top q = (case q of [] \<Rightarrow> None | x # _ \<Rightarrow> Some x)"

definition pq_pop :: "'a list \<Rightarrow> 'a list" where
  "pq_pop q = tl q"

text \<open>The dispatcher takes every queued job (scheduler.cpp, lines 418-421).\<close>

definition drain_queue :: "InferenceJob list \<Rightarrow> InferenceJob list \<times> InferenceJob list" where
  "drain_queue q = drain_loop pq_top pq_pop (length q) q []"

text \<open>Pushing a list of jobs back (lines 461-462).\<close>

definition push_all :: "InferenceJob list \<Rightarrow> InferenceJob list \<Rightarrow> InferenceJob list" where
  "push_all q js = foldl (pq_push JobPriorityCompare) q js"

definition pq_wf :: "InferenceJob list \<Rightarrow> bool" where
  "pq_wf q = ordered_by (\<lambda>a b. JobPriorityCompare b a) q"

interpretation pq: priority_queue JobPriorityCompare pq_empty "pq_push JobPriorityCompare"
  pq_top pq_pop mset pq_wf
proof unfold_locales
  fix q :: "InferenceJob list" and x y
  show "pq_wf q \<Longrightarrow> pq_wf (pq_push JobPriorityCompare q x)"
    by (simp add: pq_wf_def pq_push_def runs_before.ordered_insort_by)
  show "pq_wf q \<Longrightarrow> pq_wf (pq_pop q)"
    by (cases q) (simp_all add: pq_wf_def pq_pop_def)
  show "pq_wf q \<Longrightarrow> pq_top q = Some x \<Longrightarrow> y \<in># mset q \<Longrightarrow> \<not> JobPriorityCompare x y"
    by (cases q) (auto simp: pq_wf_def pq_top_def jpc.less_irrefl)
  show "pq_top q = Some x \<Longrightarrow> mset q = add_mset x (mset (pq_pop q))"
    by (cases q) (auto simp: pq_top_def pq_pop_def)
qed (auto simp: pq_wf_def pq_empty_def pq_push_def pq_top_def split: list.splits)

lemma push_all_simps [simp]:
  "push_all q [] = q"
  "push_all q (j # js) = push_all (pq_push JobPriorityCompare q j) js"
  by (simp_all add: push_all_def)

lemma mset_push_all [simp]: "mset (push_all q js) = mset q + mset js"
  by (induction js arbitrary: q) (simp_all add: pq.elems_push)

lemma pq_wf_push_all: "pq_wf q \<Longrightarrow> pq_wf (push_all q js)"
  by (induction js arbitrary: q) (simp_all add: pq.wf_push)

lemma drain_queue_mset: "drain_queue q = (xs, q') \<Longrightarrow> mset xs = mset q \<and> q' = []"
  using pq.drain_elems [of "length q" q "[]" xs q'] pq.drain_empties [of "length q" q "[]" xs q']
  by (simp add: drain_queue_def)

lemma drain_queue_ordered:
  assumes "pq_wf q" "drain_queue q = (xs, q')"
  shows "ordered_by (\<lambda>a b. JobPriorityCompare b a) xs"
  using pq.drain_ordered [of "length q" q "[]" xs q'] assms by (simp add: drain_queue_def)

text \<open>
  C11.  Jobs pushed in the order of their sequence numbers and then drained by the
  dispatcher come out as the stable sort of the pushed jobs by descending priority: higher
  priorities first, first-in first-out within a priority, every job exactly once, and the
  queue is empty afterwards.
\<close>

theorem queue_is_stable_priority_sort:
  assumes "sorted_wrt (<) (map seq js)"
  shows "drain_queue (push_all pq_empty js) = (sort_key (\<lambda>j. - sint (priority j)) js, [])"
proof -
  obtain xs q' where d: "drain_queue (push_all pq_empty js) = (xs, q')" by fastforce
  have ms: "mset xs = mset js" and q': "q' = []"
    using drain_queue_mset [OF d] by (simp_all add: pq_empty_def)
  have inc: "sorted_wrt (\<lambda>a b. uint (seq a) < uint (seq b)) js"
    using assms by (simp add: sorted_wrt_map word_less_def)
  have ord: "ordered_by (\<lambda>a b. JobPriorityCompare b a) xs"
    by (rule drain_queue_ordered [OF pq_wf_push_all [OF pq.wf_empty] d])
  have "ordered_by (\<lambda>a b. JobPriorityCompare b a) (sort_key queue_key js)"
    by (simp add: runs_before.ordered_by_key)
  moreover have "inj_on queue_key (set xs)"
  proof -
    have "distinct (map (\<lambda>j. uint (seq j)) js)"
      using inc by (induction js) auto
    then have "inj_on (\<lambda>j. uint (seq j)) (set js)" by (simp add: distinct_map)
    then have "inj_on (\<lambda>j. uint (seq j)) (set xs)" by (metis ms set_mset_mset)
    then show ?thesis by (auto simp: inj_on_def queue_key_def)
  qed
  ultimately have "xs = sort_key queue_key js"
    using runs_before.ordered_unique [OF ord] ms by simp
  then have "xs = sort_key (\<lambda>j. - sint (priority j)) js"
    using sort_key_lex [OF inc, of "\<lambda>j. - sint (priority j)"] by (simp add: queue_key_def [abs_def])
  with d q' show ?thesis by simp
qed

theorem queue_is_stable_priority_sort_witness:
  "let j = (\<lambda>s p. default_job\<lparr>seq := s, priority := p\<rparr>);
       js = [j 0 1, j 1 3, j 2 1, j 3 2, j 4 3]
   in sorted_wrt (<) (map seq js) \<and>
      fst (drain_queue (push_all pq_empty js)) = [j 1 3, j 4 3, j 3 2, j 0 1, j 2 1]"
  using queue_is_stable_priority_sort
    [of "[default_job\<lparr>seq := 0, priority := 1\<rparr>, default_job\<lparr>seq := 1, priority := 3\<rparr>,
          default_job\<lparr>seq := 2, priority := 1\<rparr>, default_job\<lparr>seq := 3, priority := 2\<rparr>,
          default_job\<lparr>seq := 4, priority := 3\<rparr>]"]
  by (simp add: default_job_def)

end
