(* ===== verification/Packing.thy ===== *)
theory Packing
  imports Job
begin

section \<open>Packing a batch (pack_jobs in src/src/sched/scheduler.cpp)\<close>

text \<open>
  The candidates are sorted by wait bucket, bytes, priority and sequence number, and one
  greedy sweep takes a job when the cap of jobs is not reached and the running sum of bytes
  stays within the budget.  The running sum is a \<open>size_t\<close>.  The lemmas give the sweep's
  invariant over exact numbers, the order of the comparator, and what the sweep selects.
\<close>

subsection \<open>The comparator\<close>

definition kAgingIntervalMs :: int where
  "kAgingIntervalMs = 1000"

text \<open>\<open>duration_cast<milliseconds>\<close> and the division truncate towards zero.\<close>

definition age_bucket :: "time_point \<Rightarrow> InferenceJob \<Rightarrow> int" where
  "age_bucket now job =
     (if submit_time job = 0 then 0
      else let wait_ms = (now - submit_time job) sdiv 1000000
           in if wait_ms > 0 then wait_ms sdiv kAgingIntervalMs else 0)"

definition pack_less :: "time_point \<Rightarrow> InferenceJob \<Rightarrow> InferenceJob \<Rightarrow> bool" where
  "pack_less now a b =
     (let bucket_a = age_bucket now a; bucket_b = age_bucket now b;
          bytes_a = bytes_required a; bytes_b = bytes_required b
      in if bucket_a \<noteq> bucket_b then bucket_a > bucket_b
         else if bytes_a \<noteq> bytes_b then bytes_a < bytes_b
         else if priority a \<noteq> priority b then sint (priority a) > sint (priority b)
         else seq a < seq b)"

subsection \<open>The sweep\<close>

text \<open>\<open>max_batch > 0 && static_cast<int>(selected.size()) >= max_batch\<close>\<close>

definition cap_reached :: "i32 \<Rightarrow> InferenceJob list \<Rightarrow> bool" where
  "cap_reached max_batch sel \<longleftrightarrow>
     0 < sint max_batch \<and> sint max_batch \<le> sint (int_of_size (vector_size sel))"

fun pack_sweep :: "size_t \<Rightarrow> i32 \<Rightarrow> InferenceJob list \<Rightarrow> InferenceJob list \<Rightarrow> InferenceJob list
    \<Rightarrow> size_t \<Rightarrow> InferenceJob list \<times> InferenceJob list" where
  "pack_sweep budget max_batch [] sel rem used = (sel, rem)"
| "pack_sweep budget max_batch (job # jobs) sel rem used =
     (let need = bytes_required job in
      if cap_reached max_batch sel then pack_sweep budget max_batch jobs sel (rem @ [job]) used
      else if need > budget \<or> used + need > budget
           then pack_sweep budget max_batch jobs sel (rem @ [job]) used
      else pack_sweep budget max_batch jobs (sel @ [job]) rem (used + need))"

definition pack_jobs :: "time_point \<Rightarrow> InferenceJob list \<Rightarrow> size_t \<Rightarrow> i32
    \<Rightarrow> bool \<times> InferenceJob list \<times> InferenceJob list" where
  "pack_jobs now candidates budget max_batch =
     (let (selected, remaining) =
            pack_sweep budget max_batch (stable_sort (pack_less now) candidates) [] [] 0
      in (selected \<noteq> [], selected, remaining))"

subsection \<open>The comparator is a key order\<close>

definition pack_key :: "time_point \<Rightarrow> InferenceJob \<Rightarrow> int \<times> int \<times> int \<times> int" where
  "pack_key now j = (- age_bucket now j, uint (bytes_required j), - sint (priority j), uint (seq j))"

lemma pack_less_key: "pack_less now a b \<longleftrightarrow> pack_key now a < pack_key now b"
  by (cases "priority a = priority b"; cases "bytes_required a = bytes_required b")
    (auto simp: pack_less_def pack_key_def Let_def word_less_def
      dest: sint_le_neq uint_le_neq simp flip: word_uint_eq_iff)

interpretation pack: key_order "pack_less now" "pack_key now" for now
  by unfold_locales (rule pack_less_key)

lemma age_bucket_eq:
  assumes "submit_time j \<noteq> 0"
  shows "age_bucket now j = max 0 ((now - submit_time j) div 1000000000)"
proof (cases "0 \<le> now - submit_time j")
  case True
  have "(now - submit_time j) div 1000000 div 1000 = (now - submit_time j) div 1000000000"
    by (simp add: div_mult2_eq [symmetric])
  with True assms show ?thesis
    by (auto simp: age_bucket_def kAgingIntervalMs_def sdiv_nonneg Let_def max_def not_less
        pos_imp_zdiv_nonneg_iff)
next
  case False
  then have "(now - submit_time j) sdiv 1000000 \<le> 0" by (simp add: sdiv_neg)
  moreover have "(now - submit_time j) div 1000000000 < 0"
    using False by (simp add: pos_imp_zdiv_neg_iff)
  ultimately show ?thesis using assms by (simp add: age_bucket_def)
qed

lemma age_bucket_nonneg: "0 \<le> age_bucket now j"
  by (cases "submit_time j = 0") (simp_all add: age_bucket_eq, simp add: age_bucket_def)

subsection \<open>Exact accounting of the sweep\<close>

abbreviation sum_bytes :: "InferenceJob list \<Rightarrow> nat" where
  "sum_bytes \<equiv> nat_sum bytes_required"

abbreviation need :: "InferenceJob \<Rightarrow> nat" where
  "need j \<equiv> unat (bytes_required j)"

text \<open>With a budget below \<open>2 ^ 63\<close> the running sum cannot wrap.\<close>

lemma fits_exact:
  fixes used n budget :: size_t
  assumes "unat budget < 2 ^ 63" "unat used \<le> unat budget"
  shows "(n > budget \<or> used + n > budget) \<longleftrightarrow> unat budget < unat used + unat n"
proof (cases "n > budget")
  case True
  then show ?thesis by (auto simp: word_less_nat_alt)
next
  case False
  then have "unat n \<le> unat budget" by (simp add: word_le_nat_alt not_less)
  with assms have "unat used + unat n < 2 ^ 64" by simp
  then have "unat (used + n) = unat used + unat n" by (simp add: unat_word_ariths)
  with False show ?thesis by (simp add: word_less_nat_alt)
qed

text \<open>The cap in exact numbers; it is off when \<open>max_batch\<close> is not positive.\<close>

definition under_cap :: "i32 \<Rightarrow> nat \<Rightarrow> bool" where
  "under_cap max_batch n \<longleftrightarrow> (0 < sint max_batch \<longrightarrow> int n < sint max_batch)"

definition within_cap :: "i32 \<Rightarrow> nat \<Rightarrow> bool" where
  "within_cap max_batch n \<longleftrightarrow> (0 < sint max_batch \<longrightarrow> int n \<le> sint max_batch)"

lemma within_cap_simps [simp]:
  "within_cap mb 0"
  "under_cap mb n \<Longrightarrow> within_cap mb (Suc n)"
  by (auto simp: under_cap_def within_cap_def)

lemma cap_reached_exact:
  assumes "within_cap mb (length sel)"
  shows "cap_reached mb sel \<longleftrightarrow> \<not> under_cap mb (length sel)"
proof (cases "0 < sint mb")
  case True
  have "sint mb < 2 ^ 31" using sint_lt [of mb] by simp
  with True assms have "length sel < 2 ^ 31" by (simp add: within_cap_def)
  then show ?thesis by (auto simp: cap_reached_def under_cap_def int_of_size_small)
qed (simp add: cap_reached_def under_cap_def)

text \<open>The reference: the same greedy choice over natural numbers.\<close>

fun greedy :: "nat \<Rightarrow> i32 \<Rightarrow> InferenceJob list \<Rightarrow> nat \<Rightarrow> nat \<Rightarrow> InferenceJob list \<times> InferenceJob list" where
  "greedy B mb [] used n = ([], [])"
| "greedy B mb (j # js) used n =
     (if under_cap mb n \<and> used + need j \<le> B
      then apfst ((#) j) (greedy B mb js (used + need j) (Suc n))
      else apsnd ((#) j) (greedy B mb js used n))"

lemma pack_sweep_greedy:
  assumes "unat budget < 2 ^ 63" "unat used \<le> unat budget" "within_cap mb (length sel)"
  shows "pack_sweep budget mb js sel rem used =
    (case greedy (unat budget) mb js (unat used) (length sel) of (s, r) \<Rightarrow> (sel @ s, rem @ r))"
  using assms(2,3)
proof (induction js arbitrary: sel rem used)
  case (Cons j js)
  show ?case
  proof (cases "under_cap mb (length sel) \<and> unat used + need j \<le> unat budget")
    case True
    then have sum: "unat (used + bytes_required j) = unat used + need j"
      using assms(1) by (simp add: unat_word_ariths)
    have "\<not> (bytes_required j > budget \<or> used + bytes_required j > budget)"
      using True fits_exact [OF assms(1) Cons.prems(1)] by simp
    moreover have "\<not> cap_reached mb sel" using True Cons.prems by (simp add: cap_reached_exact)
    ultimately have "pack_sweep budget mb (j # js) sel rem used =
        pack_sweep budget mb js (sel @ [j]) rem (used + bytes_required j)"
      by (simp only: pack_sweep.simps Let_def if_False)
    also have "\<dots> = (case greedy (unat budget) mb js (unat used + need j) (Suc (length sel)) of
        (s, r) \<Rightarrow> ((sel @ [j]) @ s, rem @ r))"
    proof -
      have "within_cap mb (length (sel @ [j]))" using True by simp
      moreover have "unat (used + bytes_required j) \<le> unat budget" using True sum by (simp only:)
      ultimately show ?thesis
        using Cons.IH [of "used + bytes_required j" "sel @ [j]" rem] by (simp only: sum) simp
    qed
    finally show ?thesis
      using True by (auto split: prod.splits)
  next
    case False
    then have "cap_reached mb sel \<or> (bytes_required j > budget \<or> used + bytes_required j > budget)"
      unfolding fits_exact [OF assms(1) Cons.prems(1)] cap_reached_exact [OF Cons.prems(2)]
      using False by linarith
    then have "pack_sweep budget mb (j # js) sel rem used =
        pack_sweep budget mb js sel (rem @ [j]) used"
      by (auto simp: Let_def)
    also have "\<dots> = (case greedy (unat budget) mb js (unat used) (length sel) of
        (s, r) \<Rightarrow> (sel @ s, (rem @ [j]) @ r))"
      by (rule Cons.IH [OF Cons.prems])
    finally show ?thesis
      using False by (auto split: prod.splits)
  qed
qed simp

subsection \<open>What the greedy sweep selects\<close>

lemma greedy_mset: "greedy B mb js used n = (s, r) \<Longrightarrow> mset s + mset r = mset js"
proof (induction js arbitrary: used n s r)
  case (Cons j js)
  then show ?case
    by (cases "greedy B mb js (used + need j) (Suc n)"; cases "greedy B mb js used n")
      (auto split: if_splits)
qed simp

lemma greedy_budget: "greedy B mb js used n = (s, r) \<Longrightarrow> used \<le> B \<Longrightarrow> used + sum_bytes s \<le> B"
proof (induction js arbitrary: used n s r)
  case (Cons j js)
  then show ?case
    by (cases "greedy B mb js (used + need j) (Suc n)"; cases "greedy B mb js used n")
      (force split: if_splits)
qed simp

lemma greedy_cap:
  "greedy B mb js used n = (s, r) \<Longrightarrow> within_cap mb n \<Longrightarrow> within_cap mb (n + length s)"
proof (induction js arbitrary: used n s r)
  case (Cons j js)
  show ?case
  proof (cases "under_cap mb n \<and> used + need j \<le> B")
    case True
    with Cons.IH [of "used + need j" "Suc n"] Cons.prems show ?thesis
      by (cases "greedy B mb js (used + need j) (Suc n)") auto
  next
    case False
    with Cons.IH [of used n] Cons.prems show ?thesis
      by (cases "greedy B mb js used n") auto
  qed
qed simp

text \<open>Nothing that was left out could still be added.\<close>

lemma greedy_maximal:
  "greedy B mb js used n = (s, r) \<Longrightarrow> j \<in> set r \<Longrightarrow>
   \<not> under_cap mb (n + length s) \<or> B < used + sum_bytes s + need j"
proof (induction js arbitrary: used n s r)
  case (Cons i js)
  show ?case
  proof (cases "under_cap mb n \<and> used + need i \<le> B")
    case True
    with Cons.IH [of "used + need i" "Suc n"] Cons.prems show ?thesis
      by (cases "greedy B mb js (used + need i) (Suc n)") (auto simp: add.assoc)
  next
    case False
    obtain s' r' where g: "greedy B mb js used n = (s', r')" by fastforce
    with False Cons.prems have sr: "s = s'" "r = i # r'" by auto
    show ?thesis
    proof (cases "j = i")
      case True
      with False sr show ?thesis by (auto simp: under_cap_def)
    next
      case False
      with Cons.IH [OF g] Cons.prems(2) sr show ?thesis by simp
    qed
  qed
qed simp

text \<open>A prefix that fits is taken whole.\<close>

lemma greedy_prefix:
  assumes "used + sum_bytes pre \<le> B" "within_cap mb (n + length pre)"
  shows "greedy B mb (pre @ post) used n =
    apfst ((@) pre) (greedy B mb post (used + sum_bytes pre) (n + length pre))"
  using assms
proof (induction pre arbitrary: used n)
  case (Cons j pre)
  have "under_cap mb n" using Cons.prems(2) by (auto simp: under_cap_def within_cap_def)
  with Cons.IH [of "used + need j" "Suc n"] Cons.prems show ?case
    by (simp add: add.assoc) (metis apfst_conv prod.collapse append_Cons)
qed (simp add: apfst_def map_prod_def)

text \<open>A selected job is not behind a job left out that is no larger.\<close>

lemma greedy_smaller_taken:
  "greedy B mb js used n = (s, r) \<Longrightarrow> \<not> under_cap mb n \<or> B < used + b \<Longrightarrow> j \<in> set s \<Longrightarrow> need j < b"
proof (induction js arbitrary: used n s r)
  case (Cons i js)
  show ?case
  proof (cases "under_cap mb n \<and> used + need i \<le> B")
    case True
    then have i: "need i < b" using Cons.prems(2) by linarith
    obtain s' r' where g: "greedy B mb js (used + need i) (Suc n) = (s', r')" by fastforce
    with True Cons.prems(1) have "s = i # s'" by auto
    moreover have "need j < b" if "j \<in> set s'"
      using Cons.IH [OF g _ that] Cons.prems(2) True by (auto simp: under_cap_def)
    ultimately show ?thesis using i Cons.prems(3) by auto
  next
    case False
    obtain s' r' where g: "greedy B mb js used n = (s', r')" by fastforce
    with False Cons.prems(1) have "s = s'" by auto
    with Cons.IH [OF g Cons.prems(2)] Cons.prems(3) show ?thesis by simp
  qed
qed simp

lemma greedy_no_inversion:
  assumes "greedy B mb js used n = (s, r)" "ordered_by lt js"
    and "x \<in> set s" "y \<in> set r" "need y \<le> need x"
  shows "\<not> lt y x"
  using assms
proof (induction js arbitrary: used n s r)
  case (Cons i js)
  show ?case
  proof (cases "under_cap mb n \<and> used + need i \<le> B")
    case True
    obtain s' r' where g: "greedy B mb js (used + need i) (Suc n) = (s', r')" by fastforce
    with True Cons.prems(1) have sr: "s = i # s'" "r = r'" by auto
    have "y \<in> set js" using greedy_mset [OF g] Cons.prems(4) sr by (metis UnCI set_mset_mset set_mset_union)
    with Cons.IH [OF g] Cons.prems sr show ?thesis by auto
  next
    case False
    obtain s' r' where g: "greedy B mb js used n = (s', r')" by fastforce
    with False Cons.prems(1) have sr: "s = s'" "r = i # r'" by auto
    have "need x < need i"
      using greedy_smaller_taken [OF g, of "need i" x] False Cons.prems(3) sr by auto
    then have "y \<noteq> i" using Cons.prems(5) by auto
    with Cons.IH [OF g] Cons.prems sr show ?thesis by auto
  qed
qed simp

subsection \<open>Candidates of one wait bucket: the count is maximal\<close>

lemma greedy_none: "greedy B mb js used n = ([], r) \<Longrightarrow> r = js"
proof (induction js arbitrary: r)
  case (Cons j js)
  then show ?case
    by (cases "greedy B mb js (used + need j) (Suc n)"; cases "greedy B mb js used n")
      (auto split: if_splits)
qed simp

lemma greedy_sorted_prefix:
  "greedy B mb js used n = (s, r) \<Longrightarrow> sorted (map need js) \<Longrightarrow> js = s @ r"
proof (induction js arbitrary: used n s r)
  case (Cons i js)
  show ?case
  proof (cases "under_cap mb n \<and> used + need i \<le> B")
    case True
    with Cons.IH [of "used + need i" "Suc n"] Cons.prems show ?thesis
      by (cases "greedy B mb js (used + need i) (Suc n)") auto
  next
    case False
    obtain s' r' where g: "greedy B mb js used n = (s', r')" by fastforce
    have "need j < need i" if "j \<in> set s'" for j
      using greedy_smaller_taken [OF g, of "need i" j] False that by auto
    moreover have "need i \<le> need j" if "j \<in> set s'" for j
      using Cons.prems(2) greedy_mset [OF g] that
      by simp (metis UnCI set_mset_mset set_mset_union)
    ultimately have "s' = []" by (metis leD list.set_intros(1) neq_Nil_conv)
    with g greedy_none [of B mb js used n r'] False Cons.prems(1) show ?thesis by auto
  qed
qed simp

lemma pack_less_same_bucket:
  "age_bucket now a = age_bucket now b \<Longrightarrow> \<not> pack_less now b a \<Longrightarrow> need a \<le> need b"
  by (auto simp: pack_less_def Let_def word_less_nat_alt not_less split: if_splits)

lemma greedy_optimal:
  assumes g: "greedy B mb js 0 0 = (s, r)" and sorted: "sorted (map need js)"
    and T: "T \<subseteq># mset js" "(\<Sum>j \<in># T. need j) \<le> B" "within_cap mb (size T)"
  shows "size T \<le> length s"
proof (rule ccontr)
  assume "\<not> size T \<le> length s"
  then have less: "length s < size T" by simp
  have js: "js = s @ r" by (rule greedy_sorted_prefix [OF g sorted])
  have "size T \<le> length js" using T(1) by (metis size_mset size_mset_mono)
  with less js obtain j r' where r: "r = j # r'" by (cases r) auto
  have "under_cap mb (length s)" using less T(3) by (auto simp: under_cap_def within_cap_def)
  with greedy_maximal [OF g, of j] r have "B < sum_bytes s + need j" by simp
  also have "\<dots> = sum_list (map need (take (Suc (length s)) js))"
    by (simp add: js r nat_sum_def)
  also have "\<dots> \<le> sum_list (map need (take (size T) js))"
  proof -
    have "take (size T) js = take (Suc (length s)) js @ take (size T - Suc (length s)) (drop (Suc (length s)) js)"
      using less by (metis Suc_leI le_add_diff_inverse take_add)
    then show ?thesis by simp
  qed
  also have "\<dots> \<le> (\<Sum>j \<in># T. need j)" by (rule sum_take_sorted_le [OF sorted T(1)])
  finally show False using T(2) by simp
qed

subsection \<open>Results of pack_jobs\<close>

lemma pack_jobs_greedy:
  assumes "pack_jobs now cands budget mb = (ok, sel, rem)" "unat budget < 2 ^ 63"
  shows "greedy (unat budget) mb (stable_sort (pack_less now) cands) 0 0 = (sel, rem)"
    and "ok \<longleftrightarrow> sel \<noteq> []"
  using assms pack_sweep_greedy [OF assms(2), of 0 mb "[]" "stable_sort (pack_less now) cands" "[]"]
  by (auto simp: pack_jobs_def split: prod.splits)

text \<open>The partition needs no bound on the budget.\<close>

lemma pack_sweep_mset:
  "pack_sweep budget mb js sel rem used = (s, r) \<Longrightarrow> mset s + mset r = mset sel + mset rem + mset js"
  by (induction budget mb js sel rem used rule: pack_sweep.induct)
    (auto simp: Let_def split: if_splits)

lemma pack_jobs_mset:
  "pack_jobs now cands budget mb = (ok, sel, rem) \<Longrightarrow> mset sel + mset rem = mset cands"
  by (auto simp: pack_jobs_def dest: pack_sweep_mset split: prod.splits)

lemma pack_jobs_budget:
  "pack_jobs now cands budget mb = (ok, sel, rem) \<Longrightarrow> unat budget < 2 ^ 63 \<Longrightarrow>
   sum_bytes sel \<le> unat budget"
  using greedy_budget [OF pack_jobs_greedy(1)] by force

lemma pack_jobs_cap:
  "pack_jobs now cands budget mb = (ok, sel, rem) \<Longrightarrow> unat budget < 2 ^ 63 \<Longrightarrow>
   within_cap mb (length sel)"
  using greedy_cap [OF pack_jobs_greedy(1)] by force

subsection \<open>Properties\<close>

text \<open>
  C10.  A packed batch is safe: with a budget below \<open>2 ^ 63\<close> the selected jobs together need
  at most the budget (exact numbers, no wrap-around), there are at most \<open>max_batch\<close> of them
  when \<open>max_batch\<close> is positive, selected and remaining jobs are together exactly the
  candidates, and the returned flag says whether anything was selected.
\<close>

theorem pack_jobs_safe:
  assumes "unat budget < 2 ^ 63" "pack_jobs now cands budget max_batch = (ok, sel, rem)"
  shows "nat_sum bytes_required sel \<le> unat budget \<and>
    (0 < sint max_batch \<longrightarrow> int (length sel) \<le> sint max_batch) \<and>
    mset sel + mset rem = mset cands \<and> (ok \<longleftrightarrow> sel \<noteq> [])"
  using pack_jobs_budget [OF assms(2,1)] pack_jobs_cap [OF assms(2,1)]
    pack_jobs_mset [OF assms(2)] pack_jobs_greedy(2) [OF assms(2,1)]
  by (simp add: within_cap_def)

text \<open>
  C20.  The greedy sweep packs as many jobs as possible when all candidates are in the same
  wait bucket: no sub-multiset of the candidates that fits the budget and the cap has more
  jobs than the selection.
\<close>

theorem pack_jobs_optimal:
  assumes "unat budget < 2 ^ 63" "pack_jobs now cands budget max_batch = (ok, sel, rem)"
    and "\<forall>a \<in> set cands. \<forall>b \<in> set cands. age_bucket now a = age_bucket now b"
    and "T \<subseteq># mset cands" "(\<Sum>j \<in># T. unat (bytes_required j)) \<le> unat budget"
    and "0 < sint max_batch \<longrightarrow> int (size T) \<le> sint max_batch"
  shows "size T \<le> length sel"
proof -
  let ?js = "stable_sort (pack_less now) cands"
  have "ordered_by (pack_less now) ?js" by (rule pack.ordered_stable_sort)
  then have "sorted_wrt (\<lambda>a b. \<not> pack_less now b a) ?js" by (simp add: ordered_by_def)
  moreover have "need x \<le> need y"
    if "x \<in> set ?js" "y \<in> set ?js" "\<not> pack_less now y x" for x y
  proof -
    have "x \<in> set cands" "y \<in> set cands" using that(1,2) by simp_all
    then have "age_bucket now x = age_bucket now y" using assms(3) by blast
    then show ?thesis using that(3) by (rule pack_less_same_bucket)
  qed
  ultimately have "sorted_wrt (\<lambda>a b. need a \<le> need b) ?js"
    by (rule sorted_wrt_mono_rel [rotated])
  then have "sorted (map need ?js)" by (simp add: sorted_wrt_map)
  from greedy_optimal [OF pack_jobs_greedy(1) [OF assms(2,1)] this] assms(4-6) show ?thesis
    by (simp add: within_cap_def)
qed

text \<open>
  A job is selected whenever it fits together with everything that the comparator puts
  in front of it: older wait buckets first, then fewer bytes, then higher priority, then
  earlier submission.  In particular the oldest candidate that fits the budget alone is
  selected, however many small younger jobs are queued; this is what wait aging buys.
\<close>

theorem pack_jobs_takes_aged:
  assumes "unat budget < 2 ^ 63" "pack_jobs now cands budget max_batch = (ok, sel, rem)"
    and "j \<in> set cands"
    and "nat_sum bytes_required (filter (\<lambda>i. \<not> pack_less now j i) cands) \<le> unat budget"
    and "0 < sint max_batch \<longrightarrow> int (length (filter (\<lambda>i. \<not> pack_less now j i) cands)) \<le> sint max_batch"
  shows "j \<in> set sel"
proof -
  let ?js = "stable_sort (pack_less now) cands" and ?P = "\<lambda>i. \<not> pack_less now j i"
  let ?pre = "filter ?P ?js"
  let ?post = "filter (\<lambda>i. pack_less now j i) ?js"
  have split: "?pre @ ?post = ?js"
    by (rule pack.ordered_split [OF pack.ordered_stable_sort])
  have ms: "mset ?pre = mset (filter ?P cands)" by (simp add: mset_filter)
  have "sum_bytes ?pre \<le> unat budget"
    using assms(4) nat_sum_mset [OF ms] by metis
  moreover have "within_cap max_batch (length ?pre)"
    using assms(5) mset_eq_length [OF ms] by (simp add: within_cap_def)
  ultimately have "greedy (unat budget) max_batch (?pre @ ?post) 0 0 =
      apfst ((@) ?pre) (greedy (unat budget) max_batch ?post (0 + sum_bytes ?pre) (0 + length ?pre))"
    by (intro greedy_prefix) simp_all
  then have "apfst ((@) ?pre) (greedy (unat budget) max_batch ?post (0 + sum_bytes ?pre) (0 + length ?pre))
      = (sel, rem)"
    using pack_jobs_greedy(1) [OF assms(2,1)] by (simp only: split)
  then have "set ?pre \<subseteq> set sel"
    by (cases "greedy (unat budget) max_batch ?post (0 + sum_bytes ?pre) (0 + length ?pre)")
      (auto simp only: apfst_conv prod.inject set_append)
  moreover have "j \<in> set ?pre" using assms(3) by (simp add: pack.less_irrefl)
  ultimately show ?thesis by blast
qed

text \<open>
  No inversion: when a selected job needs at least as many bytes as one that was left
  out, the one left out is not in front of it.  So within a wait bucket, among jobs of the
  same size, a higher priority and then an earlier submission always wins.
\<close>

theorem pack_jobs_no_inversion:
  assumes "unat budget < 2 ^ 63" "pack_jobs now cands budget max_batch = (ok, sel, rem)"
    and "x \<in> set sel" "y \<in> set rem" "bytes_required y \<le> bytes_required x"
  shows "\<not> pack_less now y x"
  using greedy_no_inversion [OF pack_jobs_greedy(1) [OF assms(2,1)] pack.ordered_stable_sort assms(3,4)]
    assms(5)
  by (simp add: word_le_nat_alt)

text \<open>
  The selection is maximal: below the cap, no remaining job fits next to it.
\<close>

theorem pack_jobs_maximal:
  assumes "unat budget < 2 ^ 63" "pack_jobs now cands budget max_batch = (ok, sel, rem)"
    and "y \<in> set rem" "0 < sint max_batch \<longrightarrow> int (length sel) < sint max_batch"
  shows "unat budget < nat_sum bytes_required sel + unat (bytes_required y)"
  using greedy_maximal [OF pack_jobs_greedy(1) [OF assms(2,1)] assms(3)] assms(4)
  by (simp add: under_cap_def)


subsection \<open>Witnesses\<close>

text \<open>A job of \<open>12 * s\<close> bytes (\<open>m = n = k = 1\<close>, batch \<open>s\<close>).\<close>

definition sample_job :: "u64 \<Rightarrow> i32 \<Rightarrow> time_point \<Rightarrow> InferenceJob" where
  "sample_job s b t = default_job\<lparr>job_id := s, job_m := 1, job_n := 1, job_k := 1, job_batch := b,
     submit_time := t, seq := s\<rparr>"

lemma bytes_sample_job: "bytes_required (sample_job s b t) = 12 * size_of_int b"
  by (simp add: sample_job_def default_job_def bytes_required_def size_of_int_def Let_def)

lemma submit_sample_job [simp]:
  "submit_time (sample_job s b t) = t" "seq (sample_job s b t) = s" "priority (sample_job s b t) = 0"
  by (simp_all add: sample_job_def default_job_def)

definition pack_example :: "bool \<times> InferenceJob list \<times> InferenceJob list" where
  "pack_example = pack_jobs 0 [sample_job 0 5 0, sample_job 1 1 0, sample_job 2 2 0] 40 8"

lemma pack_example_eq:
  "pack_example = (True, [sample_job 1 1 0, sample_job 2 2 0], [sample_job 0 5 0])"
  by (simp add: pack_example_def pack_jobs_def pack_less_def age_bucket_def bytes_sample_job
      size_of_int_def cap_reached_def int_of_size_def)

text \<open>An old large job against two fresh small ones, twenty seconds later.\<close>

definition aged_example :: "bool \<times> InferenceJob list \<times> InferenceJob list" where
  "aged_example = pack_jobs 20000000000
     [sample_job 1 1 20000000000, sample_job 2 1 20000000000, sample_job 0 5 1] 60 8"

lemmas pack_eval = pack_jobs_def pack_less_def age_bucket_def bytes_sample_job Let_def
  size_of_int_def cap_reached_def int_of_size_def kAgingIntervalMs_def signed_divide_int_def

lemma aged_example_eq:
  "aged_example = (True, [sample_job 0 5 1],
     [sample_job 1 1 20000000000, sample_job 2 1 20000000000])"
  by (simp add: aged_example_def pack_eval)

theorem pack_jobs_safe_witness:
  "unat (40 :: size_t) < 2 ^ 63 \<and>
   pack_example = (True, [sample_job 1 1 0, sample_job 2 2 0], [sample_job 0 5 0]) \<and>
   nat_sum bytes_required [sample_job 1 1 0, sample_job 2 2 0] \<le> unat (40 :: size_t)"
  using pack_jobs_safe [OF _ pack_example_eq [unfolded pack_example_def]] pack_example_eq by simp

theorem pack_jobs_optimal_witness:
  "size {#sample_job 1 1 0, sample_job 2 2 0#} \<le> length (fst (snd pack_example))"
proof -
  have "size {#sample_job 1 1 0, sample_job 2 2 0#} \<le> length [sample_job 1 1 0, sample_job 2 2 0]"
    by (rule pack_jobs_optimal [OF _ pack_example_eq [unfolded pack_example_def]])
      (simp_all add: age_bucket_def bytes_sample_job size_of_int_def)
  then show ?thesis by (simp add: pack_example_eq)
qed

theorem pack_jobs_takes_aged_witness: "sample_job 0 5 1 \<in> set (fst (snd aged_example))"
proof -
  have "sample_job 0 5 1 \<in> set [sample_job 0 5 1]"
    by (rule pack_jobs_takes_aged [OF _ aged_example_eq [unfolded aged_example_def]])
      (simp_all add: pack_eval)
  then show ?thesis by (simp add: aged_example_eq)
qed

theorem pack_jobs_no_inversion_witness:
  "\<not> pack_less 20000000000 (sample_job 1 1 20000000000) (sample_job 0 5 1)"
  by (rule pack_jobs_no_inversion [OF _ aged_example_eq [unfolded aged_example_def]])
    (simp_all add: bytes_sample_job size_of_int_def)

theorem pack_jobs_maximal_witness:
  "unat (40 :: size_t) < nat_sum bytes_required [sample_job 1 1 0, sample_job 2 2 0]
     + unat (bytes_required (sample_job 0 5 0))"
  by (rule pack_jobs_maximal [OF _ pack_example_eq [unfolded pack_example_def]]) simp_all

subsection \<open>Limits\<close>

text \<open>
  Across wait buckets the sweep does not maximise the number of packed jobs: here it
  takes the old large job alone, although two younger jobs fit the budget and the cap
  together.  The comment on \<open>pack_jobs\<close> in scheduler.hpp (largest set of jobs,
  candidates sorted by bytes) describes the sort without the wait buckets.
\<close>

theorem pack_jobs_not_maximum_across_buckets:
  "\<exists>T. T \<subseteq># mset [sample_job 1 1 20000000000, sample_job 2 1 20000000000, sample_job 0 5 1] \<and>
     (\<Sum>j \<in># T. unat (bytes_required j)) \<le> 60 \<and> size T \<le> 8 \<and>
     length (fst (snd (pack_jobs 20000000000
       [sample_job 1 1 20000000000, sample_job 2 1 20000000000, sample_job 0 5 1] 60 8))) < size T"
  by (rule exI [of _ "{#sample_job 1 1 20000000000, sample_job 2 1 20000000000#}"])
    (simp add: aged_example_eq [unfolded aged_example_def] bytes_sample_job size_of_int_def)

text \<open>A job of exactly \<open>2 ^ 63 * b\<close> bytes.\<close>

definition huge_job :: "u64 \<Rightarrow> i32 \<Rightarrow> InferenceJob" where
  "huge_job s b = default_job\<lparr>job_id := s, job_m := 2 ^ 30, job_k := 2 ^ 30, job_n := 2 ^ 29,
     job_batch := b, seq := s\<rparr>"

text \<open>
  Without the bound the budget is not respected: with a budget of \<open>2 ^ 63\<close> bytes (a
  \<open>fixed_budget_bytes\<close> may have any value) two jobs of \<open>2 ^ 63\<close> bytes are packed
  together, because \<open>used + need\<close> wraps to zero.
\<close>

theorem pack_jobs_wraps_at_huge_budget:
  "pack_jobs 0 [huge_job 0 1, huge_job 1 1] (2 ^ 63) 8 = (True, [huge_job 0 1, huge_job 1 1], []) \<and>
   unat (2 ^ 63 :: size_t) < nat_sum bytes_required [huge_job 0 1, huge_job 1 1]"
proof -
  have bytes: "bytes_required (huge_job s 1) = 9223372036854775808" for s
    by (simp add: huge_job_def default_job_def bytes_required_def size_of_int_def Let_def)
  have "submit_time (huge_job s 1) = 0" "seq (huge_job s 1) = s" "priority (huge_job s 1) = 0" for s
    by (simp_all add: huge_job_def default_job_def)
  then show ?thesis
    by (simp add: pack_jobs_def pack_less_def age_bucket_def Let_def cap_reached_def
        int_of_size_def bytes)
qed

text \<open>
  \<open>bytes_required\<close> is exact as long as the number of bytes fits \<open>size_t\<close>.
\<close>

theorem bytes_required_exact:
  assumes "valid_job j" "job_bytes j < 2 ^ 64"
  shows "unat (bytes_required j) = job_bytes j"
  by (rule unat_bytes_required [OF assms])

theorem bytes_required_exact_witness:
  "valid_job (sample_job 0 5 0) \<and> unat (bytes_required (sample_job 0 5 0)) = 60"
  using bytes_required_exact [of "sample_job 0 5 0"]
  by (simp add: valid_job_def job_bytes_def dim_def sample_job_def default_job_def)

text \<open>
  A job of \<open>2 ^ 64\<close> bytes counts as needing none: its dimensions are positive, the
  Python binding accepts it, and the oversize check and the budget let it through.
\<close>

theorem bytes_required_wraps_to_zero:
  "valid_job (huge_job s 2) \<and> job_bytes (huge_job s 2) = 2 ^ 64 \<and> bytes_required (huge_job s 2) = 0"
  by (simp add: huge_job_def default_job_def valid_job_def job_bytes_def dim_def bytes_required_def
      size_of_int_def Let_def)

end
