(* ===== verification/Monitor.thy ===== *)
theory Monitor
  imports Prelude
begin

section \<open>GPU telemetry (src/src/sched/gpu_monitor.cpp, gpu_monitor.hpp)\<close>

text \<open>
  \<open>GpuMonitor\<close> finds NVML at run time and falls back to the CUDA runtime.  What the two
  libraries answer is not code of the repository: the record \<open>driver\<close> holds their answers
  and is an argument of every operation that asks.  The sampling thread is the step
  \<open>sampler_tick\<close>; the sum of the samples is a sum of integers, kept exactly.
\<close>

record NvmlMemory =
  nvml_total :: u64
  nvml_free :: u64
  nvml_used :: u64

record GpuStats =
  stats_total :: size_t
  stats_free :: size_t
  stats_util :: "32 word"

text \<open>The answers of \<open>dlopen\<close>, \<open>dlsym\<close>, NVML (0 is success; the memory and the
  utilisation are what a successful call writes) and \<open>cudaMemGetInfo\<close> (free, total).\<close>

record driver =
  drv_dlopen :: bool
  drv_sym_init :: bool
  drv_sym_shutdown :: bool
  drv_sym_handle :: bool
  drv_sym_memory :: bool
  drv_sym_util :: bool
  drv_init :: int
  drv_handle :: int
  drv_device_nonnull :: bool
  drv_memory :: "int \<times> NvmlMemory"
  drv_util :: "int \<times> 32 word"
  drv_mem_info :: "(size_t \<times> size_t) option"

record GpuMonitor =
  impl_device :: bool
  nvml_available :: bool
  gpu_present :: bool
  sampling :: bool
  sampler_joinable :: bool
  util_sum :: nat
  util_count :: u64

text \<open>The constructor: NVML when every symbol resolves and initialisation and device lookup
  succeed, otherwise the CUDA runtime decides whether there is a GPU.\<close>

definition nvml_usable :: "driver \<Rightarrow> bool" where
  "nvml_usable d \<longleftrightarrow> drv_dlopen d \<and> drv_sym_init d \<and> drv_sym_shutdown d \<and> drv_sym_handle d \<and>
     drv_sym_memory d \<and> drv_sym_util d \<and> drv_init d = 0 \<and> drv_handle d = 0"

definition monitor_init :: "driver \<Rightarrow> GpuMonitor" where
  "monitor_init d =
     (let usable = nvml_usable d
      in \<lparr>impl_device = usable \<and> drv_device_nonnull d, nvml_available = usable,
          gpu_present = usable \<or> drv_mem_info d \<noteq> None, sampling = False,
          sampler_joinable = False, util_sum = 0, util_count = 0\<rparr>)"

definition no_stats :: GpuStats where
  "no_stats = \<lparr>stats_total = 0, stats_free = 0, stats_util = 0\<rparr>"

definition sample :: "driver \<Rightarrow> GpuMonitor \<Rightarrow> GpuStats" where
  "sample d mon =
     (if nvml_available mon \<and> impl_device mon then
        let st = (if fst (drv_memory d) = 0
                  then no_stats\<lparr>stats_total := nvml_total (snd (drv_memory d)),
                                stats_free := nvml_free (snd (drv_memory d))\<rparr>
                  else no_stats)
        in if fst (drv_util d) = 0 then st\<lparr>stats_util := snd (drv_util d)\<rparr> else st
      else case drv_mem_info d of
             Some (free_bytes, total_bytes) \<Rightarrow>
               no_stats\<lparr>stats_total := total_bytes, stats_free := free_bytes\<rparr>
           | None \<Rightarrow> no_stats)"

text \<open>\<open>start_sampling\<close>: \<open>sampling.exchange(true)\<close> lets one caller start the thread.
  The second component says whether a thread was started.\<close>

definition start_sampling :: "GpuMonitor \<Rightarrow> GpuMonitor \<times> bool" where
  "start_sampling mon =
     (if \<not> gpu_present mon then (mon, False)
      else if sampling mon then (mon\<lparr>sampling := True\<rparr>, False)
      else (mon\<lparr>sampling := True, sampler_joinable := True\<rparr>, True))"

text \<open>One round of the sampling thread; it ends when \<open>sampling\<close> is false.\<close>

definition sampler_tick :: "driver \<Rightarrow> GpuMonitor \<Rightarrow> GpuMonitor option" where
  "sampler_tick d mon =
     (if sampling mon
      then Some (mon\<lparr>util_sum := util_sum mon + unat (stats_util (sample d mon)),
                     util_count := util_count mon + 1\<rparr>)
      else None)"

definition stop_sampling :: "GpuMonitor \<Rightarrow> GpuMonitor" where
  "stop_sampling mon = mon\<lparr>sampling := False, sampler_joinable := False\<rparr>"

definition mean_utilization :: "GpuMonitor \<Rightarrow> rat" where
  "mean_utilization mon =
     (if util_count mon > 0 then of_nat (util_sum mon) / of_nat (unat (util_count mon)) else 0)"

fun sampler_run :: "driver list \<Rightarrow> GpuMonitor \<Rightarrow> GpuMonitor" where
  "sampler_run [] mon = mon"
| "sampler_run (d # ds) mon =
     (case sampler_tick d mon of None \<Rightarrow> mon | Some mon' \<Rightarrow> sampler_run ds mon')"

text \<open>What the constructor and the destructors call in the NVML library, in their order; the
  conditions of the constructor are evaluated from left to right.\<close>

datatype nvml_call = Dlopen | NvmlInit | NvmlHandle | NvmlShutdown | Dlclose

definition monitor_new_calls :: "driver \<Rightarrow> nvml_call list" where
  "monitor_new_calls d =
     Dlopen # (if drv_dlopen d \<and> drv_sym_init d \<and> drv_sym_shutdown d \<and> drv_sym_handle d \<and> drv_sym_memory d \<and> drv_sym_util d
       then NvmlInit # (if drv_init d = 0 then [NvmlHandle] else []) else [])"

definition Impl_delete_calls :: "driver \<Rightarrow> nvml_call list" where
  "Impl_delete_calls d =
     (if drv_dlopen d then (if drv_sym_shutdown d then [NvmlShutdown] else []) @ [Dlclose] else [])"

text \<open>\<open>~GpuMonitor\<close> stops and joins the sampler, then the \<open>Impl\<close> is destroyed.\<close>

definition monitor_delete :: "driver \<Rightarrow> GpuMonitor \<Rightarrow> GpuMonitor \<times> nvml_call list" where
  "monitor_delete d mon = (stop_sampling mon, Impl_delete_calls d)"

subsection \<open>Lemmas\<close>

lemmas monitor_defs = monitor_init_def sample_def no_stats_def start_sampling_def
  sampler_tick_def stop_sampling_def mean_utilization_def

lemma sampler_run_frame:
  "nvml_available (sampler_run ds mon) = nvml_available mon"
  "impl_device (sampler_run ds mon) = impl_device mon"
  "sampling (sampler_run ds mon) = sampling mon"
  by (induction ds arbitrary: mon) (auto simp: sampler_tick_def)

lemma sample_frame:
  "sample d (mon\<lparr>util_sum := x, util_count := y\<rparr>) = sample d mon"
  by (simp add: sample_def)

lemma sampler_run_sum:
  assumes "sampling mon" "unat (util_count mon) + length ds < 2 ^ 64"
  shows "util_sum (sampler_run ds mon) =
      util_sum mon + sum_list (map (\<lambda>d. unat (stats_util (sample d mon))) ds) \<and>
    unat (util_count (sampler_run ds mon)) = unat (util_count mon) + length ds"
  using assms
proof (induction ds arbitrary: mon)
  case (Cons d ds)
  have "unat (util_count mon + 1) = unat (util_count mon) + 1"
    using Cons.prems(2) by (simp add: unat_word_ariths)
  with Cons show ?case by (simp add: sampler_tick_def sample_frame)
qed simp

lemma monitor_init_sel [simp]:
  "gpu_present (monitor_init d) \<longleftrightarrow> nvml_usable d \<or> drv_mem_info d \<noteq> None"
  "nvml_available (monitor_init d) \<longleftrightarrow> nvml_usable d"
  "impl_device (monitor_init d) \<longleftrightarrow> nvml_usable d \<and> drv_device_nonnull d"
  "sampling (monitor_init d) = False" "util_sum (monitor_init d) = 0" "util_count (monitor_init d) = 0"
  by (simp_all add: monitor_init_def Let_def)

text \<open>A monitor that found no GPU reports no memory; one with NVML never asks the CUDA
  runtime.\<close>

lemma sample_no_gpu: "\<not> gpu_present (monitor_init d) \<Longrightarrow> sample d (monitor_init d) = no_stats"
  by (cases "drv_mem_info d") (auto simp: sample_def)

lemma sample_nvml_only:
  "impl_device (monitor_init d) \<Longrightarrow>
   sample (d\<lparr>drv_mem_info := x\<rparr>) (monitor_init d) = sample d (monitor_init d)"
  by (simp add: sample_def)

subsection \<open>Properties\<close>

text \<open>
  The library is closed exactly when it was opened, as the last call, with no sampler left that
  could call it; when NVML is in use it is initialised once before its device is looked up and
  shut down once before it is closed.
\<close>

theorem nvml_closed_once:
  assumes "monitor_delete d mon = (mon', calls)" "cs = monitor_new_calls d @ calls"
  shows "\<not> sampler_joinable mon' \<and> sampler_tick d' mon' = None \<and>
    (drv_dlopen d \<longleftrightarrow> Dlclose \<in> set cs) \<and> count_list cs Dlclose \<le> 1 \<and> (drv_dlopen d \<longrightarrow> last cs = Dlclose) \<and>
    (nvml_usable d \<longrightarrow> cs = [Dlopen, NvmlInit, NvmlHandle, NvmlShutdown, Dlclose])"
  using assms
  by (auto simp: monitor_delete_def stop_sampling_def sampler_tick_def monitor_new_calls_def
      Impl_delete_calls_def nvml_usable_def)

text \<open>
  The mean utilisation is the average of the samples taken since the monitor was made,
  and stays within 0..100 when every sample is a percentage.
\<close>

theorem mean_utilization_average:
  assumes "sampling mon" "util_sum mon = 0" "util_count mon = 0"
    and "ds \<noteq> []" "length ds < 2 ^ 64"
    and "\<forall>d \<in> set ds. unat (stats_util (sample d mon)) \<le> 100"
  shows "mean_utilization (sampler_run ds mon) =
      of_nat (sum_list (map (\<lambda>d. unat (stats_util (sample d mon))) ds)) / of_nat (length ds) \<and>
    mean_utilization (sampler_run ds mon) \<le> 100"
proof -
  let ?sum = "sum_list (map (\<lambda>d. unat (stats_util (sample d mon))) ds)"
  have "util_sum (sampler_run ds mon) = util_sum mon + ?sum \<and>
      unat (util_count (sampler_run ds mon)) = unat (util_count mon) + length ds"
    by (rule sampler_run_sum) (simp_all only: assms(1,3,5) unsigned_0 add_0)
  then have run: "util_sum (sampler_run ds mon) = ?sum"
    "unat (util_count (sampler_run ds mon)) = length ds"
    by (simp_all add: assms(2,3))
  have "0 < util_count (sampler_run ds mon)"
    using run(2) assms(4) by (simp add: word_less_nat_alt)
  then have mean: "mean_utilization (sampler_run ds mon) = of_nat ?sum / of_nat (length ds)"
    by (simp add: mean_utilization_def run)
  have "sum_list (map f xs) \<le> 100 * length xs" if "\<forall>x \<in> set xs. f x \<le> 100" for f :: "driver \<Rightarrow> nat" and xs
    using that by (induction xs) auto
  from this [OF assms(6)] have "?sum \<le> 100 * length ds" .
  then have "(of_nat ?sum :: rat) \<le> of_nat (100 * length ds)" by (simp only: of_nat_le_iff)
  with mean assms(4) show ?thesis by (simp add: divide_le_eq)
qed

definition sample_driver :: "32 word \<Rightarrow> driver" where
  "sample_driver u = \<lparr>drv_dlopen = True, drv_sym_init = True, drv_sym_shutdown = True,
     drv_sym_handle = True, drv_sym_memory = True, drv_sym_util = True, drv_init = 0,
     drv_handle = 0, drv_device_nonnull = True,
     drv_memory = (0, \<lparr>nvml_total = 1000, nvml_free = 900, nvml_used = 100\<rparr>),
     drv_util = (0, u), drv_mem_info = None\<rparr>"

theorem nvml_closed_once_witness:
  "monitor_new_calls (sample_driver 0) @ snd (monitor_delete (sample_driver 0) (monitor_init (sample_driver 0))) =
   [Dlopen, NvmlInit, NvmlHandle, NvmlShutdown, Dlclose]"
proof -
  have "nvml_usable (sample_driver 0)" by (simp add: nvml_usable_def sample_driver_def)
  with nvml_closed_once [OF surjective_pairing refl, of "sample_driver 0" "monitor_init (sample_driver 0)"]
  show ?thesis by simp
qed

theorem mean_utilization_average_witness:
  "mean_utilization (sampler_run [sample_driver 20, sample_driver 40]
     (fst (start_sampling (monitor_init (sample_driver 0))))) = 30"
  using mean_utilization_average
    [of "fst (start_sampling (monitor_init (sample_driver 0)))" "[sample_driver 20, sample_driver 40]"]
  by (simp add: monitor_defs nvml_usable_def sample_driver_def)

end
