(* ===== verification/State.thy ===== *)
theory State
  imports PriorityQueue Packing Monitor
begin

section \<open>The scheduler's state and its short operations (scheduler.hpp, scheduler.cpp)\<close>

text \<open>
  The members of \<open>BatchScheduler\<close> as a record and the operations that run under one lock:
  submission, the failure of a batch, the byte reservations and the budget.  The clock and the
  telemetry are arguments.  The last part states the contract of the reservation counter as the
  locale \<open>reservation_ledger\<close> and interprets it on \<open>reserve_bytes\<close> and
  \<open>release_bytes\<close>.
\<close>

type_synonym float32 = "32 word"

record Options =
  opt_max_batch :: i32
  safety_margin_bytes :: size_t
  num_workers :: i32
  impl :: string
  retain_results :: bool
  fixed_budget_bytes :: size_t
  util_sample_ms :: i32

definition default_options :: Options where
  "default_options = \<lparr>opt_max_batch = 8, safety_margin_bytes = 256 * 2 ^ 20, num_workers = 2,
     impl = ''tiled'', retain_results = False, fixed_budget_bytes = 0, util_sample_ms = 100\<rparr>"

text \<open>\<open>BatchScheduler::JobMetrics\<close>; the times are exact milliseconds.\<close>

record JobMetrics =
  m_job_id :: u64
  m_seq :: u64
  m_priority :: i32
  queue_wait_ms :: rat
  exec_ms :: rat
  e2e_ms :: rat
  ok :: bool

record sched =
  queue :: "InferenceJob list"
  next_seq :: u64
  batch_queue :: "InferenceJob list list"
  started :: bool
  shutdown :: bool
  gpu_absent :: bool
  submitted :: u64
  completed :: u64
  reserved :: size_t
  total_mem_bytes :: size_t
  rejected_jobs :: u64
  oom_failures :: u64
  alloc_retries :: u64
  metrics :: "JobMetrics list"
  results :: "u64 \<rightharpoonup> float32 list"

definition new_sched :: sched where
  "new_sched = \<lparr>queue = pq_empty, next_seq = 0, batch_queue = [], started = False,
     shutdown = False, gpu_absent = False, submitted = 0, completed = 0, reserved = 0,
     total_mem_bytes = 0, rejected_jobs = 0, oom_failures = 0, alloc_retries = 0,
     metrics = [], results = Map.empty\<rparr>"

definition milliseconds :: "time_point \<Rightarrow> time_point \<Rightarrow> rat" where
  "milliseconds from to = of_int (to - from) / 1000000"

subsection \<open>Submission\<close>

text \<open>The part of \<open>submit\<close> under \<open>queue_mutex_\<close> (the time stamp is taken before) and
  the counter that is incremented after the lock is released.\<close>

definition stamp :: "time_point \<Rightarrow> u64 \<Rightarrow> InferenceJob \<Rightarrow> InferenceJob" where
  "stamp now s job = job\<lparr>submit_time := now, seq := s\<rparr>"

definition submit_push :: "time_point \<Rightarrow> InferenceJob \<Rightarrow> 'a sched_scheme \<Rightarrow> 'a sched_scheme \<times> u64" where
  "submit_push now job s =
     (let job' = stamp now (next_seq s) job
      in (s\<lparr>next_seq := next_seq s + 1, queue := pq_push JobPriorityCompare (queue s) job'\<rparr>, seq job'))"

definition submit_count :: "'a sched_scheme \<Rightarrow> 'a sched_scheme" where
  "submit_count s = s\<lparr>submitted := submitted s + 1\<rparr>"

definition queued :: "'a sched_scheme \<Rightarrow> size_t" where
  "queued s = vector_size (queue s)"

definition get_result :: "'a sched_scheme \<Rightarrow> u64 \<Rightarrow> float32 list option" where
  "get_result s q = results s q"

subsection \<open>Failing a batch\<close>

definition fail_metrics :: "InferenceJob \<Rightarrow> JobMetrics" where
  "fail_metrics job = \<lparr>m_job_id = job_id job, m_seq = seq job, m_priority = priority job,
     queue_wait_ms = 0, exec_ms = 0, e2e_ms = 0, ok = False\<rparr>"

definition fail_batch :: "InferenceJob list \<Rightarrow> 'a sched_scheme \<Rightarrow> 'a sched_scheme" where
  "fail_batch batch s =
     s\<lparr>metrics := metrics s @ map fail_metrics batch,
       completed := completed s + vector_size batch\<rparr>"

subsection \<open>Budget and reservations\<close>

definition max_job_bytes :: "Options \<Rightarrow> 'a sched_scheme \<Rightarrow> size_t" where
  "max_job_bytes opts s =
     (if total_mem_bytes s = 0 then 0
      else if total_mem_bytes s > safety_margin_bytes opts
           then total_mem_bytes s - safety_margin_bytes opts else 0)"

definition reserve_bytes :: "size_t \<Rightarrow> 'a sched_scheme \<Rightarrow> 'a sched_scheme" where
  "reserve_bytes bytes s = s\<lparr>reserved := reserved s + bytes\<rparr>"

definition release_bytes :: "size_t \<Rightarrow> 'a sched_scheme \<Rightarrow> 'a sched_scheme" where
  "release_bytes bytes s =
     s\<lparr>reserved := (if bytes > reserved s then 0 else reserved s - bytes)\<rparr>"

text \<open>The first half of \<open>budget_bytes\<close>: \<open>None\<close> is the early return of 0.\<close>

definition budget_base :: "Options \<Rightarrow> GpuStats \<Rightarrow> size_t option" where
  "budget_base opts stats =
     (if fixed_budget_bytes opts > 0 then Some (fixed_budget_bytes opts)
      else if stats_free stats \<le> safety_margin_bytes opts then None
      else Some (stats_free stats - safety_margin_bytes opts))"

definition budget_bytes :: "Options \<Rightarrow> GpuStats \<Rightarrow> 'a sched_scheme \<Rightarrow> size_t" where
  "budget_bytes opts stats s =
     (case budget_base opts stats of
        None \<Rightarrow> 0
      | Some base \<Rightarrow> if base > reserved s then base - reserved s else 0)"

text \<open>\<open>std::size_t batch_bytes = 0; for (job : batch) batch_bytes += job.bytes_required();\<close>\<close>

definition batch_bytes :: "InferenceJob list \<Rightarrow> size_t" where
  "batch_bytes batch = foldl (\<lambda>acc job. acc + bytes_required job) 0 batch"

subsection \<open>The oversize check of the dispatcher\<close>

text \<open>The loop that erases the oversized candidates (lines 433-445).\<close>

fun split_oversized :: "size_t \<Rightarrow> InferenceJob list \<Rightarrow> InferenceJob list \<times> InferenceJob list" where
  "split_oversized max_job [] = ([], [])"
| "split_oversized max_job (job # jobs) =
     (if bytes_required job > max_job then apfst ((#) job) (split_oversized max_job jobs)
      else apsnd ((#) job) (split_oversized max_job jobs))"

definition reject_oversized ::
    "Options \<Rightarrow> InferenceJob list \<Rightarrow> 'a sched_scheme \<Rightarrow> InferenceJob list \<times> 'a sched_scheme" where
  "reject_oversized opts candidates s =
     (let max_job = max_job_bytes opts s;
          (oversized, rest) = (if max_job > 0 then split_oversized max_job candidates
                               else ([], candidates))
      in if oversized \<noteq> []
         then (rest, fail_batch oversized
                       (s\<lparr>rejected_jobs := rejected_jobs s + vector_size oversized\<rparr>))
         else (rest, s))"

lemmas short_op_defs [handler_defs] = submit_push_def submit_count_def fail_batch_def
  reserve_bytes_def release_bytes_def

subsection \<open>Lemmas\<close>

lemma split_oversized_filter:
  "split_oversized m js = (filter (\<lambda>j. bytes_required j > m) js, filter (\<lambda>j. \<not> bytes_required j > m) js)"
  by (induction js) auto

lemma batch_bytes_sum: "batch_bytes batch = word_sum bytes_required batch"
  by (simp add: batch_bytes_def foldl_word_sum)

lemma unat_batch_bytes: "sum_bytes batch < 2 ^ 64 \<Longrightarrow> unat (batch_bytes batch) = sum_bytes batch"
  by (simp add: batch_bytes_sum unat_word_sum)

lemma budget_base_bound:
  "unat (stats_free stats) < 2 ^ 63 \<Longrightarrow> unat (fixed_budget_bytes opts) < 2 ^ 63 \<Longrightarrow>
   budget_base opts stats = Some base \<Longrightarrow> unat base < 2 ^ 63"
  by (auto simp: budget_base_def unat_sub word_le_nat_alt word_less_nat_alt split: if_splits)

lemma unat_budget_bytes:
  "unat (budget_bytes opts stats s) =
   (case budget_base opts stats of None \<Rightarrow> 0 | Some base \<Rightarrow> unat base - unat (reserved s))"
  by (auto simp: budget_bytes_def unat_sub word_less_nat_alt word_le_nat_alt split: option.splits)

subsection \<open>The reservation counter as a ledger\<close>

text \<open>What the dispatcher and the workers rely on: a counter of outstanding bytes to which
  amounts are added and from which they are taken back, exact while the total fits.\<close>

locale reservation_ledger =
  fixes outstanding :: "'s \<Rightarrow> nat" and add :: "size_t \<Rightarrow> 's \<Rightarrow> 's" and take_back :: "size_t \<Rightarrow> 's \<Rightarrow> 's"
  assumes add_exact: "outstanding s + unat b < 2 ^ 64 \<Longrightarrow> outstanding (add b s) = outstanding s + unat b"
    and take_exact: "unat b \<le> outstanding s \<Longrightarrow> outstanding (take_back b s) = outstanding s - unat b"
begin

text \<open>Reserving a batch and then releasing it in any later state with the rest still reserved.\<close>

lemma take_after_add:
  "outstanding s + unat b < 2 ^ 64 \<Longrightarrow> outstanding (take_back b (add b s)) = outstanding s"
  by (simp add: add_exact take_exact)

text \<open>A counter that is the sum of the batches in a multiset stays so.\<close>

lemma add_batch:
  assumes "outstanding s = (\<Sum>x \<in># M. unat (f x))" "(\<Sum>x \<in># add_mset y M. unat (f x)) < 2 ^ 64"
  shows "outstanding (add (f y) s) = (\<Sum>x \<in># add_mset y M. unat (f x))"
  using assms by (simp add: add_exact add.commute)

lemma take_batch:
  assumes "outstanding s = (\<Sum>x \<in># add_mset y M. unat (f x))"
  shows "outstanding (take_back (f y) s) = (\<Sum>x \<in># M. unat (f x))"
  using assms by (simp add: take_exact)

end

interpretation ledger: reservation_ledger "\<lambda>s. unat (reserved s)" reserve_bytes release_bytes
  by unfold_locales
    (auto simp: reserve_bytes_def release_bytes_def unat_word_ariths unat_sub word_less_nat_alt
      word_le_nat_alt)

end
