(* ===== verification/Shutdown.thy ===== *)
theory Shutdown
  imports State
begin

section \<open>The condition variable of the queue (queue_cv_, scheduler.cpp)\<close>

text \<open>
  The waits of \<open>Scheduler\<close> are single steps.  This theory refines the one of the dispatcher on
  \<open>queue_cv_\<close>: it takes \<open>queue_mutex_\<close>, tests the predicate, and when it is false goes to
  sleep, which releases the mutex; a notification wakes it only if it is asleep at that moment.
  It takes the mutex a second time to put back the jobs that were not packed, and notifies nobody.
  \<open>submit\<close> changes the queue under the mutex and then notifies; \<open>stop\<close> sets
  \<open>shutdown_\<close> under another mutex (\<open>lifecycle_mutex_\<close>) and then notifies.  Wake-ups without
  a notification, which the language allows and does not promise, are left out.
\<close>

text \<open>The dispatcher: about to lock, testing the predicate under the mutex, the predicate found
  false and the mutex still held, asleep, away with the drained jobs, putting the remaining ones
  back under the mutex, at the end of a round, ended.\<close>

datatype waiter = V_lock | V_test | V_sleep | V_asleep | V_away "InferenceJob list"
  | V_requeue "InferenceJob list" | V_round | V_exit

datatype stopper = P_idle | P_flagged | P_joining | P_done

datatype mutex_owner = Nobody | Dispatcher | Submitter

record cv_state =
  cv_queue :: "InferenceJob list"
  cv_shutdown :: bool
  cv_owner :: mutex_owner
  cv_waiter :: waiter
  cv_stopper :: stopper
  cv_notifies :: nat \<comment> \<open>submitters between the release of the mutex and \<open>notify_one\<close>\<close>

definition cv_init :: cv_state where
  "cv_init = \<lparr>cv_queue = pq_empty, cv_shutdown = False, cv_owner = Nobody, cv_waiter = V_lock,
     cv_stopper = P_idle, cv_notifies = 0\<rparr>"

definition wake :: "cv_state \<Rightarrow> cv_state" where
  "wake s = (if cv_waiter s = V_asleep then s\<lparr>cv_waiter := V_lock\<rparr> else s)"

text \<open>The remaining jobs go back into the queue.\<close>

definition cv_requeue :: "InferenceJob list \<Rightarrow> cv_state \<Rightarrow> cv_state" where
  "cv_requeue remaining s =
     s\<lparr>cv_waiter := V_round, cv_queue := push_all (cv_queue s) remaining, cv_owner := Nobody\<rparr>"

text \<open>The dispatcher.  Without a GPU it puts nothing back (\<open>v_no_gpu\<close>); otherwise what the packing has
  left of the drained jobs (\<open>v_requeue\<close>).  The rest of its round does not touch the queue.\<close>

inductive cv_dispatcher_step :: "cv_state \<Rightarrow> cv_state \<Rightarrow> bool" where
  v_lock: "cv_waiter s = V_lock \<Longrightarrow> cv_owner s = Nobody \<Longrightarrow>
     cv_dispatcher_step s (s\<lparr>cv_waiter := V_test, cv_owner := Dispatcher\<rparr>)"
| v_false: "cv_waiter s = V_test \<Longrightarrow> \<not> cv_shutdown s \<Longrightarrow> cv_queue s = [] \<Longrightarrow>
     cv_dispatcher_step s (s\<lparr>cv_waiter := V_sleep\<rparr>)"
| v_sleep: "cv_waiter s = V_sleep \<Longrightarrow> cv_dispatcher_step s (s\<lparr>cv_waiter := V_asleep, cv_owner := Nobody\<rparr>)"
| v_exit: "cv_waiter s = V_test \<Longrightarrow> cv_shutdown s \<Longrightarrow>
     cv_dispatcher_step s (s\<lparr>cv_waiter := V_exit, cv_owner := Nobody\<rparr>)"
| v_drain: "cv_waiter s = V_test \<Longrightarrow> \<not> cv_shutdown s \<Longrightarrow> cv_queue s \<noteq> [] \<Longrightarrow>
     drain_queue (cv_queue s) = (candidates, q) \<Longrightarrow>
     cv_dispatcher_step s (s\<lparr>cv_waiter := V_away candidates, cv_queue := q, cv_owner := Nobody\<rparr>)"
| v_no_gpu: "cv_waiter s = V_away candidates \<Longrightarrow> cv_dispatcher_step s (s\<lparr>cv_waiter := V_round\<rparr>)"
| v_relock: "cv_waiter s = V_away candidates \<Longrightarrow> cv_owner s = Nobody \<Longrightarrow>
     cv_dispatcher_step s (s\<lparr>cv_waiter := V_requeue candidates, cv_owner := Dispatcher\<rparr>)"
| v_requeue: "cv_waiter s = V_requeue candidates \<Longrightarrow> mset remaining \<subseteq># mset candidates \<Longrightarrow>
     cv_dispatcher_step s (cv_requeue remaining s)"
| v_back: "cv_waiter s = V_round \<Longrightarrow> \<not> cv_shutdown s \<Longrightarrow> cv_dispatcher_step s (s\<lparr>cv_waiter := V_lock\<rparr>)"
| v_leave: "cv_waiter s = V_round \<Longrightarrow> cv_shutdown s \<Longrightarrow> cv_dispatcher_step s (s\<lparr>cv_waiter := V_exit\<rparr>)"

text \<open>The callers of \<open>submit\<close> and of \<open>stop\<close>.\<close>

inductive cv_caller_step :: "cv_state \<Rightarrow> cv_state \<Rightarrow> bool" where
  u_lock: "cv_owner s = Nobody \<Longrightarrow> cv_caller_step s (s\<lparr>cv_owner := Submitter\<rparr>)"
| u_push: "cv_owner s = Submitter \<Longrightarrow>
     cv_caller_step s (s\<lparr>cv_queue := pq_push JobPriorityCompare (cv_queue s) job, cv_owner := Nobody,
                  cv_notifies := Suc (cv_notifies s)\<rparr>)"
| u_notify: "cv_notifies s = Suc n \<Longrightarrow> cv_caller_step s (wake (s\<lparr>cv_notifies := n\<rparr>))"
| p_flag: "cv_stopper s = P_idle \<Longrightarrow> cv_caller_step s (s\<lparr>cv_shutdown := True, cv_stopper := P_flagged\<rparr>)"
| p_notify: "cv_stopper s = P_flagged \<Longrightarrow> cv_caller_step s (wake (s\<lparr>cv_stopper := P_joining\<rparr>))"
| p_join: "cv_stopper s = P_joining \<Longrightarrow> cv_waiter s = V_exit \<Longrightarrow> cv_caller_step s (s\<lparr>cv_stopper := P_done\<rparr>)"

inductive cv_step :: "cv_state \<Rightarrow> cv_state \<Rightarrow> bool" where
  by_dispatcher: "cv_dispatcher_step s s' \<Longrightarrow> cv_step s s'"
| by_caller: "cv_caller_step s s' \<Longrightarrow> cv_step s s'"

inductive_cases cv_dispatcher_stepE: "cv_dispatcher_step s s'"
inductive_cases cv_caller_stepE: "cv_caller_step s s'"

lemma cv_stepE:
  assumes "cv_step s s'"
  obtains "cv_dispatcher_step s s'" | "cv_caller_step s s'"
  using assms by (auto elim: cv_step.cases)

lemmas dispatcher_moves = cv_dispatcher_step.intros [THEN by_dispatcher]
lemmas caller_moves = cv_caller_step.intros [THEN by_caller]

inductive cv_reach :: "cv_state \<Rightarrow> cv_state \<Rightarrow> bool" for s0 where
  cv_refl: "cv_reach s0 s0"
| cv_next: "cv_reach s0 s \<Longrightarrow> cv_step s s' \<Longrightarrow> cv_reach s0 s'"

subsection \<open>Invariants\<close>

definition cv_inv :: "cv_state \<Rightarrow> bool" where
  "cv_inv s \<longleftrightarrow> (cv_owner s = Dispatcher \<longleftrightarrow> cv_waiter s \<in> {V_test, V_sleep} \<or> (\<exists>js. cv_waiter s = V_requeue js)) \<and>
     (cv_stopper s = P_idle \<longleftrightarrow> \<not> cv_shutdown s) \<and>
     (cv_waiter s = V_sleep \<longrightarrow> cv_queue s = []) \<and>
     (cv_waiter s = V_asleep \<and> cv_queue s \<noteq> [] \<longrightarrow> 0 < cv_notifies s)"

lemma cv_inv_step: "cv_step s s' \<Longrightarrow> cv_inv s \<Longrightarrow> cv_inv s'"
  by (erule cv_stepE; (erule cv_dispatcher_stepE | erule cv_caller_stepE)) (auto simp: cv_inv_def wake_def cv_requeue_def)

lemma cv_inv_reach: "cv_reach s0 s \<Longrightarrow> cv_inv s0 \<Longrightarrow> cv_inv s"
  by (induction rule: cv_reach.induct) (auto intro: cv_inv_step)

lemma cv_inv_init: "cv_inv cv_init"
  by (simp add: cv_inv_def cv_init_def)

text \<open>
  C29.  The notification of \<open>submit\<close> is never lost: whenever the dispatcher is asleep and a job
  is queued, some \<open>submit\<close> has still to notify, and its notification wakes the dispatcher.
\<close>

theorem submit_wakes_dispatcher:
  assumes "cv_reach cv_init s" "cv_waiter s = V_asleep" "cv_queue s \<noteq> []"
  shows "\<exists>n. cv_notifies s = Suc n \<and> cv_step s (s\<lparr>cv_notifies := n, cv_waiter := V_lock\<rparr>)"
proof -
  have "0 < cv_notifies s" using cv_inv_reach [OF assms(1) cv_inv_init] assms(2,3) by (simp add: cv_inv_def)
  then obtain n where n: "cv_notifies s = Suc n" by (cases "cv_notifies s") auto
  from caller_moves(3) [OF n] assms(2) have "cv_step s (s\<lparr>cv_notifies := n, cv_waiter := V_lock\<rparr>)"
    by (simp add: wake_def)
  with n show ?thesis by blast
qed

text \<open>Once \<open>stop\<close> has notified, a dispatcher that is not in the window between the test and the
  sleep never goes to sleep again.\<close>

definition safe_from_sleep :: "cv_state \<Rightarrow> bool" where
  "safe_from_sleep s \<longleftrightarrow> cv_shutdown s \<and> cv_stopper s \<in> {P_joining, P_done} \<and>
     cv_waiter s \<notin> {V_sleep, V_asleep} \<and> cv_inv s"

lemma safe_from_sleep_step: "cv_step s s' \<Longrightarrow> safe_from_sleep s \<Longrightarrow> safe_from_sleep s'"
  by (frule cv_inv_step) (auto simp: safe_from_sleep_def, (erule cv_stepE; (erule cv_dispatcher_stepE | erule cv_caller_stepE); auto simp: wake_def cv_requeue_def)+)

lemma safe_from_sleep_reach: "cv_reach s0 s \<Longrightarrow> safe_from_sleep s0 \<Longrightarrow> safe_from_sleep s"
  by (induction rule: cv_reach.induct) (auto intro: safe_from_sleep_step)

text \<open>
  If the notification of \<open>stop\<close> does not fall into the window in which the dispatcher has
  found the predicate false and is not asleep yet, the dispatcher never sleeps again: in every
  later state it has ended, or it can take its next step, or a submitter holds the mutex.
\<close>

theorem stop_notification_reaches_dispatcher:
  assumes "cv_reach cv_init s" "cv_stopper s = P_flagged" "cv_waiter s \<noteq> V_sleep"
    and "cv_reach (wake (s\<lparr>cv_stopper := P_joining\<rparr>)) t"
  shows "cv_waiter t \<noteq> V_asleep \<and>
    (cv_waiter t = V_exit \<or> cv_owner t = Submitter \<or> (\<exists>t'. cv_step t t' \<and> cv_waiter t' \<noteq> cv_waiter t))"
proof -
  have inv: "cv_inv s" by (rule cv_inv_reach [OF assms(1) cv_inv_init])
  then have "safe_from_sleep (wake (s\<lparr>cv_stopper := P_joining\<rparr>))"
    using assms(2,3) by (auto simp: safe_from_sleep_def cv_inv_def wake_def)
  from safe_from_sleep_reach [OF assms(4) this] have t: "safe_from_sleep t" .
  then have sd: "cv_shutdown t" and inv: "cv_inv t" by (simp_all add: safe_from_sleep_def)
  have moves: ?thesis if "cv_step t t'" "cv_waiter t' \<noteq> cv_waiter t" for t'
    using that t by (auto simp: safe_from_sleep_def)
  show ?thesis
  proof (cases "cv_waiter t")
    case V_lock
    then have "cv_owner t \<noteq> Dispatcher" using inv by (simp add: cv_inv_def)
    then consider "cv_owner t = Nobody" | "cv_owner t = Submitter" by (cases "cv_owner t") auto
    then show ?thesis
    proof cases
      case 1
      show ?thesis by (rule moves [OF dispatcher_moves(1) [OF V_lock 1]]) (simp add: V_lock)
    qed (use V_lock in simp)
  next
    case V_test
    show ?thesis by (rule moves [OF dispatcher_moves(4) [OF V_test sd]]) (simp add: V_test)
  next
    case (V_away js)
    then have "cv_owner t \<noteq> Dispatcher" using inv by (simp add: cv_inv_def)
    then consider "cv_owner t = Nobody" | "cv_owner t = Submitter" by (cases "cv_owner t") auto
    then show ?thesis
    proof cases
      case 1
      show ?thesis by (rule moves [OF dispatcher_moves(7) [OF V_away 1]]) (simp add: V_away)
    qed (use V_away in simp)
  next
    case (V_requeue js)
    show ?thesis by (rule moves [OF dispatcher_moves(8) [OF V_requeue, of js]]) (simp_all add: V_requeue cv_requeue_def)
  next
    case V_round
    show ?thesis by (rule moves [OF dispatcher_moves(10) [OF V_round sd]]) (simp add: V_round)
  qed (use t in \<open>simp_all add: safe_from_sleep_def\<close>)
qed

text \<open>The schedule that loses it: the dispatcher finds the predicate false, \<open>stop\<close> sets the flag
  and notifies, and only then the dispatcher goes to sleep.\<close>

definition lost :: cv_state where
  "lost = \<lparr>cv_queue = pq_empty, cv_shutdown = True, cv_owner = Nobody, cv_waiter = V_asleep,
     cv_stopper = P_joining, cv_notifies = 0\<rparr>"

lemma lost_reachable: "cv_reach cv_init lost"
proof -
  let ?s = "\<lambda>sd ow wt st. \<lparr>cv_queue = pq_empty, cv_shutdown = sd, cv_owner = ow, cv_waiter = wt,
     cv_stopper = st, cv_notifies = 0\<rparr> :: cv_state"
  have 1: "cv_step cv_init (?s False Dispatcher V_test P_idle)"
    using dispatcher_moves(1) [of cv_init] by (simp add: cv_init_def)
  have 2: "cv_step (?s False Dispatcher V_test P_idle) (?s False Dispatcher V_sleep P_idle)"
    using dispatcher_moves(2) [of "?s False Dispatcher V_test P_idle"] by (simp add: pq_empty_def)
  have 3: "cv_step (?s False Dispatcher V_sleep P_idle) (?s True Dispatcher V_sleep P_flagged)"
    using caller_moves(4) [of "?s False Dispatcher V_sleep P_idle"] by simp
  have 4: "cv_step (?s True Dispatcher V_sleep P_flagged) (?s True Dispatcher V_sleep P_joining)"
    using caller_moves(5) [of "?s True Dispatcher V_sleep P_flagged"] by (simp add: wake_def)
  have 5: "cv_step (?s True Dispatcher V_sleep P_joining) lost"
    using dispatcher_moves(3) [of "?s True Dispatcher V_sleep P_joining"] by (simp add: lost_def)
  show ?thesis by (rule cv_next [OF cv_next [OF cv_next [OF cv_next [OF cv_next [OF cv_refl 1] 2] 3] 4] 5])
qed

text \<open>
  \<open>stop\<close> can hang.  \<open>shutdown_\<close> is set without \<open>queue_mutex_\<close>, so its notification
  can fall into that window: a state is reachable in which \<open>stop\<close> joins a dispatcher that is
  asleep, the flag is set, no notification is outstanding, and the only step left in the whole
  system is that somebody submits another job.
\<close>

theorem stop_can_hang:
  "\<exists>s. cv_reach cv_init s \<and> cv_stopper s = P_joining \<and> cv_shutdown s \<and> cv_waiter s = V_asleep \<and>
     cv_queue s = [] \<and> (\<forall>s'. cv_step s s' \<longrightarrow> s' = s\<lparr>cv_owner := Submitter\<rparr>)"
proof (intro exI conjI allI impI)
  show "cv_reach cv_init lost" by (rule lost_reachable)
  show "cv_step lost s' \<Longrightarrow> s' = lost\<lparr>cv_owner := Submitter\<rparr>" for s'
    by (erule cv_stepE; (erule cv_dispatcher_stepE | erule cv_caller_stepE)) (simp_all add: lost_def)
qed (simp_all add: lost_def pq_empty_def)

definition asleep_with_job :: cv_state where
  "asleep_with_job = \<lparr>cv_queue = [default_job], cv_shutdown = False, cv_owner = Nobody,
     cv_waiter = V_asleep, cv_stopper = P_idle, cv_notifies = 1\<rparr>"

theorem submit_wakes_dispatcher_witness: "\<exists>n. cv_notifies asleep_with_job = Suc n"
proof -
  let ?s = "\<lambda>q ow wt n. \<lparr>cv_queue = q, cv_shutdown = False, cv_owner = ow, cv_waiter = wt,
     cv_stopper = P_idle, cv_notifies = n\<rparr> :: cv_state"
  have 1: "cv_step cv_init (?s [] Dispatcher V_test 0)"
    using dispatcher_moves(1) [of cv_init] by (simp add: cv_init_def pq_empty_def)
  have 2: "cv_step (?s [] Dispatcher V_test 0) (?s [] Dispatcher V_sleep 0)"
    using dispatcher_moves(2) [of "?s [] Dispatcher V_test 0"] by simp
  have 3: "cv_step (?s [] Dispatcher V_sleep 0) (?s [] Nobody V_asleep 0)"
    using dispatcher_moves(3) [of "?s [] Dispatcher V_sleep 0"] by simp
  have 4: "cv_step (?s [] Nobody V_asleep 0) (?s [] Submitter V_asleep 0)"
    using caller_moves(1) [of "?s [] Nobody V_asleep 0"] by simp
  have 5: "cv_step (?s [] Submitter V_asleep 0) asleep_with_job"
    using caller_moves(2) [of "?s [] Submitter V_asleep 0" default_job] by (simp add: asleep_with_job_def pq_push_def)
  have "cv_reach cv_init asleep_with_job"
    by (rule cv_next [OF cv_next [OF cv_next [OF cv_next [OF cv_next [OF cv_refl 1] 2] 3] 4] 5])
  from submit_wakes_dispatcher [OF this] show ?thesis by (auto simp: asleep_with_job_def)
qed

theorem stop_notification_reaches_dispatcher_witness:
  "cv_waiter (wake (cv_init\<lparr>cv_shutdown := True, cv_stopper := P_joining\<rparr>)) \<noteq> V_asleep"
proof -
  let ?s = "cv_init\<lparr>cv_shutdown := True, cv_stopper := P_flagged\<rparr>"
  have "cv_step cv_init ?s" by (rule caller_moves(4)) (simp add: cv_init_def)
  from stop_notification_reaches_dispatcher [OF cv_next [OF cv_refl this] _ _ cv_refl]
  show ?thesis by (simp add: cv_init_def)
qed

end
