(* ===== verification/Buffers.thy ===== *)
theory Buffers
  imports Prelude
begin

section \<open>Owning buffers (core/device_buffer.hpp, PinnedHostBuffer in scheduler.cpp)\<close>

text \<open>
  \<open>DeviceBuffer<float>\<close> and \<open>PinnedHostBuffer<float>\<close> own an allocation of the CUDA
  runtime.  The \<open>heap\<close> is what the calls made so far have left allocated, with a flag for a
  free of something that was not allocated.  What an allocation call answers is not code of the
  repository: it is the function \<open>alloc\<close>, an argument, of which \<open>alloc_ok\<close> states what
  \<open>cudaMalloc\<close> and \<open>cudaHostAlloc\<close> document (a successful call returns a non-null pointer
  that is not in use).  A program over an array of buffers is a list of \<open>buf_op\<close>s; the
  invariant \<open>heap_inv\<close> says that the buffers own what is allocated, once each.
\<close>

datatype cuda_error = cudaSuccess | cudaErrorMemoryAllocation | cudaErrorOther nat

type_synonym ptr = nat

record heap =
  live :: "ptr list"
  bad_free :: bool
  alloc_calls :: nat

type_synonym alloc = "heap \<Rightarrow> size_t \<Rightarrow> cuda_error + ptr"

record buffer =
  data_ptr :: ptr
  count :: size_t

text \<open>The default constructor.\<close>

definition empty_buffer :: buffer where
  "empty_buffer = \<lparr>data_ptr = 0, count = 0\<rparr>"

definition alloc_ok :: "alloc \<Rightarrow> bool" where
  "alloc_ok alloc \<longleftrightarrow>
     (\<forall>h n. (\<forall>p. alloc h n = Inr p \<longrightarrow> p \<noteq> 0 \<and> p \<notin> set (live h)) \<and> alloc h n \<noteq> Inl cudaSuccess)"

definition cuda_malloc :: "alloc \<Rightarrow> size_t \<Rightarrow> heap \<Rightarrow> (cuda_error + ptr) \<times> heap" where
  "cuda_malloc alloc bytes h =
     (case alloc h bytes of
        Inl e \<Rightarrow> (Inl e, h\<lparr>alloc_calls := Suc (alloc_calls h)\<rparr>)
      | Inr p \<Rightarrow> (Inr p, h\<lparr>live := p # live h, alloc_calls := Suc (alloc_calls h)\<rparr>))"

definition cuda_free :: "ptr \<Rightarrow> heap \<Rightarrow> heap" where
  "cuda_free p h = (if p \<in> set (live h) then h\<lparr>live := remove1 p (live h)\<rparr> else h\<lparr>bad_free := True\<rparr>)"

subsection \<open>The member functions\<close>

definition release :: "buffer \<Rightarrow> heap \<Rightarrow> buffer \<times> heap" where
  "release b h =
     (if data_ptr b \<noteq> 0 then (empty_buffer, cuda_free (data_ptr b) h) else (b\<lparr>count := 0\<rparr>, h))"

text \<open>\<open>try_allocate\<close> returns the status; the elements are \<open>float\<close>s of four bytes.\<close>

definition try_allocate :: "alloc \<Rightarrow> size_t \<Rightarrow> buffer \<Rightarrow> heap \<Rightarrow> cuda_error \<times> buffer \<times> heap" where
  "try_allocate alloc n b h =
     (let (b1, h1) = release b h
      in if n = 0 then (cudaSuccess, b1, h1)
         else case cuda_malloc alloc (n * 4) h1 of
                (Inl err, h2) \<Rightarrow> (err, empty_buffer, h2)
              | (Inr p, h2) \<Rightarrow> (cudaSuccess, \<lparr>data_ptr = p, count = n\<rparr>, h2))"

text \<open>\<open>allocate\<close> is \<open>CUDA_CHECK(try_allocate(n))\<close>: \<open>Inl\<close> is the exception.\<close>

definition allocate :: "alloc \<Rightarrow> size_t \<Rightarrow> buffer \<Rightarrow> heap \<Rightarrow> (cuda_error + unit) \<times> buffer \<times> heap" where
  "allocate alloc n b h =
     (case try_allocate alloc n b h of (err, b', h') \<Rightarrow>
        (if err = cudaSuccess then Inr () else Inl err, b', h'))"

text \<open>Move construction from \<open>other\<close>, and move assignment \<open>self = std::move(other)\<close> for two
  different objects; the assignment of an object to itself does nothing.\<close>

definition move_construct :: "buffer \<Rightarrow> buffer \<times> buffer" where
  "move_construct other = (\<lparr>data_ptr = data_ptr other, count = count other\<rparr>, empty_buffer)"

definition move_assign :: "buffer \<Rightarrow> buffer \<Rightarrow> heap \<Rightarrow> (buffer \<times> buffer) \<times> heap" where
  "move_assign self other h =
     (let (_, h1) = release self h
      in ((\<lparr>data_ptr = data_ptr other, count = count other\<rparr>, empty_buffer), h1))"

definition size_bytes :: "buffer \<Rightarrow> size_t" where
  "size_bytes b = count b * 4"

text \<open>The accessors.\<close>

definition buffer_data :: "buffer \<Rightarrow> ptr" where
  "buffer_data b = data_ptr b"

definition buffer_size :: "buffer \<Rightarrow> size_t" where
  "buffer_size b = count b"

definition buffer_bool :: "buffer \<Rightarrow> bool" where
  "buffer_bool b \<longleftrightarrow> data_ptr b \<noteq> 0"

subsection \<open>Programs over an array of buffers\<close>

datatype buf_op = TryAlloc nat size_t | Release nat | MoveAssign nat nat

definition run_op :: "alloc \<Rightarrow> buf_op \<Rightarrow> buffer list \<times> heap \<Rightarrow> buffer list \<times> heap" where
  "run_op alloc op st =
     (case st of (bs, h) \<Rightarrow>
       (case op of
          TryAlloc i n \<Rightarrow>
            (if i < length bs
             then (case try_allocate alloc n (bs ! i) h of (_, b, h') \<Rightarrow> (bs[i := b], h')) else st)
        | Release i \<Rightarrow>
            (if i < length bs then (case release (bs ! i) h of (b, h') \<Rightarrow> (bs[i := b], h')) else st)
        | MoveAssign i j \<Rightarrow>
            (if i < length bs \<and> j < length bs \<and> i \<noteq> j
             then (case move_assign (bs ! i) (bs ! j) h of ((b, c), h') \<Rightarrow> (bs[i := b, j := c], h'))
             else st)))"

text \<open>The destructors run on every buffer of the array.\<close>

fun destroy_all :: "buffer list \<Rightarrow> heap \<Rightarrow> heap" where
  "destroy_all [] h = h"
| "destroy_all (b # bs) h = destroy_all bs (snd (release b h))"

subsection \<open>The ownership invariant\<close>

definition owned :: "buffer list \<Rightarrow> ptr list" where
  "owned bs = filter (\<lambda>p. p \<noteq> 0) (map data_ptr bs)"

definition buffer_wf :: "buffer \<Rightarrow> bool" where
  "buffer_wf b \<longleftrightarrow> (data_ptr b = 0 \<longleftrightarrow> count b = 0)"

definition heap_inv :: "ptr multiset \<Rightarrow> buffer list \<Rightarrow> heap \<Rightarrow> bool" where
  "heap_inv F bs h \<longleftrightarrow>
     mset (live h) = mset (owned bs) + F \<and> distinct (live h) \<and> \<not> bad_free h \<and> (\<forall>b \<in> set bs. buffer_wf b)"

lemma owned_simps [simp]:
  "owned [] = []"
  "owned (b # bs) = (if data_ptr b = 0 then owned bs else data_ptr b # owned bs)"
  "owned (bs @ cs) = owned bs @ owned cs"
  by (simp_all add: owned_def)

lemma mset_owned_update:
  "i < length bs \<Longrightarrow> mset (owned (bs[i := b])) + mset (owned [bs ! i]) = mset (owned bs) + mset (owned [b])"
proof (induction bs arbitrary: i)
  case (Cons c cs)
  then show ?case by (cases i) (auto simp: add_ac split: if_splits)
qed simp

lemma release_data: "data_ptr (fst (release b h)) = 0"
  by (simp add: release_def empty_buffer_def)

lemma release_wf: "buffer_wf (fst (release b h))"
  by (simp add: release_def empty_buffer_def buffer_wf_def)

text \<open>One buffer, with everything else that is allocated as the frame.\<close>

lemma release_inv: "heap_inv F [b] h \<Longrightarrow> heap_inv F [fst (release b h)] (snd (release b h))"
  by (auto simp: heap_inv_def release_def cuda_free_def empty_buffer_def buffer_wf_def
      simp flip: set_mset_mset)

lemma release_empty: "heap_inv F [b] h \<Longrightarrow> heap_inv F [] (snd (release b h))"
  by (drule release_inv) (simp add: heap_inv_def release_data)

lemma try_allocate_inv:
  assumes "alloc_ok alloc" "heap_inv F [b] h" "try_allocate alloc n b h = (err, b', h')"
  shows "heap_inv F [b'] h'" and "err = cudaSuccess \<longleftrightarrow> count b' = n \<and> (n = 0 \<longleftrightarrow> data_ptr b' = 0)"
    and "err \<noteq> cudaSuccess \<Longrightarrow> b' = empty_buffer"
proof -
  obtain b1 h1 where r: "release b h = (b1, h1)" by fastforce
  have inv1: "heap_inv F [b1] h1" "data_ptr b1 = 0" "count b1 = 0"
    using release_inv [OF assms(2)] release_data [of b h] release_wf [of b h] r
    by (simp_all add: buffer_wf_def)
  have res: "heap_inv F [b'] h' \<and> (err = cudaSuccess \<longleftrightarrow> count b' = n \<and> (n = 0 \<longleftrightarrow> data_ptr b' = 0)) \<and>
     (err \<noteq> cudaSuccess \<longrightarrow> b' = empty_buffer)"
  proof (cases "n = 0")
    case True
    with assms(3) inv1 r show ?thesis by (auto simp: try_allocate_def)
  next
    case False
    show ?thesis
    proof (cases "alloc h1 (n * 4)")
      case (Inl e)
      with assms(1) have "e \<noteq> cudaSuccess" by (auto simp: alloc_ok_def)
      with assms(3) inv1 r False Inl show ?thesis
        by (auto simp: try_allocate_def cuda_malloc_def heap_inv_def empty_buffer_def buffer_wf_def)
    next
      case (Inr p)
      with assms(1) have "p \<noteq> 0" "p \<notin> set (live h1)" by (auto simp: alloc_ok_def)
      with assms(3) inv1 r False Inr show ?thesis
        by (auto simp: try_allocate_def cuda_malloc_def heap_inv_def empty_buffer_def buffer_wf_def)
    qed
  qed
  show "heap_inv F [b'] h'" by (rule res [THEN conjunct1])
  show "err = cudaSuccess \<longleftrightarrow> count b' = n \<and> (n = 0 \<longleftrightarrow> data_ptr b' = 0)"
    by (rule res [THEN conjunct2, THEN conjunct1])
  show "err \<noteq> cudaSuccess \<Longrightarrow> b' = empty_buffer"
    by (rule res [THEN conjunct2, THEN conjunct2, THEN mp])
qed

text \<open>A buffer made with a count holds memory exactly when elements were asked for; the number of bytes
  asked for is the one that \<open>bytes()\<close> reports, and it is enough for the elements unless the product
  with the element size wraps.\<close>

lemma allocate_fresh:
  assumes "alloc_ok alloc" "heap_inv F [] h" "allocate alloc n empty_buffer h = (Inr (), b, h')"
  shows "buffer_size b = n" "buffer_bool b \<longleftrightarrow> n \<noteq> 0" "heap_inv F [b] h'" "size_bytes b = n * 4"
    "unat (size_bytes b) = 4 * unat (buffer_size b) \<longleftrightarrow> unat n < 2 ^ 62"
proof -
  have e: "heap_inv F [empty_buffer] h" using assms(2) by (simp add: heap_inv_def empty_buffer_def buffer_wf_def)
  from assms(3) have t: "try_allocate alloc n empty_buffer h = (cudaSuccess, b, h')"
    by (auto simp: allocate_def split: prod.splits if_splits)
  note inv = try_allocate_inv [OF assms(1) e t]
  show "buffer_size b = n" "buffer_bool b \<longleftrightarrow> n \<noteq> 0" "heap_inv F [b] h'" "size_bytes b = n * 4"
    using inv by (auto simp: buffer_size_def buffer_bool_def size_bytes_def)
  have "unat (n * 4) = (4 * unat n) mod 2 ^ 64" by (simp add: unat_word_ariths mult.commute)
  moreover have "(4 * unat n) mod 2 ^ 64 = 4 * unat n \<longleftrightarrow> 4 * unat n < 2 ^ 64"
    by (metis mod_less mod_less_divisor zero_less_numeral zero_less_power)
  ultimately show "unat (size_bytes b) = 4 * unat (buffer_size b) \<longleftrightarrow> unat n < 2 ^ 62"
    using \<open>size_bytes b = n * 4\<close> \<open>buffer_size b = n\<close> by simp
qed

text \<open>An array is one of its buffers in the frame of the others.\<close>

lemma heap_inv_focus:
  assumes "i < length bs" "heap_inv F bs h"
  shows "heap_inv (F + mset (owned (bs[i := empty_buffer]))) [bs ! i] h"
proof -
  have "mset (owned (bs[i := empty_buffer])) + mset (owned [bs ! i]) = mset (owned bs)"
    using mset_owned_update [OF assms(1), of empty_buffer] by (simp add: empty_buffer_def)
  with assms show ?thesis by (simp add: heap_inv_def add_ac)
qed

lemma heap_inv_unfocus:
  assumes "i < length bs" "\<forall>c \<in> set bs. buffer_wf c"
    and "heap_inv (F + mset (owned (bs[i := empty_buffer]))) [b] h"
  shows "heap_inv F (bs[i := b]) h"
proof -
  have "mset (owned ((bs[i := empty_buffer])[i := b])) + mset (owned [(bs[i := empty_buffer]) ! i])
      = mset (owned (bs[i := empty_buffer])) + mset (owned [b])"
    by (rule mset_owned_update) (simp add: assms(1))
  then have "mset (owned (bs[i := b])) = mset (owned (bs[i := empty_buffer])) + mset (owned [b])"
    using assms(1) by (simp add: empty_buffer_def)
  moreover have "\<forall>c \<in> set (bs[i := b]). buffer_wf c"
    using assms(2,3) set_update_subset_insert [of bs i b] by (auto simp: heap_inv_def)
  ultimately show ?thesis using assms(3) by (simp add: heap_inv_def add_ac)
qed

lemma heap_inv_wf: "heap_inv F bs h \<Longrightarrow> \<forall>c \<in> set bs. buffer_wf c"
  by (simp add: heap_inv_def)

lemma release_array_inv:
  assumes "i < length bs" "heap_inv F bs h"
  shows "heap_inv F (bs[i := fst (release (bs ! i) h)]) (snd (release (bs ! i) h))"
  by (rule heap_inv_unfocus [OF assms(1) heap_inv_wf [OF assms(2)] release_inv [OF heap_inv_focus [OF assms]]])

text \<open>Moving the contents of \<open>j\<close> to the empty place \<open>i\<close>.\<close>

lemma owned_swap:
  assumes "i < length bs" "j < length bs" "i \<noteq> j" "data_ptr (bs ! i) = 0"
  shows "mset (owned (bs[i := bs ! j, j := empty_buffer])) = mset (owned bs)"
proof -
  have "mset (owned (bs[i := bs ! j])) = mset (owned bs) + mset (owned [bs ! j])"
    using mset_owned_update [OF assms(1), of "bs ! j"] assms(4) by simp
  moreover have "mset (owned ((bs[i := bs ! j])[j := empty_buffer])) + mset (owned [bs ! j]) =
      mset (owned (bs[i := bs ! j]))"
    using mset_owned_update [of j "bs[i := bs ! j]" empty_buffer] assms by (simp add: empty_buffer_def)
  ultimately show ?thesis by simp
qed

lemma move_assign_inv:
  assumes "i < length bs" "j < length bs" "i \<noteq> j" "heap_inv F bs h"
    and "move_assign (bs ! i) (bs ! j) h = ((b, c), h')"
  shows "heap_inv F (bs[i := b, j := c]) h'"
proof -
  let ?bs = "bs[i := fst (release (bs ! i) h)]"
  have bc: "b = bs ! j" "c = empty_buffer" "h' = snd (release (bs ! i) h)"
    using assms(5) by (auto simp: move_assign_def split: prod.splits)
  have inv: "heap_inv F ?bs h'" using release_array_inv [OF assms(1,4)] bc(3) by simp
  have "?bs ! j = bs ! j" "data_ptr (?bs ! i) = 0"
    using assms(1-3) by (simp_all add: release_data)
  then have "mset (owned (bs[i := b, j := c])) = mset (owned ?bs)"
    using owned_swap [of i ?bs j] assms(1-3) bc by simp
  moreover have "\<forall>d \<in> set (bs[i := b, j := c]). buffer_wf d"
    using heap_inv_wf [OF assms(4)] assms(2) bc
    by (auto dest!: subsetD [OF set_update_subset_insert] simp: empty_buffer_def buffer_wf_def)
  ultimately show ?thesis using inv by (simp add: heap_inv_def)
qed

lemma run_op_inv:
  assumes "alloc_ok alloc" "heap_inv F bs h" "run_op alloc op (bs, h) = (bs', h')"
  shows "heap_inv F bs' h' \<and> length bs' = length bs"
proof (cases op)
  case (TryAlloc i n)
  show ?thesis
  proof (cases "i < length bs")
    case True
    obtain e b g where t: "try_allocate alloc n (bs ! i) h = (e, b, g)" by (metis prod_cases3)
    have "heap_inv F (bs[i := b]) g"
      by (rule heap_inv_unfocus [OF True heap_inv_wf [OF assms(2)]
            try_allocate_inv(1) [OF assms(1) heap_inv_focus [OF True assms(2)] t]])
    with assms(3) TryAlloc True t show ?thesis by (auto simp: run_op_def)
  qed (use assms TryAlloc in \<open>simp add: run_op_def\<close>)
next
  case (Release i)
  with assms release_array_inv [of i bs F h] show ?thesis
    by (auto simp: run_op_def split: if_splits prod.splits)
next
  case (MoveAssign i j)
  with assms show ?thesis
    by (auto simp: run_op_def intro: move_assign_inv split: if_splits prod.splits)
qed

lemma destroy_all_inv: "heap_inv F bs h \<Longrightarrow> heap_inv F [] (destroy_all bs h)"
proof (induction bs arbitrary: h)
  case (Cons b bs)
  have "heap_inv (F + mset (owned bs)) [b] h"
    using Cons.prems by (simp add: heap_inv_def add_ac split: if_splits)
  from release_empty [OF this] have "heap_inv F bs (snd (release b h))"
    using Cons.prems by (simp add: heap_inv_def add_ac)
  with Cons.IH show ?case by simp
qed simp

text \<open>
  C27.  No leak and no double free: whatever sequence of allocations (successful or failing),
  releases and move assignments runs over an array of buffers, and then their destructors,
  every allocation made is freed exactly once: what is allocated afterwards is what was
  allocated before, and nothing was freed that was not allocated.
\<close>

theorem buffers_free_once:
  assumes "alloc_ok alloc" "distinct (live h)" "\<not> bad_free h"
    and "foldl (\<lambda>st op. run_op alloc op st) (replicate n empty_buffer, h) ops = (bs, h')"
  shows "mset (live (destroy_all bs h')) = mset (live h) \<and> \<not> bad_free (destroy_all bs h')"
proof -
  have "heap_inv F bs' h' \<Longrightarrow> foldl (\<lambda>st op. run_op alloc op st) (bs', h') ops = (bs'', h'') \<Longrightarrow>
      heap_inv F bs'' h''" for F bs' h' bs'' h''
  proof (induction ops arbitrary: bs' h')
    case (Cons op ops)
    obtain b g where r: "run_op alloc op (bs', h') = (b, g)" by fastforce
    with run_op_inv [OF assms(1) Cons.prems(1) r] Cons.IH [of b g] Cons.prems(2) show ?case by simp
  qed simp
  moreover have "heap_inv (mset (live h)) (replicate n empty_buffer) h"
    using assms(2,3)
    by (auto simp: heap_inv_def empty_buffer_def buffer_wf_def owned_def filter_empty_conv)
  ultimately have "heap_inv (mset (live h)) bs h'" using assms(4) by blast
  from destroy_all_inv [OF this] show ?thesis by (simp add: heap_inv_def)
qed

text \<open>An allocator for the witnesses: the next unused number, no more than \<open>room\<close> at a time.\<close>

definition bump_alloc :: "nat \<Rightarrow> alloc" where
  "bump_alloc room h n =
     (if length (live h) < room then Inr (Suc (sum_list (live h))) else Inl cudaErrorMemoryAllocation)"

lemma bump_alloc_ok: "alloc_ok (bump_alloc room)"
proof -
  have "p < Suc (sum_list xs)" if "p \<in> set xs" for p and xs :: "nat list"
    using member_le_sum_list [OF that] by simp
  then show ?thesis by (fastforce simp: alloc_ok_def bump_alloc_def split: if_splits)
qed

theorem buffers_free_once_witness:
  "let h = \<lparr>live = [], bad_free = False, alloc_calls = 0\<rparr>;
       (bs, h') = foldl (\<lambda>st op. run_op (bump_alloc 2) op st) (replicate 3 empty_buffer, h)
          [TryAlloc 0 5, TryAlloc 1 6, TryAlloc 2 7, MoveAssign 2 0, Release 1, TryAlloc 0 8]
   in live h' \<noteq> [] \<and> live (destroy_all bs h') = [] \<and> \<not> bad_free (destroy_all bs h')"
  using buffers_free_once [OF bump_alloc_ok [of 2],
      of "\<lparr>live = [], bad_free = False, alloc_calls = 0\<rparr>" 3
        "[TryAlloc 0 5, TryAlloc 1 6, TryAlloc 2 7, MoveAssign 2 0, Release 1, TryAlloc 0 8]"]
  by (simp add: run_op_def try_allocate_def cuda_malloc_def bump_alloc_def release_def cuda_free_def
      move_assign_def empty_buffer_def Let_def numeral_3_eq_3)

end
