(* ===== verification/Pipeline.thy ===== *)
theory Pipeline
  imports Prelude
begin

section \<open>The stream pipeline of a batch (execute_batch, bench_overlap)\<close>

text \<open>
  The host issues commands to CUDA streams in one order; the device may run them in any order
  that the streams, the events and the host allow.  \<open>hb L p q\<close> says that the command at
  position \<open>p\<close> of the issue order \<open>L\<close> completes before the one at \<open>q\<close> starts, and a
  schedule is any order of the positions that respects it.  The lists below are the issue orders
  of \<open>BatchScheduler::execute_batch\<close> and of the configurations of \<open>bench_overlap.cpp\<close>.
\<close>

datatype stream = DefaultStream | H2DStream | ComputeStream | D2HStream | CopyStream

text \<open>The work items of job \<open>i\<close> of the batch.\<close>

datatype op = CopyA nat | CopyB nat | Kernel nat | CopyC nat

text \<open>The pooled events of a worker, and the events of the benchmark (timing pairs per job
  and the two events that its copy/compute configuration records again for every job).\<close>

datatype event = h2d_done nat | kern_done nat | done_ev nat
  | ev_c0 nat | ev_c1 nat | ev_k0 nat | ev_k1 nat | ev_d0 nat | ev_d1 nat
  | ev_start | ev_end | ev_h2d | ev_kern

datatype cmd = Enqueue stream op | Record event stream | Wait stream event
  | Fill nat \<comment> \<open>the host writes the inputs of a job to its pinned buffers\<close>
  | Sync event \<comment> \<open>the host waits for an event\<close>

fun stream_of :: "cmd \<Rightarrow> stream option" where
  "stream_of (Enqueue s _) = Some s"
| "stream_of (Record _ s) = Some s"
| "stream_of (Wait s _) = Some s"
| "stream_of (Fill _) = None"
| "stream_of (Sync _) = None"

fun awaits :: "cmd \<Rightarrow> event option" where
  "awaits (Wait _ e) = Some e"
| "awaits (Sync e) = Some e"
| "awaits _ = None"

fun records :: "cmd \<Rightarrow> event option" where
  "records (Record e _) = Some e"
| "records _ = None"

inductive hb :: "cmd list \<Rightarrow> nat \<Rightarrow> nat \<Rightarrow> bool" for L where
  hb_stream: "p < q \<Longrightarrow> q < length L \<Longrightarrow> stream_of (L ! p) = Some s \<Longrightarrow> stream_of (L ! q) = Some s \<Longrightarrow> hb L p q"
| hb_event: "p < q \<Longrightarrow> q < length L \<Longrightarrow> records (L ! p) = Some e \<Longrightarrow> awaits (L ! q) = Some e \<Longrightarrow>
     (\<forall>r. p < r \<and> r < q \<longrightarrow> records (L ! r) \<noteq> Some e) \<Longrightarrow> hb L p q"
| hb_host: "p < q \<Longrightarrow> q < length L \<Longrightarrow> stream_of (L ! p) = None \<Longrightarrow> hb L p q"
| hb_trans: "hb L p q \<Longrightarrow> hb L q r \<Longrightarrow> hb L p r"

lemma hb_less: "hb L p q \<Longrightarrow> p < q \<and> q < length L"
  by (induction rule: hb.induct) auto

definition schedule :: "cmd list \<Rightarrow> nat list \<Rightarrow> bool" where
  "schedule L \<sigma> \<longleftrightarrow> mset \<sigma> = mset [0..<length L] \<and>
     (\<forall>us q vs. \<sigma> = us @ q # vs \<longrightarrow> (\<forall>p. hb L p q \<longrightarrow> p \<in> set us))"

text \<open>The issue order itself is one of the schedules.\<close>

lemma schedule_issue_order: "schedule L [0..<length L]"
  unfolding schedule_def
proof (intro conjI allI impI)
  fix us q vs p
  assume eq: "[0..<length L] = us @ q # vs" and "hb L p q"
  have "length us < length L" using arg_cong [OF eq, of length] by simp
  moreover from this have "us = [0..<length us]"
    using arg_cong [OF eq, of "take (length us)"] by (simp add: take_upt)
  moreover have "q = length us"
    using arg_cong [OF eq, of "\<lambda>xs. xs ! length us"] calculation(1) by (simp add: nth_append)
  ultimately show "p \<in> set us" using hb_less [OF \<open>hb L p q\<close>] by (metis atLeast0LessThan lessThan_iff set_upt)
qed simp

subsection \<open>Issue orders made of equal blocks\<close>

definition blocks :: "(nat \<Rightarrow> 'a list) \<Rightarrow> nat \<Rightarrow> 'a list" where
  "blocks f n = concat (map f [0..<n])"

lemma blocks_Suc: "blocks f (Suc n) = blocks f n @ f n"
  by (simp add: blocks_def)

lemma length_blocks: "\<forall>i. length (f i) = k \<Longrightarrow> length (blocks f n) = n * k"
  by (induction n) (simp_all add: blocks_Suc, simp add: blocks_def)

lemma nth_blocks:
  "\<forall>i. length (f i) = k \<Longrightarrow> i < n \<Longrightarrow> r < k \<Longrightarrow> blocks f n ! (i * k + r) = f i ! r"
proof (induction n)
  case (Suc n)
  have len: "length (blocks f n) = n * k" by (rule length_blocks [OF Suc.prems(1)])
  show ?case
  proof (cases "i = n")
    case True
    with len show ?thesis by (simp add: blocks_Suc nth_append)
  next
    case False
    with Suc.prems(2) have "Suc i \<le> n" by simp
    then have "Suc i * k \<le> n * k" by (rule mult_le_mono1)
    with Suc.prems(3) have "i * k + r < n * k" by simp
    with False Suc len show ?thesis by (simp add: blocks_Suc nth_append)
  qed
qed simp

lemma nth_blocks_append:
  "\<forall>i. length (f i) = k \<Longrightarrow> i < n \<Longrightarrow> r < k \<Longrightarrow> (blocks f n @ zs) ! (i * k + r) = f i ! r"
proof -
  assume a: "\<forall>i. length (f i) = k" "i < n" "r < k"
  then have "Suc i * k \<le> n * k" by (intro mult_le_mono1) simp
  with a have "i * k + r < length (blocks f n)" by (simp add: length_blocks)
  with a show ?thesis by (simp add: nth_append nth_blocks)
qed

lemma position_in_block:
  fixes k :: nat
  assumes "p < n * k"
  obtains i r where "p = i * k + r" "i < n" "r < k"
proof
  have "0 < k" using assms by (cases k) auto
  then show "p = (p div k) * k + p mod k" "p mod k < k" by simp_all
  show "p div k < n" using assms \<open>0 < k\<close> by (simp add: less_mult_imp_div_less)
qed

subsection \<open>The issue order of execute_batch\<close>

definition enqueue_h2d :: "nat \<Rightarrow> cmd list" where
  "enqueue_h2d i = [Fill i, Enqueue H2DStream (CopyA i), Enqueue H2DStream (CopyB i),
     Record (h2d_done i) H2DStream]"

definition job_cmds :: "nat \<Rightarrow> nat \<Rightarrow> cmd list" where
  "job_cmds n i = [Wait ComputeStream (h2d_done i), Enqueue ComputeStream (Kernel i),
     Record (kern_done i) ComputeStream, Wait D2HStream (kern_done i),
     Enqueue D2HStream (CopyC i), Record (done_ev i) D2HStream]
   @ (if i + 1 < n then enqueue_h2d (i + 1) else [])"

definition pipeline :: "nat \<Rightarrow> cmd list" where
  "pipeline n = enqueue_h2d 0 @ concat (map (job_cmds n) [0..<n])"

text \<open>The host then waits for the jobs in order.\<close>

definition collect_cmds :: "nat \<Rightarrow> cmd list" where
  "collect_cmds n = map (\<lambda>i. Sync (done_ev i)) [0..<n]"

text \<open>The same order, block by block.\<close>

definition job_block :: "nat \<Rightarrow> cmd list" where
  "job_block i = enqueue_h2d i @ [Wait ComputeStream (h2d_done i), Enqueue ComputeStream (Kernel i),
     Record (kern_done i) ComputeStream, Wait D2HStream (kern_done i),
     Enqueue D2HStream (CopyC i), Record (done_ev i) D2HStream]"

lemma length_job_block [simp]: "length (job_block i) = 10"
  by (simp add: job_block_def enqueue_h2d_def)

lemma pipeline_prefix:
  "m < n \<Longrightarrow> enqueue_h2d 0 @ concat (map (job_cmds n) [0..<m]) = blocks job_block m @ enqueue_h2d m"
proof (induction m)
  case (Suc m)
  then show ?case by (simp add: blocks_Suc job_cmds_def job_block_def flip: append_assoc)
qed (simp add: blocks_def)

lemma pipeline_blocks: "0 < n \<Longrightarrow> pipeline n = blocks job_block n"
proof (cases n)
  case (Suc m)
  with pipeline_prefix [of m n] show ?thesis
    by (simp add: pipeline_def blocks_Suc job_cmds_def job_block_def flip: append_assoc)
qed simp

lemmas job_block_unfold = job_block_def enqueue_h2d_def

definition batch_cmds :: "nat \<Rightarrow> cmd list" where
  "batch_cmds n = pipeline n @ collect_cmds n"

lemma batch_cmds_blocks: "0 < n \<Longrightarrow> batch_cmds n = blocks job_block n @ collect_cmds n"
  by (simp add: batch_cmds_def pipeline_blocks)

lemma length_batch_cmds: "0 < n \<Longrightarrow> length (batch_cmds n) = n * 10 + n"
  by (simp add: batch_cmds_blocks length_blocks [of job_block 10] collect_cmds_def)

lemma batch_cmds_at: "i < n \<Longrightarrow> r < 10 \<Longrightarrow> batch_cmds n ! (i * 10 + r) = job_block i ! r"
  using nth_blocks_append [of job_block 10 i n r] by (simp add: batch_cmds_blocks)

lemma batch_cmds_sync: "i < n \<Longrightarrow> batch_cmds n ! (n * 10 + i) = Sync (done_ev i)"
  by (simp add: batch_cmds_blocks nth_append length_blocks [of job_block 10] collect_cmds_def)

lemma less_10: "r < 10 \<Longrightarrow> r \<in> {0, 1, 2, 3, 4, 5, 6, 7, 8, 9 :: nat}"
  by auto

lemma batch_position:
  assumes "p < length (batch_cmds n)" "0 < n"
  obtains (block) i r where "p = i * 10 + r" "i < n" "r < 10" "batch_cmds n ! p = job_block i ! r"
  | (sync) i where "p = n * 10 + i" "i < n" "batch_cmds n ! p = Sync (done_ev i)"
proof (cases "p < n * 10")
  case True
  then obtain i r where "p = i * 10 + r" "i < n" "r < 10" by (rule position_in_block)
  with block show ?thesis by (simp add: batch_cmds_at)
next
  case False
  define i where "i = p - n * 10"
  have "p = n * 10 + i" "i < n"
    using False assms length_batch_cmds [of n] by (simp_all add: i_def)
  with sync show ?thesis by (simp add: batch_cmds_sync)
qed

text \<open>Where a command stands.\<close>

fun place :: "nat \<Rightarrow> cmd \<Rightarrow> nat" where
  "place n (Fill i) = i * 10"
| "place n (Enqueue _ (CopyA i)) = i * 10 + 1"
| "place n (Enqueue _ (CopyB i)) = i * 10 + 2"
| "place n (Record (h2d_done i) _) = i * 10 + 3"
| "place n (Wait _ (h2d_done i)) = i * 10 + 4"
| "place n (Enqueue _ (Kernel i)) = i * 10 + 5"
| "place n (Record (kern_done i) _) = i * 10 + 6"
| "place n (Wait _ (kern_done i)) = i * 10 + 7"
| "place n (Enqueue _ (CopyC i)) = i * 10 + 8"
| "place n (Record (done_ev i) _) = i * 10 + 9"
| "place n (Sync (done_ev i)) = n * 10 + i"
| "place n _ = 0"

lemma place_eq:
  assumes "p < length (batch_cmds n)" "0 < n"
  shows "place n (batch_cmds n ! p) = p"
  using assms
proof (cases rule: batch_position)
  case (block i r)
  then show ?thesis using less_10 [of r] by (auto simp: job_block_unfold)
qed simp

subsection \<open>What is ordered and what is not\<close>

definition ordered :: "cmd list \<Rightarrow> cmd \<Rightarrow> cmd \<Rightarrow> bool" where
  "ordered L x y \<longleftrightarrow> (\<forall>p < length L. \<forall>q < length L. L ! p = x \<longrightarrow> L ! q = y \<longrightarrow> hb L p q)"

definition concurrent :: "cmd list \<Rightarrow> cmd \<Rightarrow> cmd \<Rightarrow> bool" where
  "concurrent L x y \<longleftrightarrow>
     (\<forall>p < length L. \<forall>q < length L. L ! p = x \<longrightarrow> L ! q = y \<longrightarrow> \<not> hb L p q \<and> \<not> hb L q p)"

lemma in_block_bound: "i < n \<Longrightarrow> r < 10 \<Longrightarrow> i * 10 + r < length (batch_cmds n)"
  using length_batch_cmds [of n] by (cases "n = 0") auto

lemma hb_block_stream:
  assumes "i < n" "a < b" "b < 10" "stream_of (job_block i ! a) = Some s" "stream_of (job_block i ! b) = Some s"
  shows "hb (batch_cmds n) (i * 10 + a) (i * 10 + b)"
  by (rule hb_stream [of _ _ _ s]) (use assms in \<open>simp_all add: batch_cmds_at in_block_bound\<close>)

lemma hb_block_event:
  assumes "i < n" "Suc a < 10" "records (job_block i ! a) = Some e" "awaits (job_block i ! Suc a) = Some e"
  shows "hb (batch_cmds n) (i * 10 + a) (i * 10 + Suc a)"
proof (rule hb_event [of _ _ _ e])
  show "records (batch_cmds n ! (i * 10 + a)) = Some e" using assms by (simp add: batch_cmds_at)
  show "awaits (batch_cmds n ! (i * 10 + Suc a)) = Some e"
    using assms batch_cmds_at [of i n "Suc a"] by simp
qed (use assms in_block_bound [of i n "Suc a"] in auto)

lemma hb_fill: "i < n \<Longrightarrow> 0 < a \<Longrightarrow> a < 10 \<Longrightarrow> hb (batch_cmds n) (i * 10 + 0) (i * 10 + a)"
  by (rule hb_host) (simp_all add: in_block_bound batch_cmds_at [of i n 0, simplified] job_block_unfold)

lemma hb_copies_kernel:
  assumes "i < n" "a = 1 \<or> a = 2"
  shows "hb (batch_cmds n) (i * 10 + a) (i * 10 + 5)"
proof -
  have "hb (batch_cmds n) (i * 10 + a) (i * 10 + 3)"
    by (rule hb_block_stream) (use assms in \<open>auto simp: job_block_unfold\<close>)
  moreover have "hb (batch_cmds n) (i * 10 + 3) (i * 10 + Suc 3)"
    by (rule hb_block_event) (use assms in \<open>auto simp: job_block_unfold\<close>)
  moreover have "hb (batch_cmds n) (i * 10 + Suc 3) (i * 10 + 5)"
    by (rule hb_block_stream) (use assms in \<open>auto simp: job_block_unfold\<close>)
  ultimately show ?thesis by (blast intro: hb_trans)
qed

lemma hb_kernel_copy:
  assumes "i < n"
  shows "hb (batch_cmds n) (i * 10 + 5) (i * 10 + 8)"
proof -
  have "hb (batch_cmds n) (i * 10 + 5) (i * 10 + 6)"
    by (rule hb_block_stream) (use assms in \<open>auto simp: job_block_unfold\<close>)
  moreover have "hb (batch_cmds n) (i * 10 + 6) (i * 10 + Suc 6)"
    by (rule hb_block_event) (use assms in \<open>auto simp: job_block_unfold\<close>)
  moreover have "hb (batch_cmds n) (i * 10 + Suc 6) (i * 10 + 8)"
    by (rule hb_block_stream) (use assms in \<open>auto simp: job_block_unfold\<close>)
  ultimately show ?thesis by (blast intro: hb_trans)
qed

lemma hb_copy_sync:
  assumes "i < n"
  shows "hb (batch_cmds n) (i * 10 + 8) (n * 10 + i)"
proof -
  have "hb (batch_cmds n) (i * 10 + 8) (i * 10 + 9)"
    by (rule hb_block_stream) (use assms in \<open>auto simp: job_block_unfold\<close>)
  moreover have "hb (batch_cmds n) (i * 10 + 9) (n * 10 + i)"
  proof (rule hb_event [of _ _ _ "done_ev i"])
    have len: "length (batch_cmds n) = n * 10 + n" using assms by (simp add: length_batch_cmds)
    show "i * 10 + 9 < n * 10 + i" "n * 10 + i < length (batch_cmds n)" using assms len by simp_all
    show "records (batch_cmds n ! (i * 10 + 9)) = Some (done_ev i)"
      using assms by (simp add: batch_cmds_at job_block_unfold)
    show "awaits (batch_cmds n ! (n * 10 + i)) = Some (done_ev i)"
      using assms by (simp add: batch_cmds_sync)
    show "\<forall>r. i * 10 + 9 < r \<and> r < n * 10 + i \<longrightarrow> records (batch_cmds n ! r) \<noteq> Some (done_ev i)"
    proof (intro allI impI notI)
      fix r assume r: "i * 10 + 9 < r \<and> r < n * 10 + i" "records (batch_cmds n ! r) = Some (done_ev i)"
      from r(2) obtain s where "batch_cmds n ! r = Record (done_ev i) s"
        by (cases "batch_cmds n ! r") auto
      with place_eq [of r n] r(1) len assms show False by simp
    qed
  qed
  ultimately show ?thesis by (rule hb_trans)
qed

lemma orderedI:
  assumes "0 < n" "hb (batch_cmds n) (place n x) (place n y)"
  shows "ordered (batch_cmds n) x y"
  using assms place_eq by (auto simp: ordered_def)

lemma concurrentI:
  assumes "0 < n" "\<not> hb (batch_cmds n) (place n x) (place n y)" "\<not> hb (batch_cmds n) (place n y) (place n x)"
  shows "concurrent (batch_cmds n) x y"
  using assms place_eq by (auto simp: concurrent_def)

text \<open>On the H2D stream only the host's fills and earlier copies can hold a command back.\<close>

definition h2d_side :: "cmd \<Rightarrow> bool" where
  "h2d_side c \<longleftrightarrow> stream_of c = Some H2DStream \<or> (\<exists>j. c = Fill j)"

lemma h2d_side_no_wait: "p < length (batch_cmds n) \<Longrightarrow> 0 < n \<Longrightarrow> h2d_side (batch_cmds n ! p) \<Longrightarrow>
    awaits (batch_cmds n ! p) = None"
proof (erule (1) batch_position)
  fix i r assume "r < 10" "batch_cmds n ! p = job_block i ! r" "h2d_side (batch_cmds n ! p)"
  then show ?thesis using less_10 [of r] by (auto simp: job_block_unfold h2d_side_def)
qed (simp add: h2d_side_def)

lemma host_in_block:
  assumes "0 < n" "p < q" "q < length (batch_cmds n)" "h2d_side (batch_cmds n ! q)"
    and "stream_of (batch_cmds n ! p) = None"
  shows "h2d_side (batch_cmds n ! p)"
proof -
  have q: "q < n * 10"
    using assms(3,1) by (cases rule: batch_position) (use assms(4) in \<open>auto simp: h2d_side_def\<close>)
  have "p < length (batch_cmds n)" using assms(2,3) by simp
  then show ?thesis using assms(1)
  proof (cases rule: batch_position)
    case (block i r)
    then show ?thesis using less_10 [of r] assms(5) by (auto simp: job_block_unfold h2d_side_def)
  next
    case (sync i)
    with assms(2) q show ?thesis by simp
  qed
qed

lemma hb_into_h2d:
  "hb (batch_cmds n) p q \<Longrightarrow> 0 < n \<Longrightarrow> h2d_side (batch_cmds n ! q) \<Longrightarrow> h2d_side (batch_cmds n ! p)"
proof (induction rule: hb.induct)
  case (hb_stream p q s)
  show ?case
  proof (cases "stream_of (batch_cmds n ! q) = Some H2DStream")
    case True
    with hb_stream show ?thesis by (simp add: h2d_side_def)
  next
    case False
    with hb_stream show ?thesis by (auto simp: h2d_side_def)
  qed
next
  case (hb_event p q e)
  then show ?case using h2d_side_no_wait [of q n] by simp
next
  case (hb_host p q)
  then show ?case using host_in_block by blast
qed blast

subsection \<open>What a schedule computes\<close>

text \<open>The pinned and the device buffers of each job; \<open>gemm\<close> is what a kernel computes.\<close>

record 'v mem =
  ha :: "nat \<Rightarrow> 'v"
  hb_buf :: "nat \<Rightarrow> 'v"
  hc :: "nat \<Rightarrow> 'v"
  da :: "nat \<Rightarrow> 'v"
  db :: "nat \<Rightarrow> 'v"
  dc :: "nat \<Rightarrow> 'v"

fun exec_op :: "('v \<Rightarrow> 'v \<Rightarrow> 'v) \<Rightarrow> op \<Rightarrow> 'v mem \<Rightarrow> 'v mem" where
  "exec_op gemm (CopyA i) m = m\<lparr>da := (da m)(i := ha m i)\<rparr>"
| "exec_op gemm (CopyB i) m = m\<lparr>db := (db m)(i := hb_buf m i)\<rparr>"
| "exec_op gemm (Kernel i) m = m\<lparr>dc := (dc m)(i := gemm (da m i) (db m i))\<rparr>"
| "exec_op gemm (CopyC i) m = m\<lparr>hc := (hc m)(i := dc m i)\<rparr>"

fun exec_cmd :: "('v \<Rightarrow> 'v \<Rightarrow> 'v) \<Rightarrow> (nat \<Rightarrow> 'v) \<Rightarrow> (nat \<Rightarrow> 'v) \<Rightarrow> cmd \<Rightarrow> 'v mem \<Rightarrow> 'v mem" where
  "exec_cmd gemm A B (Enqueue s w) m = exec_op gemm w m"
| "exec_cmd gemm A B (Fill i) m = m\<lparr>ha := (ha m)(i := A i), hb_buf := (hb_buf m)(i := B i)\<rparr>"
| "exec_cmd gemm A B (Record e s) m = m"
| "exec_cmd gemm A B (Wait s e) m = m"
| "exec_cmd gemm A B (Sync e) m = m"

definition run_schedule ::
    "('v \<Rightarrow> 'v \<Rightarrow> 'v) \<Rightarrow> (nat \<Rightarrow> 'v) \<Rightarrow> (nat \<Rightarrow> 'v) \<Rightarrow> cmd list \<Rightarrow> nat list \<Rightarrow> 'v mem \<Rightarrow> 'v mem" where
  "run_schedule gemm A B L ps m = foldl (\<lambda>m p. exec_cmd gemm A B (L ! p) m) m ps"

definition mem_inv ::
    "('v \<Rightarrow> 'v \<Rightarrow> 'v) \<Rightarrow> (nat \<Rightarrow> 'v) \<Rightarrow> (nat \<Rightarrow> 'v) \<Rightarrow> nat \<Rightarrow> nat set \<Rightarrow> 'v mem \<Rightarrow> bool" where
  "mem_inv gemm A B i P m \<longleftrightarrow>
     (i * 10 \<in> P \<longrightarrow> ha m i = A i \<and> hb_buf m i = B i) \<and>
     (i * 10 + 1 \<in> P \<longrightarrow> da m i = A i) \<and> (i * 10 + 2 \<in> P \<longrightarrow> db m i = B i) \<and>
     (i * 10 + 5 \<in> P \<longrightarrow> dc m i = gemm (A i) (B i)) \<and>
     (i * 10 + 8 \<in> P \<longrightarrow> hc m i = gemm (A i) (B i))"

lemma exec_block_frame:
  assumes "r < 10" "i \<noteq> j"
  shows "ha (exec_cmd gemm A B (job_block j ! r) m) i = ha m i"
    and "hb_buf (exec_cmd gemm A B (job_block j ! r) m) i = hb_buf m i"
    and "da (exec_cmd gemm A B (job_block j ! r) m) i = da m i"
    and "db (exec_cmd gemm A B (job_block j ! r) m) i = db m i"
    and "dc (exec_cmd gemm A B (job_block j ! r) m) i = dc m i"
    and "hc (exec_cmd gemm A B (job_block j ! r) m) i = hc m i"
  using less_10 [OF assms(1)] assms(2) by (auto simp: job_block_unfold)

lemma mem_inv_step:
  assumes inv: "mem_inv gemm A B i P m" and i: "i < n" and q: "q < length (batch_cmds n)"
    and closed: "\<forall>p. hb (batch_cmds n) p q \<longrightarrow> p \<in> P"
  shows "mem_inv gemm A B i (insert q P) (exec_cmd gemm A B (batch_cmds n ! q) m)"
proof -
  have n: "0 < n" using i by simp
  show ?thesis
    using q n
  proof (cases rule: batch_position)
    case (sync j)
    have "i * 10 + r \<noteq> q" if "r < 10" for r using sync i that by simp
    from this [of 0] this [of 1] this [of 2] this [of 5] this [of 8] show ?thesis
      using inv sync by (simp add: mem_inv_def)
  next
    case (block j r)
    show ?thesis
    proof (cases "j = i")
      case False
      have "i * 10 + a \<noteq> q" if "a < 10" for a
      proof
        assume "i * 10 + a = q"
        then have "(i * 10 + a) div 10 = (j * 10 + r) div 10" using block by simp
        with that block False show False by simp
      qed
      from this [of 0] this [of 1] this [of 2] this [of 5] this [of 8] show ?thesis
        using inv False by (simp add: mem_inv_def block(4) exec_block_frame [OF block(3)])
    next
      case True
      have p0: "i * 10 \<in> P" if "0 < r" using closed hb_fill [OF i that] block True by simp
      have p12: "i * 10 + 1 \<in> P \<and> i * 10 + 2 \<in> P" if "r = 5"
        using closed hb_copies_kernel [OF i, of 1] hb_copies_kernel [OF i, of 2] block True that by simp
      have p5: "i * 10 + 5 \<in> P" if "r = 8"
        using closed hb_kernel_copy [OF i] block True that by simp
      have q: "q = i * 10 + r" and cmd: "batch_cmds n ! q = job_block i ! r" using block True by simp_all
      consider "r = 0" | "r = 1" | "r = 2" | "r = 5" | "r = 8" | "r \<in> {3, 4, 6, 7, 9}"
        using less_10 [OF block(3)] by auto
      then show ?thesis
      proof cases
        case 1
        with inv show ?thesis unfolding cmd by (simp add: mem_inv_def job_block_unfold q)
      next
        case 2
        with inv p0 show ?thesis unfolding cmd by (simp add: mem_inv_def job_block_unfold q)
      next
        case 3
        with inv p0 show ?thesis unfolding cmd by (simp add: mem_inv_def job_block_unfold q)
      next
        case 4
        with inv p12 show ?thesis unfolding cmd by (simp add: mem_inv_def job_block_unfold q)
      next
        case 5
        with inv p5 show ?thesis unfolding cmd by (simp add: mem_inv_def job_block_unfold q)
      next
        case 6
        then have "exec_cmd gemm A B (job_block i ! r) m = m" by (auto simp: job_block_unfold)
        moreover have "i * 10 + a \<noteq> q" if "a \<in> {0, 1, 2, 5, 8}" for a using 6 q that by auto
        from this [of 0] this [of 1] this [of 2] this [of 5] this [of 8]
        have "mem_inv gemm A B i (insert q P) m" using inv by (simp add: mem_inv_def)
        ultimately show ?thesis unfolding cmd by simp
      qed
    qed
  qed
qed

lemma run_schedule_inv:
  assumes sch: "schedule (batch_cmds n) (us @ vs)" and i: "i < n"
  shows "mem_inv gemm A B i (set us) (run_schedule gemm A B (batch_cmds n) us m)"
  using sch
proof (induction us arbitrary: vs rule: rev_induct)
  case (snoc q us)
  have "schedule (batch_cmds n) (us @ (q # vs))" using snoc.prems by simp
  note IH = snoc.IH [OF this]
  have "q \<in> set (us @ q # vs)" by simp
  then have "q < length (batch_cmds n)"
    using snoc.prems by (metis append.assoc append_Cons append_Nil atLeastLessThan_iff schedule_def
        set_mset_mset set_upt)
  moreover have "\<forall>p. hb (batch_cmds n) p q \<longrightarrow> p \<in> set us"
    using snoc.prems by (auto simp: schedule_def)
  ultimately have "mem_inv gemm A B i (insert q (set us))
      (exec_cmd gemm A B (batch_cmds n ! q) (run_schedule gemm A B (batch_cmds n) us m))"
    by (rule mem_inv_step [OF IH i])
  then show ?case by (simp add: run_schedule_def)
qed (simp add: mem_inv_def)

subsection \<open>Properties\<close>

text \<open>
  The order that the comments and DESIGN.md promise for each job of a batch: its inputs are
  filled before they are copied, both copies complete before its kernel starts, the kernel
  completes before its result is copied back, and the host reads the result only after that
  copy.
\<close>

theorem pipeline_orders_each_job:
  assumes "i < n"
  shows "ordered (batch_cmds n) (Fill i) (Enqueue H2DStream (CopyA i)) \<and>
    ordered (batch_cmds n) (Enqueue H2DStream (CopyA i)) (Enqueue ComputeStream (Kernel i)) \<and>
    ordered (batch_cmds n) (Enqueue H2DStream (CopyB i)) (Enqueue ComputeStream (Kernel i)) \<and>
    ordered (batch_cmds n) (Enqueue ComputeStream (Kernel i)) (Enqueue D2HStream (CopyC i)) \<and>
    ordered (batch_cmds n) (Enqueue D2HStream (CopyC i)) (Sync (done_ev i))"
  using assms hb_fill [OF assms, of 1] hb_copies_kernel [OF assms, of 1]
    hb_copies_kernel [OF assms, of 2] hb_kernel_copy [OF assms] hb_copy_sync [OF assms]
  by (auto intro!: orderedI)

text \<open>
  Transfers overlap compute: the input copies of the next job are ordered neither before
  nor after the kernel of the current job, and neither before nor after its result copy, so
  the device may run them at the same time.
\<close>

theorem pipeline_overlaps:
  assumes "Suc i < n"
  shows "concurrent (batch_cmds n) (Enqueue ComputeStream (Kernel i)) (Enqueue H2DStream (CopyA (Suc i))) \<and>
    concurrent (batch_cmds n) (Enqueue D2HStream (CopyC i)) (Enqueue H2DStream (CopyA (Suc i)))"
proof -
  have n: "0 < n" using assms by simp
  have at: "batch_cmds n ! (i * 10 + 5) = Enqueue ComputeStream (Kernel i)"
    "batch_cmds n ! (i * 10 + 8) = Enqueue D2HStream (CopyC i)"
    "batch_cmds n ! (Suc i * 10 + 1) = Enqueue H2DStream (CopyA (Suc i))"
    using assms by (simp_all only: batch_cmds_at Suc_lessD) (simp_all add: job_block_unfold)
  have "\<not> hb (batch_cmds n) (i * 10 + 5) (Suc i * 10 + 1)" "\<not> hb (batch_cmds n) (i * 10 + 8) (Suc i * 10 + 1)"
    using hb_into_h2d [of n "i * 10 + 5" "Suc i * 10 + 1"] hb_into_h2d [of n "i * 10 + 8" "Suc i * 10 + 1"]
      at n
    by (auto simp: h2d_side_def)
  moreover have "\<not> hb (batch_cmds n) (Suc i * 10 + 1) (i * 10 + 5)" "\<not> hb (batch_cmds n) (Suc i * 10 + 1) (i * 10 + 8)"
    using hb_less [of "batch_cmds n" "Suc i * 10 + 1"] by fastforce+
  ultimately show ?thesis using n by (auto intro!: concurrentI)
qed

lemma schedule_result:
  assumes "schedule (batch_cmds n) (us @ vs)" "i < n" "n * 10 + i \<in> set us"
  shows "hc (run_schedule gemm A B (batch_cmds n) us m) i = gemm (A i) (B i)"
proof -
  obtain ys zs where us: "us = ys @ (n * 10 + i) # zs" using assms(3) by (meson split_list)
  then have "us @ vs = ys @ (n * 10 + i) # (zs @ vs)" by simp
  with assms(1) hb_copy_sync [OF assms(2)] have "i * 10 + 8 \<in> set ys"
    unfolding schedule_def by blast
  then have "i * 10 + 8 \<in> set us" using us by simp
  moreover have "mem_inv gemm A B i (set us) (run_schedule gemm A B (batch_cmds n) us m)"
    by (rule run_schedule_inv [OF assms(1,2)])
  ultimately show ?thesis unfolding mem_inv_def by blast
qed

text \<open>
  C12.  Whatever order the device picks, the results are right when it accepts the launches: in every schedule that respects
  the streams, the events and the host, as soon as the host has waited for job \<open>i\<close> the
  pinned result buffer of the job holds the product of the inputs that were filled in for it.
\<close>

theorem pipeline_results:
  assumes "schedule (batch_cmds n) (us @ vs)" "i < n" "n * 10 + i \<in> set us"
  shows "batch_cmds n ! (n * 10 + i) = Sync (done_ev i) \<and>
    hc (run_schedule gemm A B (batch_cmds n) us m) i = gemm (A i) (B i)"
  using schedule_result [OF assms] batch_cmds_sync [OF assms(2)] by simp

theorem pipeline_results_witness:
  "hc (run_schedule (+) (\<lambda>i. int i) (\<lambda>i. 5) (batch_cmds 2) [0..<length (batch_cmds 2)]
     \<lparr>ha = \<lambda>_. 0, hb_buf = \<lambda>_. 0, hc = \<lambda>_. 0, da = \<lambda>_. 0, db = \<lambda>_. 0, dc = \<lambda>_. 0\<rparr>) 1 = 6"
  using pipeline_results [of 2 "[0..<length (batch_cmds 2)]" "[]" 1 "(+)" "\<lambda>i. int i" "\<lambda>i. 5"]
    schedule_issue_order [of "batch_cmds 2"] length_batch_cmds [of 2]
  by simp

theorem pipeline_orders_each_job_witness:
  "ordered (batch_cmds 2) (Enqueue ComputeStream (Kernel 1)) (Enqueue D2HStream (CopyC 1))"
  using pipeline_orders_each_job [of 1 2] by simp

theorem pipeline_overlaps_witness:
  "concurrent (batch_cmds 2) (Enqueue ComputeStream (Kernel 0)) (Enqueue H2DStream (CopyA (Suc 0)))"
  using pipeline_overlaps [of 0 2] by simp

end
