(* ===== verification/Execute.thy ===== *)
theory Execute
  imports State Buffers Pipeline
begin

unbundle bit_operations_syntax

section \<open>Executing a batch (BatchScheduler::execute_batch)\<close>

text \<open>
  One worker runs one batch: it makes its streams and its event pool on first use, allocates the
  buffers of every job with a bounded retry on out-of-memory, issues the pipeline, waits for each
  job, and publishes the metrics; a failure inside the \<open>try\<close> block fails the whole batch, one
  before it escapes.  What CUDA answers, the clock and the bytes that come back from the device
  are the record \<open>env\<close>, an argument.
\<close>

subsection \<open>The environment and the local state\<close>

record env =
  status :: "nat \<Rightarrow> cuda_error" \<comment> \<open>the answer of the n-th checked call\<close>
  clock :: "nat \<Rightarrow> time_point" \<comment> \<open>the n-th reading of the clock\<close>
  dev_alloc :: alloc
  host_alloc :: alloc
  result_of :: "InferenceJob \<Rightarrow> float32 list" \<comment> \<open>the pinned result buffer after the wait\<close>

text \<open>\<open>WorkerContext\<close>: the three streams exist or not; the sizes of the three event pools are
  equal between batches.  The cuBLAS handle is a thread-local object of the worker.\<close>

record worker_ctx =
  have_streams :: bool
  pool_size :: nat
  have_handle :: bool

definition fresh_ctx :: worker_ctx where
  "fresh_ctx = \<lparr>have_streams = False, pool_size = 0, have_handle = False\<rparr>"

text \<open>The state of one call: the buffers \<open>da, db, dc\<close> of job \<open>i\<close> are
  \<open>dbufs ! (3 * i), ...\<close>, and \<open>ha, hb, hc\<close> are the same places of \<open>hbufs\<close>.\<close>

record run_st =
  calls :: nat
  clock_reads :: nat
  dev :: heap
  host :: heap
  dbufs :: "buffer list"
  hbufs :: "buffer list"
  pickup :: "nat \<Rightarrow> time_point"
  handle :: bool
  issued :: "cmd list"

datatype exn = CudaFail cuda_error | CublasFail cuda_error | AllocFail cuda_error

text \<open>\<open>CUDA_CHECK(call)\<close>\<close>

definition check :: "env \<Rightarrow> run_st \<Rightarrow> (exn + unit) \<times> run_st" where
  "check env st =
     (let e = status env (calls st); st' = st\<lparr>calls := Suc (calls st)\<rparr>
      in if e = cudaSuccess then (Inr (), st') else (Inl (CudaFail e), st'))"

fun check_n :: "env \<Rightarrow> nat \<Rightarrow> run_st \<Rightarrow> (exn + unit) \<times> run_st" where
  "check_n env 0 st = (Inr (), st)"
| "check_n env (Suc n) st =
     (case check env st of (Inl x, st') \<Rightarrow> (Inl x, st') | (Inr _, st') \<Rightarrow> check_n env n st')"

subsection \<open>Inputs of a job\<close>

definition fill_seed :: "u64 \<Rightarrow> 32 word" where
  "fill_seed i = ucast (((i XOR drop_bit 32 i) * 0x9e3779b97f4a7c15) AND 0xffffffff)"

definition elems_a :: "InferenceJob \<Rightarrow> size_t" where
  "elems_a j = size_of_int (job_m j) * size_of_int (job_k j) * size_of_int (job_batch j)"

definition elems_b :: "InferenceJob \<Rightarrow> size_t" where
  "elems_b j = size_of_int (job_k j) * size_of_int (job_n j) * size_of_int (job_batch j)"

definition elems_c :: "InferenceJob \<Rightarrow> size_t" where
  "elems_c j = size_of_int (job_m j) * size_of_int (job_n j) * size_of_int (job_batch j)"

fun draws :: "('g \<Rightarrow> float32 \<times> 'g) \<Rightarrow> nat \<Rightarrow> 'g \<Rightarrow> float32 list \<times> 'g" where
  "draws rnd 0 g = ([], g)"
| "draws rnd (Suc n) g = (let (x, g') = rnd g; (xs, g'') = draws rnd n g' in (x # xs, g''))"

text \<open>\<open>fill_matrices\<close>, over the seeded generator and the distribution of the library.\<close>

definition fill_matrices ::
    "(32 word \<Rightarrow> 'g) \<Rightarrow> ('g \<Rightarrow> float32 \<times> 'g) \<Rightarrow> InferenceJob \<Rightarrow> float32 list \<times> float32 list" where
  "fill_matrices seed rnd j =
     (let (a, g) = draws rnd (unat (elems_a j)) (seed (fill_seed (job_id j)));
          (b, _) = draws rnd (unat (elems_b j)) g
      in (a, b))"

lemma length_draws: "length (fst (draws rnd n g)) = n"
  by (induction n arbitrary: g) (simp_all add: case_prod_unfold Let_def)

text \<open>The three matrices need the bytes that the scheduler reserves for the job.\<close>

lemma elems_bytes: "(elems_a j + elems_b j + elems_c j) * 4 = bytes_required j"
  by (simp add: elems_a_def elems_b_def elems_c_def bytes_required_def Let_def algebra_simps)

subsection \<open>Allocation with retry\<close>

text \<open>
  A job whose elements take \<open>2 ^ 64\<close> bytes in one matrix counts as needing nothing, its buffers are
  asked for with no bytes at all, and \<open>fill_matrices\<close> writes \<open>2 ^ 62\<close> floats into each: outside of the
  pinned buffer.  The Python binding accepts the job.
\<close>

theorem wrapped_job_overruns_its_buffers:
  "let j = default_job\<lparr>job_m := 2 ^ 30, job_n := 2 ^ 30, job_k := 2 ^ 30, job_batch := 4\<rparr>
   in valid_job j \<and> bytes_required j = 0 \<and> elems_a j * 4 = 0 \<and> unat (elems_a j) = 2 ^ 62 \<and>
      length (fst (fill_matrices seed rnd j)) = 2 ^ 62"
proof -
  let ?j = "default_job\<lparr>job_m := 2 ^ 30, job_n := 2 ^ 30, job_k := 2 ^ 30, job_batch := 4\<rparr>"
  have v: "valid_job ?j" "bytes_required ?j = 0" "elems_a ?j * 4 = 0" "unat (elems_a ?j) = 2 ^ 62"
    by (simp_all add: valid_job_def default_job_def bytes_required_def elems_a_def size_of_int_def Let_def)
  then show ?thesis using length_draws [of rnd "unat (elems_a ?j)"]
    by (simp add: Let_def fill_matrices_def case_prod_unfold)
qed

datatype side = Device | Pinned

text \<open>The allocations of the loop over the jobs, in its order.\<close>

definition job_plan :: "nat \<Rightarrow> InferenceJob \<Rightarrow> (side \<times> nat \<times> size_t) list" where
  "job_plan i j = [(Device, 3 * i, elems_a j), (Device, 3 * i + 1, elems_b j), (Device, 3 * i + 2, elems_c j),
     (Pinned, 3 * i, elems_a j), (Pinned, 3 * i + 1, elems_b j), (Pinned, 3 * i + 2, elems_c j)]"

definition alloc_plan :: "InferenceJob list \<Rightarrow> (side \<times> nat \<times> size_t) list" where
  "alloc_plan batch = concat (map (\<lambda>(i, j). job_plan i j) (enumerate 0 batch))"

text \<open>\<open>AllocErr\<close> leaves the loop with a status, \<open>AllocThrow\<close> is an exception from the
  allocation of a pinned buffer.\<close>

datatype alloc_outcome = AllocOk | AllocErr cuda_error | AllocThrow cuda_error

fun run_plan :: "env \<Rightarrow> (side \<times> nat \<times> size_t) list \<Rightarrow> run_st \<Rightarrow> alloc_outcome \<times> run_st" where
  "run_plan env [] st = (AllocOk, st)"
| "run_plan env ((Device, k, n) # plan) st =
     (case try_allocate (dev_alloc env) n (dbufs st ! k) (dev st) of (err, b, h) \<Rightarrow>
        let st' = st\<lparr>dbufs := (dbufs st)[k := b], dev := h\<rparr>
        in if err = cudaSuccess then run_plan env plan st' else (AllocErr err, st'))"
| "run_plan env ((Pinned, k, n) # plan) st =
     (case allocate (host_alloc env) n (hbufs st ! k) (host st) of (r, b, h) \<Rightarrow>
        let st' = st\<lparr>hbufs := (hbufs st)[k := b], host := h\<rparr>
        in case r of Inr _ \<Rightarrow> run_plan env plan st' | Inl err \<Rightarrow> (AllocThrow err, st'))"

fun release_list :: "buffer list \<Rightarrow> heap \<Rightarrow> buffer list \<times> heap" where
  "release_list [] h = ([], h)"
| "release_list (b # bs) h =
     (let (b', h') = release b h; (bs', h'') = release_list bs h' in (b' # bs', h''))"

definition release_execs :: "run_st \<Rightarrow> run_st" where
  "release_execs st =
     (let (ds, h) = release_list (dbufs st) (dev st); (hs, g) = release_list (hbufs st) (host st)
      in st\<lparr>dbufs := ds, dev := h, hbufs := hs, host := g\<rparr>)"

definition kMaxAllocRetries :: nat where
  "kMaxAllocRetries = 200"

text \<open>The attempts that are left after the current one; the last component counts
  \<open>alloc_retries_\<close>.\<close>

fun alloc_attempts ::
    "env \<Rightarrow> InferenceJob list \<Rightarrow> nat \<Rightarrow> run_st \<Rightarrow> nat \<Rightarrow> alloc_outcome \<times> run_st \<times> nat" where
  "alloc_attempts env batch left st retries =
     (case run_plan env (alloc_plan batch) st of
        (AllocErr err, st') \<Rightarrow>
          (let st'' = release_execs st'
           in if err \<noteq> cudaErrorMemoryAllocation then (AllocErr err, st'', retries)
              else (case left of
                      0 \<Rightarrow> (AllocErr err, st'', retries)
                    | Suc left' \<Rightarrow> alloc_attempts env batch left' st'' (Suc retries)))
      | (outcome, st') \<Rightarrow> (outcome, st', retries))"

subsection \<open>Issuing and collecting\<close>

text \<open>Launching the tiled kernel is not checked; the cuBLAS path creates the handle of its
  thread on first use, sets the stream and calls the library, all three checked.\<close>

fun cublas_error :: "exn \<Rightarrow> exn" where
  "cublas_error (CudaFail e) = CublasFail e"
| "cublas_error x = x"

definition gemm_cublas :: "env \<Rightarrow> run_st \<Rightarrow> (exn + unit) \<times> run_st" where
  "gemm_cublas env st =
     (case (if handle st then (Inr (), st) else check env st) of
        (Inl x, st') \<Rightarrow> (Inl (cublas_error x), st')
      | (Inr _, st') \<Rightarrow>
          (case check_n env 2 (st'\<lparr>handle := True\<rparr>) of
             (Inl x, st'') \<Rightarrow> (Inl (cublas_error x), st'')
           | (Inr _, st'') \<Rightarrow> (Inr (), st'')))"

fun issue :: "env \<Rightarrow> Options \<Rightarrow> cmd \<Rightarrow> run_st \<Rightarrow> (exn + unit) \<times> run_st" where
  "issue env opts (Fill i) st =
     (Inr (), st\<lparr>pickup := (pickup st)(i := clock env (clock_reads st)),
               clock_reads := Suc (clock_reads st), issued := issued st @ [Fill i]\<rparr>)"
| "issue env opts (Enqueue s (Kernel i)) st =
     (case (if impl opts = ''cublas'' then gemm_cublas env st else (Inr (), st)) of
        (Inl x, st') \<Rightarrow> (Inl x, st')
      | (Inr _, st') \<Rightarrow> (Inr (), st'\<lparr>issued := issued st' @ [Enqueue s (Kernel i)]\<rparr>))"
| "issue env opts c st =
     (case check env st of
        (Inl x, st') \<Rightarrow> (Inl x, st')
      | (Inr _, st') \<Rightarrow> (Inr (), st'\<lparr>issued := issued st' @ [c]\<rparr>))"

fun issue_all :: "env \<Rightarrow> Options \<Rightarrow> cmd list \<Rightarrow> run_st \<Rightarrow> (exn + unit) \<times> run_st" where
  "issue_all env opts [] st = (Inr (), st)"
| "issue_all env opts (c # cs) st =
     (case issue env opts c st of
        (Inl x, st') \<Rightarrow> (Inl x, st')
      | (Inr _, st') \<Rightarrow> issue_all env opts cs st')"

definition done_metrics :: "InferenceJob \<Rightarrow> time_point \<Rightarrow> time_point \<Rightarrow> JobMetrics" where
  "done_metrics job picked finish =
     \<lparr>m_job_id = job_id job, m_seq = seq job, m_priority = priority job,
      queue_wait_ms = milliseconds (submit_time job) picked,
      exec_ms = milliseconds picked finish,
      e2e_ms = milliseconds (submit_time job) finish, ok = True\<rparr>"

text \<open>The loop that waits for each job; \<open>out\<close> are the metrics so far.\<close>

fun collect :: "env \<Rightarrow> Options \<Rightarrow> (nat \<times> InferenceJob) list \<Rightarrow> JobMetrics list \<Rightarrow> run_st \<Rightarrow> 'a sched_scheme
    \<Rightarrow> (exn + JobMetrics list) \<times> run_st \<times> 'a sched_scheme" where
  "collect env opts [] out st s = (Inr out, st, s)"
| "collect env opts ((i, job) # jobs) out st s =
     (case issue env opts (Sync (done_ev i)) st of
        (Inl x, st') \<Rightarrow> (Inl x, st', s)
      | (Inr _, st') \<Rightarrow>
          let finish = clock env (clock_reads st');
              s' = (if retain_results opts then s\<lparr>results := (results s)(seq job \<mapsto> result_of env job)\<rparr> else s)
          in collect env opts jobs (out @ [done_metrics job (pickup st' i) finish])
               (st'\<lparr>clock_reads := Suc (clock_reads st')\<rparr>) s')"

subsection \<open>The whole call\<close>

text \<open>The body of the \<open>try\<close> block up to the publication of the metrics.\<close>

definition try_body :: "env \<Rightarrow> Options \<Rightarrow> InferenceJob list \<Rightarrow> run_st \<Rightarrow> 'a sched_scheme
    \<Rightarrow> (exn + nat) \<times> run_st \<times> 'a sched_scheme" where
  "try_body env opts batch st s =
     (case alloc_attempts env batch kMaxAllocRetries st 0 of
        (outcome, st1, retries) \<Rightarrow>
          let s1 = s\<lparr>alloc_retries := alloc_retries s + word_of_nat retries\<rparr>
          in case outcome of
               AllocThrow e \<Rightarrow> (Inl (CudaFail e), st1, s1)
             | AllocErr e \<Rightarrow>
                 (Inl (AllocFail e), st1,
                  if e = cudaErrorMemoryAllocation then s1\<lparr>oom_failures := oom_failures s1 + 1\<rparr> else s1)
             | AllocOk \<Rightarrow>
                 (case issue_all env opts (pipeline (length batch)) st1 of
                    (Inl x, st2) \<Rightarrow> (Inl x, st2, s1)
                  | (Inr _, st2) \<Rightarrow>
                      (case collect env opts (enumerate 0 batch) [] st2 s1 of
                         (Inl x, st3, s3) \<Rightarrow> (Inl x, st3, s3)
                       | (Inr out, st3, s3) \<Rightarrow>
                           (Inr (length out), st3, s3\<lparr>metrics := metrics s3 @ out\<rparr>))))"

datatype exec_result = Published nat | Failed exn | Escaped exn

definition start_run :: "worker_ctx \<Rightarrow> InferenceJob list \<Rightarrow> heap \<Rightarrow> heap \<Rightarrow> run_st" where
  "start_run ctx batch d h =
     \<lparr>calls = 0, clock_reads = 0, dev = d, host = h,
      dbufs = replicate (3 * length batch) empty_buffer, hbufs = replicate (3 * length batch) empty_buffer,
      pickup = (\<lambda>_. 0), handle = have_handle ctx, issued = []\<rparr>"

text \<open>The destructor of \<open>execs\<close> at the end of the call.\<close>

definition destroy_execs :: "run_st \<Rightarrow> run_st" where
  "destroy_execs st = st\<lparr>dev := destroy_all (dbufs st) (dev st), host := destroy_all (hbufs st) (host st),
     dbufs := [], hbufs := []\<rparr>"

text \<open>\<open>execute_batch\<close> without the final \<open>completed_.fetch_add\<close> of a published batch, which
  follows after the metrics lock is released (\<open>count_completed\<close>).  Two calls have no effect on this
  state and their answers are ignored by the code: the \<open>cudaGetLastError\<close> that clears the error of a
  failed attempt, and the \<open>cudaDeviceSynchronize\<close> that lets the work of a failed batch drain.\<close>

definition execute_jobs :: "env \<Rightarrow> Options \<Rightarrow> worker_ctx \<Rightarrow> InferenceJob list \<Rightarrow> heap \<Rightarrow> heap \<Rightarrow> 'a sched_scheme
    \<Rightarrow> exec_result \<times> worker_ctx \<times> run_st \<times> 'a sched_scheme" where
  "execute_jobs env opts ctx batch d h s =
     (case check_n env (if have_streams ctx then 0 else 3) (start_run ctx batch d h) of
        (Inl x, st1) \<Rightarrow> (Escaped x, ctx, st1, s)
      | (Inr _, st1) \<Rightarrow>
          (case check_n env (3 * (length batch - pool_size ctx)) st1 of
             (Inl x, st2) \<Rightarrow> (Escaped x, ctx\<lparr>have_streams := True\<rparr>, st2, s)
           | (Inr _, st2) \<Rightarrow>
               (case try_body env opts batch st2 s of (r, st3, s3) \<Rightarrow>
                  let ctx' = \<lparr>have_streams = True, pool_size = max (pool_size ctx) (length batch),
                              have_handle = handle st3\<rparr>
                  in (case r of
                        Inr n \<Rightarrow> (Published n, ctx', destroy_execs st3, s3)
                      | Inl x \<Rightarrow> (Failed x, ctx', destroy_execs st3, fail_batch batch s3)))))"

definition count_completed :: "nat \<Rightarrow> 'a sched_scheme \<Rightarrow> 'a sched_scheme" where
  "count_completed n s = s\<lparr>completed := completed s + word_of_nat n\<rparr>"

definition execute_batch :: "env \<Rightarrow> Options \<Rightarrow> worker_ctx \<Rightarrow> InferenceJob list \<Rightarrow> heap \<Rightarrow> heap \<Rightarrow> 'a sched_scheme
    \<Rightarrow> exec_result \<times> worker_ctx \<times> run_st \<times> 'a sched_scheme" where
  "execute_batch env opts ctx batch d h s =
     (case execute_jobs env opts ctx batch d h s of
        (Published n, ctx', st', s') \<Rightarrow> (Published n, ctx', st', count_completed n s')
      | r \<Rightarrow> r)"

subsection \<open>What each step leaves alone\<close>

text \<open>The checked calls, the issued commands and the collection touch no buffer.\<close>

definition same_mem :: "run_st \<Rightarrow> run_st \<Rightarrow> bool" where
  "same_mem st st' \<longleftrightarrow> dev st' = dev st \<and> host st' = host st \<and> dbufs st' = dbufs st \<and> hbufs st' = hbufs st"

lemma same_mem_refl [simp]: "same_mem st st"
  by (simp add: same_mem_def)

lemma same_mem_trans: "same_mem a b \<Longrightarrow> same_mem b c \<Longrightarrow> same_mem a c"
  by (simp add: same_mem_def)

lemma check_n_frame:
  "check_n env n st = (r, st') \<Longrightarrow> same_mem st st' \<and> issued st' = issued st \<and> pickup st' = pickup st
     \<and> handle st' = handle st \<and> clock_reads st' = clock_reads st"
  by (induction n arbitrary: st)
    (auto simp: check_def Let_def same_mem_def split: if_splits prod.splits sum.splits)

lemma gemm_cublas_frame:
  "gemm_cublas env st = (r, st') \<Longrightarrow> same_mem st st' \<and> issued st' = issued st \<and> pickup st' = pickup st"
  by (auto simp: gemm_cublas_def check_def Let_def same_mem_def dest!: check_n_frame
      split: if_splits prod.splits sum.splits)

lemma issue_frame:
  "issue env opts c st = (r, st') \<Longrightarrow> same_mem st st' \<and>
     issued st' = issued st @ (case r of Inr _ \<Rightarrow> [c] | Inl _ \<Rightarrow> [])"
  by (cases "(env, opts, c, st)" rule: issue.cases)
    (auto simp: check_def Let_def same_mem_def dest!: gemm_cublas_frame
      split: if_splits prod.splits sum.splits)

lemma issue_all_frame:
  "issue_all env opts cs st = (r, st') \<Longrightarrow> same_mem st st' \<and> (r = Inr () \<longrightarrow> issued st' = issued st @ cs)"
proof (induction cs arbitrary: st)
  case (Cons c cs)
  obtain r1 st1 where i: "issue env opts c st = (r1, st1)" by fastforce
  from Cons.prems i Cons.IH [of st1] issue_frame [OF i] show ?case
    by (auto split: sum.splits intro: same_mem_trans)
qed simp

text \<open>Without an error the commands are issued in full.\<close>

definition no_errors :: "env \<Rightarrow> bool" where
  "no_errors env \<longleftrightarrow> (\<forall>n. status env n = cudaSuccess)"

lemma check_n_ok: "no_errors env \<Longrightarrow> \<exists>st'. check_n env n st = (Inr (), st')"
  by (induction n arbitrary: st) (auto simp: no_errors_def check_def Let_def)

lemma issue_ok:
  assumes "no_errors env"
  shows "\<exists>st'. issue env opts c st = (Inr (), st')"
proof -
  have check: "check env st = (Inr (), st\<lparr>calls := Suc (calls st)\<rparr>)" for st
    using assms by (simp add: check_def no_errors_def Let_def)
  have "\<exists>st'. gemm_cublas env st = (Inr (), st')" for st
  proof -
    obtain st1 where "check_n env 2 (st\<lparr>handle := True\<rparr>) = (Inr (), st1)"
      using check_n_ok [OF assms] by blast
    moreover obtain st2 where "check_n env 2 (st\<lparr>calls := Suc (calls st), handle := True\<rparr>) = (Inr (), st2)"
      using check_n_ok [OF assms] by blast
    ultimately show ?thesis by (simp add: gemm_cublas_def check)
  qed
  then obtain st1 where "gemm_cublas env st = (Inr (), st1)" by blast
  then show ?thesis by (cases "(env, opts, c, st)" rule: issue.cases) (auto simp: check)
qed

lemma issue_all_ok: "no_errors env \<Longrightarrow> \<exists>st'. issue_all env opts cs st = (Inr (), st')"
proof (induction cs arbitrary: st)
  case (Cons c cs)
  from issue_ok [OF Cons.prems, of opts c st] Cons.IH [OF Cons.prems] show ?case by auto
qed simp

subsection \<open>Memory: nothing leaks\<close>

definition mem_ok :: "ptr multiset \<Rightarrow> ptr multiset \<Rightarrow> run_st \<Rightarrow> bool" where
  "mem_ok F G st \<longleftrightarrow> heap_inv F (dbufs st) (dev st) \<and> heap_inv G (hbufs st) (host st)"

lemma mem_ok_same: "same_mem st st' \<Longrightarrow> mem_ok F G st' \<longleftrightarrow> mem_ok F G st"
  by (simp add: mem_ok_def same_mem_def)

lemma try_allocate_array_inv:
  assumes "alloc_ok alloc" "k < length bs" "heap_inv F bs h" "try_allocate alloc n (bs ! k) h = (err, b, h')"
  shows "heap_inv F (bs[k := b]) h'"
  by (rule heap_inv_unfocus [OF assms(2) heap_inv_wf [OF assms(3)]
        try_allocate_inv(1) [OF assms(1) heap_inv_focus [OF assms(2,3)] assms(4)]])

definition plan_fits :: "(side \<times> nat \<times> size_t) list \<Rightarrow> run_st \<Rightarrow> bool" where
  "plan_fits plan st \<longleftrightarrow> (\<forall>(_, k, _) \<in> set plan. k < length (dbufs st) \<and> k < length (hbufs st))"

definition same_size :: "run_st \<Rightarrow> run_st \<Rightarrow> bool" where
  "same_size st st' \<longleftrightarrow> length (dbufs st') = length (dbufs st) \<and> length (hbufs st') = length (hbufs st)"

lemma run_plan_inv:
  assumes ok: "alloc_ok (dev_alloc env)" "alloc_ok (host_alloc env)"
  shows "mem_ok F G st \<Longrightarrow> plan_fits plan st \<Longrightarrow> run_plan env plan st = (r, st') \<Longrightarrow>
    mem_ok F G st' \<and> same_size st st'"
proof (induction plan arbitrary: st)
  case (Cons x plan)
  obtain sd k n where x: "x = (sd, k, n)" by (metis prod_cases3)
  have k: "k < length (dbufs st)" "k < length (hbufs st)" "plan_fits plan st"
    using Cons.prems(2) x by (auto simp: plan_fits_def)
  show ?case
  proof (cases sd)
    case Device
    obtain e b h where t: "try_allocate (dev_alloc env) n (dbufs st ! k) (dev st) = (e, b, h)"
      by (metis prod_cases3)
    let ?st = "st\<lparr>dbufs := (dbufs st)[k := b], dev := h\<rparr>"
    have "mem_ok F G ?st"
      using try_allocate_array_inv [OF ok(1) k(1) _ t] Cons.prems(1) by (simp add: mem_ok_def)
    with Cons.IH [of ?st] Cons.prems(3) k t x Device show ?thesis
      by (auto simp: plan_fits_def same_size_def Let_def split: if_splits)
  next
    case Pinned
    obtain e b h where t: "try_allocate (host_alloc env) n (hbufs st ! k) (host st) = (e, b, h)"
      by (metis prod_cases3)
    let ?st = "st\<lparr>hbufs := (hbufs st)[k := b], host := h\<rparr>"
    have "mem_ok F G ?st"
      using try_allocate_array_inv [OF ok(2) k(2) _ t] Cons.prems(1) by (simp add: mem_ok_def)
    with Cons.IH [of ?st] Cons.prems(3) k t x Pinned show ?thesis
      by (auto simp: plan_fits_def same_size_def Let_def allocate_def split: if_splits)
  qed
qed (simp add: same_size_def)

lemma release_list_inv:
  "heap_inv F bs h \<Longrightarrow> release_list bs h = (bs', h') \<Longrightarrow> heap_inv F bs' h' \<and> length bs' = length bs"
proof (induction bs arbitrary: h F bs' h')
  case (Cons b bs)
  obtain c g where r: "release b h = (c, g)" by fastforce
  obtain cs g' where rs: "release_list bs g = (cs, g')" by fastforce
  have "heap_inv (F + mset (owned bs)) [b] h"
    using Cons.prems by (simp add: heap_inv_def add_ac split: if_splits)
  from release_inv [OF this] r have g: "heap_inv (F + mset (owned bs)) [c] g" by simp
  have c: "data_ptr c = 0" "buffer_wf c" using release_data [of b h] release_wf [of b h] r by auto
  have "heap_inv F bs g" using g c Cons.prems(1) by (simp add: heap_inv_def add_ac)
  from Cons.IH [OF this rs] c Cons.prems(2) r rs show ?case by (auto simp: heap_inv_def)
qed simp

lemma release_execs_inv: "mem_ok F G st \<Longrightarrow> mem_ok F G (release_execs st) \<and> same_size st (release_execs st)"
  by (auto simp: mem_ok_def same_size_def release_execs_def dest: release_list_inv split: prod.splits)

lemma alloc_plan_fits:
  assumes "length (dbufs st) = 3 * length batch" "length (hbufs st) = 3 * length batch"
  shows "plan_fits (alloc_plan batch) st"
  using assms by (auto simp: plan_fits_def alloc_plan_def job_plan_def in_set_enumerate_eq)

lemma alloc_attempts_inv:
  assumes ok: "alloc_ok (dev_alloc env)" "alloc_ok (host_alloc env)"
  shows "mem_ok F G st \<Longrightarrow> plan_fits (alloc_plan batch) st \<Longrightarrow>
    alloc_attempts env batch left st n = (r, st', n') \<Longrightarrow> mem_ok F G st' \<and> same_size st st'"
proof (induction left arbitrary: st n)
  case 0
  obtain r1 st1 where p: "run_plan env (alloc_plan batch) st = (r1, st1)" by fastforce
  from run_plan_inv [OF ok 0(1,2) p] release_execs_inv [of F G st1] 0(3) p show ?case
    by (auto simp: Let_def same_size_def split: alloc_outcome.splits if_splits)
next
  case (Suc left)
  obtain r1 st1 where p: "run_plan env (alloc_plan batch) st = (r1, st1)" by fastforce
  note inv = run_plan_inv [OF ok Suc.prems(1,2) p]
  with release_execs_inv [of F G st1]
  have rel: "mem_ok F G (release_execs st1)" "same_size st (release_execs st1)"
    by (auto simp: same_size_def)
  then have fits: "plan_fits (alloc_plan batch) (release_execs st1)"
    using Suc.prems(2) by (auto simp: plan_fits_def same_size_def)
  show ?case
    using Suc.IH [OF rel(1) fits] Suc.prems(3) p inv rel
    by (auto simp: Let_def same_size_def split: alloc_outcome.splits if_splits)
qed

lemma collect_frame:
  "collect env opts js out st s = (r, st', s') \<Longrightarrow> same_mem st st' \<and> s' = s\<lparr>results := results s'\<rparr>"
proof (induction js arbitrary: out st s)
  case (Cons x js)
  obtain i j where x: "x = (i, j)" by fastforce
  obtain r1 st1 where i: "issue env opts (Sync (done_ev i)) st = (r1, st1)" by fastforce
  show ?case
  proof (cases r1)
    case (Inl y)
    with Cons.prems x i issue_frame [OF i] show ?thesis by auto
  next
    case (Inr u)
    let ?s = "if retain_results opts then s\<lparr>results := (results s)(seq j \<mapsto> result_of env j)\<rparr> else s"
    have "collect env opts js (out @ [done_metrics j (pickup st1 i) (clock env (clock_reads st1))])
        (st1\<lparr>clock_reads := Suc (clock_reads st1)\<rparr>) ?s = (r, st', s')"
      using Cons.prems x i Inr by (simp add: Let_def del: issue.simps)
    from Cons.IH [OF this] issue_frame [OF i] show ?thesis
      by (auto simp: same_mem_def split: if_splits)
  qed
qed simp

lemma try_body_inv:
  assumes ok: "alloc_ok (dev_alloc env)" "alloc_ok (host_alloc env)"
    and "mem_ok F G st" "plan_fits (alloc_plan batch) st" "try_body env opts batch st s = (r, st', s')"
  shows "mem_ok F G st'"
proof -
  obtain out st1 n where a: "alloc_attempts env batch kMaxAllocRetries st 0 = (out, st1, n)"
    by (metis prod_cases3)
  have "mem_ok F G st1" using alloc_attempts_inv [OF ok assms(3,4) a] by simp
  moreover have "same_mem st1 st'"
    using assms(5) a
    by (auto simp: try_body_def Let_def same_mem_def dest!: issue_all_frame collect_frame
        split: alloc_outcome.splits sum.splits prod.splits if_splits)
  ultimately show ?thesis by (simp add: mem_ok_same)
qed

lemma execute_jobs_mem:
  assumes ok: "alloc_ok (dev_alloc env)" "alloc_ok (host_alloc env)"
    and h: "distinct (live d)" "\<not> bad_free d" "distinct (live h)" "\<not> bad_free h"
    and run: "execute_jobs env opts ctx batch d h s = (r, ctx', st', s')"
  shows "mset (live (dev st')) = mset (live d) \<and> mset (live (host st')) = mset (live h) \<and>
    \<not> bad_free (dev st') \<and> \<not> bad_free (host st')"
proof -
  let ?F = "mset (live d)" and ?G = "mset (live h)" and ?st = "start_run ctx batch d h"
  have start: "heap_inv (mset (live g)) (replicate n empty_buffer) g"
    if "distinct (live g)" "\<not> bad_free g" for g n
    using that by (auto simp: heap_inv_def empty_buffer_def buffer_wf_def owned_def filter_empty_conv)
  have init: "mem_ok ?F ?G st" "plan_fits (alloc_plan batch) st" "dev st = d" "host st = h"
    if "same_mem ?st st" for st
    using that h start by (auto simp: mem_ok_def same_mem_def start_run_def intro!: alloc_plan_fits)
  have fin: "heap_inv ?F [] (dev (destroy_execs st)) \<and> heap_inv ?G [] (host (destroy_execs st))"
    if "mem_ok ?F ?G st" for st
    using that by (auto simp: mem_ok_def destroy_execs_def intro: destroy_all_inv)
  obtain r1 st1 where c1: "check_n env (if have_streams ctx then 0 else 3) ?st = (r1, st1)" by fastforce
  obtain r2 st2 where c2: "check_n env (3 * (length batch - pool_size ctx)) st1 = (r2, st2)" by fastforce
  obtain r3 st3 s3 where b: "try_body env opts batch st2 s = (r3, st3, s3)" by (metis prod_cases3)
  have same: "same_mem ?st st1" "same_mem ?st st2"
    using check_n_frame [OF c1] check_n_frame [OF c2] by (auto intro: same_mem_trans)
  have "mem_ok ?F ?G st3" by (rule try_body_inv [OF ok init(1,2) [OF same(2)] b])
  with fin have "heap_inv ?F [] (dev (destroy_execs st3)) \<and> heap_inv ?G [] (host (destroy_execs st3))"
    by blast
  with run c1 c2 b init(3,4) [OF same(1)] init(3,4) [OF same(2)] h show ?thesis
    by (auto simp: execute_jobs_def Let_def heap_inv_def split: sum.splits)
qed

subsection \<open>The order of the reports\<close>

text \<open>The jobs whose inputs a list of commands fills, in order; each fill is followed by the
  reading of the clock that is the pickup time of the job.\<close>

fun fills :: "cmd list \<Rightarrow> nat list" where
  "fills [] = []"
| "fills (Fill i # cs) = i # fills cs"
| "fills (c # cs) = fills cs"

lemma fills_append: "fills (xs @ ys) = fills xs @ fills ys"
  by (induction xs rule: fills.induct) auto

lemma fills_pipeline: "0 < n \<Longrightarrow> fills (pipeline n) = [0..<n]"
proof -
  have "fills (blocks job_block n) = [0..<n]" for n
  proof (induction n)
    case (Suc n)
    then show ?case by (simp add: blocks_Suc fills_append) (simp add: job_block_unfold)
  qed (simp add: blocks_def)
  then show "0 < n \<Longrightarrow> ?thesis" by (simp add: pipeline_blocks)
qed

lemma issue_pickup:
  assumes "issue env opts c st = (Inr (), st')"
  shows "fills [c] = [] \<Longrightarrow> clock_reads st' = clock_reads st \<and> pickup st' = pickup st"
    and "c = Fill i \<Longrightarrow> clock_reads st' = Suc (clock_reads st) \<and>
      pickup st' = (pickup st)(i := clock env (clock_reads st))"
proof -
  have cublas: "gemm_cublas env st = (Inr (), st1) \<Longrightarrow> clock_reads st1 = clock_reads st \<and> pickup st1 = pickup st" for st1
    by (auto simp: gemm_cublas_def check_def Let_def dest!: check_n_frame
      split: if_splits prod.splits sum.splits)
  show "fills [c] = [] \<Longrightarrow> clock_reads st' = clock_reads st \<and> pickup st' = pickup st"
    using assms by (cases "(env, opts, c, st)" rule: issue.cases)
      (auto simp: check_def Let_def dest!: cublas split: if_splits prod.splits sum.splits)
  show "c = Fill i \<Longrightarrow> clock_reads st' = Suc (clock_reads st) \<and>
      pickup st' = (pickup st)(i := clock env (clock_reads st))"
    using assms by auto
qed

lemma issue_all_pickup:
  "issue_all env opts cs st = (Inr (), st') \<Longrightarrow> fills cs = [a..<b] \<Longrightarrow> clock_reads st = a \<Longrightarrow> a \<le> b \<Longrightarrow>
   clock_reads st' = b \<and> (\<forall>i. pickup st' i = (if a \<le> i \<and> i < b then clock env i else pickup st i))"
proof (induction cs arbitrary: st a)
  case (Cons c cs)
  obtain r1 st1 where i: "issue env opts c st = (r1, st1)" by fastforce
  with Cons.prems(1) have r1: "r1 = Inr ()" and rest: "issue_all env opts cs st1 = (Inr (), st')"
    by (auto split: sum.splits)
  note p = issue_pickup [OF i [unfolded r1]]
  show ?case
  proof (cases "\<exists>j. c = Fill j")
    case True
    then obtain j where c: "c = Fill j" by blast
    with Cons.prems(2) have "j # fills cs = [a..<b]" by simp
    then have "a < b" "j = a" "fills cs = [Suc a..<b]"
      by (cases "a < b"; simp add: upt_conv_Cons)+
    with Cons.IH [OF rest, of "Suc a"] p(2) [OF c] Cons.prems(3) show ?thesis by auto
  next
    case False
    then have f: "fills [c] = []" "fills (c # cs) = fills cs" by (cases c; simp)+
    with Cons.IH [OF rest, of a] p(1) [OF f(1)] Cons.prems show ?thesis by auto
  qed
next
  case Nil
  then have "a = b" by (cases "a < b") (auto simp: upt_conv_Cons)
  with Nil show ?case by auto
qed

definition store_results :: "(InferenceJob \<Rightarrow> float32 list) \<Rightarrow> InferenceJob list
    \<Rightarrow> (u64 \<rightharpoonup> float32 list) \<Rightarrow> (u64 \<rightharpoonup> float32 list)" where
  "store_results f js m = foldl (\<lambda>m j. m(seq j \<mapsto> f j)) m js"

text \<open>The waits succeed for a prefix of the jobs; their results are kept if the options ask
  for it.\<close>

lemma collect_result:
  assumes "collect env opts js out st s = (r, st', s')"
  shows "\<exists>k \<le> length js. results s' = (if retain_results opts
      then store_results (result_of env) (map snd (take k js)) (results s) else results s) \<and>
    (case r of
       Inl x \<Rightarrow> k < length js
     | Inr res \<Rightarrow> k = length js \<and> issued st' = issued st @ map (\<lambda>(i, j). Sync (done_ev i)) js \<and>
         res = out @ map (\<lambda>(t, i, j). done_metrics j (pickup st i) (clock env t)) (enumerate (clock_reads st) js))"
  using assms
proof (induction js arbitrary: out st s)
  case (Cons x js)
  obtain i j where x: "x = (i, j)" by fastforce
  obtain r1 st1 where i: "issue env opts (Sync (done_ev i)) st = (r1, st1)" by fastforce
  show ?case
  proof (cases r1)
    case (Inl y)
    with Cons.prems x i have "r = Inl y" "s' = s" by (simp_all del: issue.simps)
    then show ?thesis by (intro exI [of _ 0]) (simp add: store_results_def)
  next
    case (Inr u)
    let ?s = "if retain_results opts then s\<lparr>results := (results s)(seq j \<mapsto> result_of env j)\<rparr> else s"
    let ?st = "st1\<lparr>clock_reads := Suc (clock_reads st1)\<rparr>"
    have "collect env opts js (out @ [done_metrics j (pickup st1 i) (clock env (clock_reads st1))])
        ?st ?s = (r, st', s')"
      using Cons.prems x i Inr by (simp add: Let_def del: issue.simps)
    from Cons.IH [OF this] obtain k where k: "k \<le> length js"
      "results s' = (if retain_results opts
        then store_results (result_of env) (map snd (take k js)) (results ?s) else results ?s)"
      "case r of Inl x \<Rightarrow> k < length js
       | Inr res \<Rightarrow> k = length js \<and> issued st' = issued ?st @ map (\<lambda>(i, j). Sync (done_ev i)) js \<and>
         res = (out @ [done_metrics j (pickup st1 i) (clock env (clock_reads st1))]) @
           map (\<lambda>(t, i, j). done_metrics j (pickup ?st i) (clock env t)) (enumerate (clock_reads ?st) js)"
      by blast
    have u: "r1 = Inr ()" using Inr by simp
    have "clock_reads st1 = clock_reads st" "pickup st1 = pickup st" "issued st1 = issued st @ [Sync (done_ev i)]"
      using issue_pickup(1) [OF i [unfolded u]] issue_frame [OF i] u by auto
    with k x show ?thesis
      by (intro exI [of _ "Suc k"]) (auto simp: store_results_def split: sum.splits)
  qed
qed (auto simp: store_results_def)

lemma run_plan_frame:
  "run_plan env plan st = (r, st') \<Longrightarrow> issued st' = issued st \<and> clock_reads st' = clock_reads st
     \<and> pickup st' = pickup st"
proof (induction plan arbitrary: st)
  case (Cons x plan)
  obtain sd k n where x: "x = (sd, k, n)" by (metis prod_cases3)
  with Cons show ?case
    by (cases sd) (auto simp: Let_def split: prod.splits sum.splits if_splits dest!: Cons.IH)
qed simp

lemma alloc_attempts_frame:
  "alloc_attempts env batch left st n = (r, st', n') \<Longrightarrow> issued st' = issued st \<and>
     clock_reads st' = clock_reads st \<and> pickup st' = pickup st \<and> n \<le> n' \<and> n' \<le> n + left"
proof (induction left arbitrary: st n)
  case 0
  then show ?case
    by (auto simp: Let_def release_execs_def dest!: run_plan_frame
      split: alloc_outcome.splits if_splits prod.splits)
next
  case (Suc left)
  obtain r1 st1 where p: "run_plan env (alloc_plan batch) st = (r1, st1)" by fastforce
  have "issued (release_execs st1) = issued st1 \<and> clock_reads (release_execs st1) = clock_reads st1
     \<and> pickup (release_execs st1) = pickup st1"
    by (simp add: release_execs_def split: prod.splits)
  with Suc.IH [of "release_execs st1" "Suc n"] Suc.prems p run_plan_frame [OF p] show ?case
    by (auto simp: Let_def split: alloc_outcome.splits if_splits)
qed

declare alloc_attempts.simps [simp del]

subsection \<open>Properties\<close>

text \<open>A batch changes only its metrics, its results and the counters of its own.\<close>

definition batch_frame :: "'a sched_scheme \<Rightarrow> 'a sched_scheme \<Rightarrow> bool" where
  "batch_frame s s' \<longleftrightarrow> queue s' = queue s \<and> next_seq s' = next_seq s \<and> batch_queue s' = batch_queue s \<and>
     started s' = started s \<and> shutdown s' = shutdown s \<and> gpu_absent s' = gpu_absent s \<and>
     submitted s' = submitted s \<and> reserved s' = reserved s \<and> total_mem_bytes s' = total_mem_bytes s \<and>
     rejected_jobs s' = rejected_jobs s \<and> sched.more s' = sched.more s"

definition reports :: "env \<Rightarrow> InferenceJob list \<Rightarrow> JobMetrics list" where
  "reports env batch = map (\<lambda>(i, j). done_metrics j (clock env i) (clock env (length batch + i)))
     (enumerate 0 batch)"

lemma map_enumerate_reports:
  "map (\<lambda>(t, i, j). done_metrics j (p i) (clock env t)) (enumerate n (enumerate 0 batch)) =
   map (\<lambda>(i, j). done_metrics j (p i) (clock env (n + i))) (enumerate 0 batch)"
  by (rule nth_equalityI) (simp_all add: nth_enumerate_eq)

lemma try_body_result:
  assumes "batch \<noteq> []" "clock_reads st = 0" "issued st = []"
    and run: "try_body env opts batch st s = (r, st', s')"
  shows "batch_frame s s' \<and> completed s' = completed s \<and>
    (\<exists>k \<le> length batch. results s' = (if retain_results opts
       then store_results (result_of env) (take k batch) (results s) else results s) \<and>
    (case r of
       Inl x \<Rightarrow> metrics s' = metrics s \<and> k < length batch
     | Inr n \<Rightarrow> n = length batch \<and> k = length batch \<and> issued st' = batch_cmds (length batch) \<and>
         metrics s' = metrics s @ reports env batch))"
proof -
  obtain oc st1 n where a: "alloc_attempts env batch kMaxAllocRetries st 0 = (oc, st1, n)"
    by (metis prod_cases3)
  note f1 = alloc_attempts_frame [OF a]
  let ?s1 = "s\<lparr>alloc_retries := alloc_retries s + word_of_nat n\<rparr>"
  have len: "0 < length batch" using assms(1) by simp
  have none: ?thesis if "r = Inl x" "s' = s\<lparr>alloc_retries := c, oom_failures := o'\<rparr>" for x c o'
    using that len by (intro conjI exI [of _ 0]) (simp_all add: batch_frame_def store_results_def)
  show ?thesis
  proof (cases oc)
    case AllocOk
    obtain r2 st2 where i: "issue_all env opts (pipeline (length batch)) st1 = (r2, st2)" by fastforce
    show ?thesis
    proof (cases r2)
      case (Inl x)
      with run a AllocOk i have "r = Inl x" "s' = ?s1\<lparr>oom_failures := oom_failures s\<rparr>"
        by (auto simp: try_body_def)
      then show ?thesis by (rule none)
    next
      case (Inr u)
      have u: "r2 = Inr ()" using Inr by simp
      have picked: "clock_reads st2 = length batch"
        "\<forall>i < length batch. pickup st2 i = clock env i"
        using issue_all_pickup [OF i [unfolded u], of 0 "length batch"] fills_pipeline [OF len] f1 assms(2)
        by simp_all
      obtain r3 st3 s3 where c: "collect env opts (enumerate 0 batch) [] st2 ?s1 = (r3, st3, s3)"
        by (metis prod_cases3)
      have *: "map snd (take k (enumerate 0 batch)) = take k batch" for k
        by (simp flip: take_map)
      obtain k where "k \<le> length (enumerate 0 batch)"
        "results s3 = (if retain_results opts
          then store_results (result_of env) (map snd (take k (enumerate 0 batch))) (results ?s1)
          else results ?s1)"
        "case r3 of Inl x \<Rightarrow> k < length (enumerate 0 batch) | Inr res \<Rightarrow> k = length (enumerate 0 batch) \<and>
           issued st3 = issued st2 @ map (\<lambda>(i, j). Sync (done_ev i)) (enumerate 0 batch) \<and>
           res = [] @ map (\<lambda>(t, i, j). done_metrics j (pickup st2 i) (clock env t))
             (enumerate (clock_reads st2) (enumerate 0 batch))"
        using collect_result [OF c] by blast
      then have k: "k \<le> length batch" "results s3 = (if retain_results opts
          then store_results (result_of env) (take k batch) (results s) else results s)"
        "case r3 of Inl x \<Rightarrow> k < length batch | Inr res \<Rightarrow> k = length batch \<and>
           issued st3 = issued st2 @ map (\<lambda>(i, j). Sync (done_ev i)) (enumerate 0 batch) \<and>
           res = map (\<lambda>(t, i, j). done_metrics j (pickup st2 i) (clock env t))
             (enumerate (clock_reads st2) (enumerate 0 batch))"
        by (simp_all add: * split: sum.splits)
      have iss: "issued st2 @ map (\<lambda>(i, j). Sync (done_ev i)) (enumerate 0 batch) = batch_cmds (length batch)"
        using issue_all_frame [OF i] u f1 assms(3)
        by (auto simp: batch_cmds_def collect_cmds_def nth_enumerate_eq intro!: nth_equalityI)
      have res: "map (\<lambda>(t, i, j). done_metrics j (pickup st2 i) (clock env t))
             (enumerate (clock_reads st2) (enumerate 0 batch)) = reports env batch"
        unfolding map_enumerate_reports reports_def using picked
        by (auto simp: in_set_enumerate_eq)
      obtain rs where s3: "s3 = ?s1\<lparr>results := rs\<rparr>" using collect_frame [OF c] by blast
      show ?thesis
      proof (cases r3)
        case (Inl x)
        with run a AllocOk i u c have "r = Inl x" "s' = s3" by (simp_all add: try_body_def)
        with k Inl s3 show ?thesis
          by (intro conjI exI [of _ k]) (simp_all add: batch_frame_def)
      next
        case (Inr out)
        with run a AllocOk i u c have r: "r = Inr (length out)" "s' = s3\<lparr>metrics := metrics s3 @ out\<rparr>" "st' = st3"
          by (simp_all add: try_body_def)
        have "length (reports env batch) = length batch" by (simp add: reports_def)
        then show ?thesis
          using k Inr s3 r res iss
          by (intro conjI exI [of _ k]) (simp_all add: batch_frame_def)
      qed
    qed
  next
    case (AllocErr e)
    with run a have "r = Inl (AllocFail e)" "s' = ?s1\<lparr>oom_failures :=
        (if e = cudaErrorMemoryAllocation then oom_failures s + 1 else oom_failures s)\<rparr>"
      by (auto simp: try_body_def Let_def split: if_splits)
    then show ?thesis by (rule none)
  next
    case (AllocThrow e)
    with run a have "r = Inl (CudaFail e)" "s' = ?s1\<lparr>oom_failures := oom_failures s\<rparr>"
      by (auto simp: try_body_def Let_def split: if_splits)
    then show ?thesis by (rule none)
  qed
qed

lemma start_run_simps [simp]:
  "clock_reads (start_run ctx batch d h) = 0" "issued (start_run ctx batch d h) = []"
  "length (dbufs (start_run ctx batch d h)) = 3 * length batch"
  "length (hbufs (start_run ctx batch d h)) = 3 * length batch"
  by (simp_all add: start_run_def)

lemma destroy_execs_issued [simp]: "issued (destroy_execs st) = issued st"
  by (simp add: destroy_execs_def)

text \<open>\<open>execute_jobs\<close> runs the body of the \<open>try\<close> block, or a checked call before it fails.\<close>

lemma execute_jobs_cases:
  assumes "execute_jobs env opts ctx batch d h s = (r, ctx', st', s')"
  obtains (escaped) x where "r = Escaped x" "s' = s" "issued st' = []"
  | (body) st2 b st3 s3 where "same_mem (start_run ctx batch d h) st2" "clock_reads st2 = 0" "issued st2 = []"
      "try_body env opts batch st2 s = (b, st3, s3)" "st' = destroy_execs st3"
      "have_streams ctx'" "pool_size ctx' = max (pool_size ctx) (length batch)"
      "(\<exists>n. b = Inr n \<and> r = Published n \<and> s' = s3) \<or>
       (\<exists>x. b = Inl x \<and> r = Failed x \<and> s' = fail_batch batch s3)"
proof -
  obtain r1 st1 where c1: "check_n env (if have_streams ctx then 0 else 3) (start_run ctx batch d h) = (r1, st1)"
    by fastforce
  obtain r2 st2 where c2: "check_n env (3 * (length batch - pool_size ctx)) st1 = (r2, st2)" by fastforce
  obtain b st3 s3 where t: "try_body env opts batch st2 s = (b, st3, s3)" by (metis prod_cases3)
  note f1 = check_n_frame [OF c1] and f2 = check_n_frame [OF c2]
  show thesis
  proof (cases r1)
    case (Inl x)
    with assms c1 f1 have "r = Escaped x" "s' = s" "issued st' = []" by (auto simp: execute_jobs_def)
    then show ?thesis by (rule escaped)
  next
    case r1: (Inr u)
    show ?thesis
    proof (cases r2)
      case (Inl x)
      with assms c1 c2 r1 f1 f2 have "r = Escaped x" "s' = s" "issued st' = []"
        by (auto simp: execute_jobs_def)
      then show ?thesis by (rule escaped)
    next
      case (Inr u)
      with assms c1 c2 t r1
      have "ctx' = \<lparr>have_streams = True, pool_size = max (pool_size ctx) (length batch), have_handle = handle st3\<rparr>"
        "st' = destroy_execs st3"
        "(\<exists>n. b = Inr n \<and> r = Published n \<and> s' = s3) \<or> (\<exists>x. b = Inl x \<and> r = Failed x \<and> s' = fail_batch batch s3)"
        by (cases b; simp add: execute_jobs_def Let_def)+
      with body [OF same_mem_trans [OF f1 [THEN conjunct1] f2 [THEN conjunct1]] _ _ t] f1 f2 show ?thesis by simp
    qed
  qed
qed

lemma execute_jobs_result:
  assumes "batch \<noteq> []" "execute_jobs env opts ctx batch d h s = (r, ctx', st', s')"
  shows "batch_frame s s' \<and>
    (case r of
       Published n \<Rightarrow> n = length batch \<and> issued st' = batch_cmds (length batch) \<and>
         metrics s' = metrics s @ reports env batch \<and> completed s' = completed s \<and>
         results s' = (if retain_results opts then store_results (result_of env) batch (results s)
                       else results s)
     | Failed x \<Rightarrow> metrics s' = metrics s @ map fail_metrics batch \<and>
         completed s' = completed s + vector_size batch
     | Escaped x \<Rightarrow> s' = s)"
  using assms(2)
proof (cases rule: execute_jobs_cases)
  case (escaped x)
  then show ?thesis by (simp add: batch_frame_def)
next
  case (body st2 b st3 s3)
  note t = try_body_result [OF assms(1) body(2,3,4)]
  from body(8) show ?thesis
  proof (elim disjE exE conjE)
    fix n assume b: "b = Inr n" "r = Published n" "s' = s3"
    with t body(5) show ?thesis by (simp add: conj_commute)
  next
    fix x assume b: "b = Inl x" "r = Failed x" "s' = fail_batch batch s3"
    with t have "metrics s3 = metrics s" "completed s3 = completed s" "batch_frame s s3" by auto
    with b show ?thesis by (simp add: batch_frame_def fail_batch_def)
  qed
qed

lemma execute_batch_jobs:
  "execute_batch env opts ctx batch d h s =
   (case execute_jobs env opts ctx batch d h s of (r, ctx', st', s') \<Rightarrow>
      (r, ctx', st', case r of Published n \<Rightarrow> count_completed n s' | _ \<Rightarrow> s'))"
  by (simp add: execute_batch_def split: prod.split exec_result.split)

text \<open>
  C4.  Every batch is accounted for.  A run that publishes has issued exactly the commands of the
  pipeline, in its order, and appends one successful report per job, in batch order, timed by the
  clock readings at the job's pickup and after its wait; a run whose \<open>try\<close> block throws appends
  one failed report per job instead, whatever it had done until then; in both cases
  \<open>completed_\<close> grows by the size of the batch.  A run that escapes before the \<open>try\<close>
  block reports nothing.
\<close>

theorem execute_batch_reports:
  assumes "batch \<noteq> []" "execute_batch env opts ctx batch d h s = (r, ctx', st', s')"
  shows "batch_frame s s' \<and>
    (case r of
       Published n \<Rightarrow> n = length batch \<and> issued st' = batch_cmds (length batch) \<and>
         metrics s' = metrics s @ reports env batch \<and> completed s' = completed s + vector_size batch \<and>
         results s' = (if retain_results opts then store_results (result_of env) batch (results s)
                       else results s)
     | Failed x \<Rightarrow> metrics s' = metrics s @ map fail_metrics batch \<and>
         completed s' = completed s + vector_size batch
     | Escaped x \<Rightarrow> s' = s)"
proof -
  obtain r1 c1 st1 s1 where e: "execute_jobs env opts ctx batch d h s = (r1, c1, st1, s1)" by (metis prod_cases4)
  with assms(2) have "r = r1" "st' = st1"
    "s' = (case r1 of Published n \<Rightarrow> count_completed n s1 | _ \<Rightarrow> s1)"
    by (auto simp: execute_batch_jobs)
  with execute_jobs_result [OF assms(1) e] show ?thesis
    by (cases r1) (simp_all add: count_completed_def batch_frame_def)
qed

text \<open>
  C5.  No run of a batch leaks memory or frees twice: whether it publishes, fails at any of its
  allocations or calls, or escapes, what is allocated on the device and in pinned host memory
  when it returns is what was allocated when it was called.
\<close>

theorem execute_batch_no_leak:
  assumes "alloc_ok (dev_alloc env)" "alloc_ok (host_alloc env)"
    and "distinct (live d)" "\<not> bad_free d" "distinct (live h)" "\<not> bad_free h"
    and "execute_batch env opts ctx batch d h s = (r, ctx', st', s')"
  shows "mset (live (dev st')) = mset (live d) \<and> mset (live (host st')) = mset (live h) \<and>
    \<not> bad_free (dev st') \<and> \<not> bad_free (host st')"
proof -
  obtain r1 c1 st1 s1 where e: "execute_jobs env opts ctx batch d h s = (r1, c1, st1, s1)" by (metis prod_cases4)
  with assms(7) have "st' = st1" by (simp add: execute_batch_jobs)
  with execute_jobs_mem [OF assms(1-6) e] show ?thesis by simp
qed

lemma alloc_attempts_oom:
  "alloc_attempts env batch left st n = (AllocErr cudaErrorMemoryAllocation, st', n') \<Longrightarrow> n' = n + left"
proof (induction left arbitrary: st n)
  case 0
  then show ?case
    by (subst (asm) alloc_attempts.simps) (auto simp: Let_def split: alloc_outcome.splits prod.splits if_splits)
next
  case (Suc left)
  from Suc.prems show ?case
    by (subst (asm) alloc_attempts.simps)
      (auto simp: Let_def dest: Suc.IH split: alloc_outcome.splits prod.splits if_splits)
qed

text \<open>The other steps do not fail with an allocation error.\<close>

lemma check_n_error: "check_n env n st = (Inl x, st') \<Longrightarrow> \<exists>e. x = CudaFail e"
  by (induction n arbitrary: st) (auto simp: check_def Let_def split: if_splits sum.splits prod.splits)

lemma issue_error: "issue env opts c st = (Inl x, st') \<Longrightarrow> x \<noteq> AllocFail e"
  by (cases "(env, opts, c, st)" rule: issue.cases)
    (auto simp: gemm_cublas_def check_def Let_def dest!: check_n_error
      split: if_splits sum.splits prod.splits)

lemma issue_all_error: "issue_all env opts cs st = (Inl x, st') \<Longrightarrow> x \<noteq> AllocFail e"
  by (induction cs arbitrary: st) (auto dest: issue_error split: sum.splits prod.splits)

lemma collect_error: "collect env opts js out st s = (Inl x, st', s') \<Longrightarrow> x \<noteq> AllocFail e"
proof (induction js arbitrary: out st s)
  case (Cons y js)
  then show ?case
    by (cases y) (auto simp: Let_def simp del: issue.simps dest: issue_error Cons.IH split: sum.splits prod.splits)
qed simp

lemma try_body_retries:
  assumes "try_body env opts batch st s = (r, st', s')"
  shows "\<exists>k \<le> kMaxAllocRetries. alloc_retries s' = alloc_retries s + word_of_nat k \<and>
    oom_failures s' = oom_failures s + (if r = Inl (AllocFail cudaErrorMemoryAllocation) then 1 else 0) \<and>
    (r = Inl (AllocFail cudaErrorMemoryAllocation) \<longrightarrow> k = kMaxAllocRetries)"
proof -
  obtain oc st1 n where a: "alloc_attempts env batch kMaxAllocRetries st 0 = (oc, st1, n)"
    by (metis prod_cases3)
  have n: "n \<le> kMaxAllocRetries" "oc = AllocErr cudaErrorMemoryAllocation \<Longrightarrow> n = kMaxAllocRetries"
    using alloc_attempts_frame [OF a] a alloc_attempts_oom [of env batch kMaxAllocRetries st 0 st1 n] by auto
  let ?s1 = "s\<lparr>alloc_retries := alloc_retries s + word_of_nat n\<rparr>"
  show ?thesis
  proof (cases oc)
    case AllocOk
    obtain r2 st2 where i: "issue_all env opts (pipeline (length batch)) st1 = (r2, st2)" by fastforce
    obtain r3 st3 s3 where c: "collect env opts (enumerate 0 batch) [] st2 ?s1 = (r3, st3, s3)"
      by (metis prod_cases3)
    obtain rs where "s3 = ?s1\<lparr>results := rs\<rparr>" using collect_frame [OF c] by blast
    then have keep: "alloc_retries s3 = alloc_retries ?s1 \<and> oom_failures s3 = oom_failures s" by simp
    have "r \<noteq> Inl (AllocFail e) \<and> alloc_retries s' = alloc_retries ?s1 \<and> oom_failures s' = oom_failures s" for e
      using assms a AllocOk i c keep issue_all_error [of env opts _ st1 _ st2 e]
        collect_error [of env opts _ "[]" st2 ?s1 _ st3 s3 e]
      by (cases r2; cases r3) (auto simp: try_body_def)
    with n(1) show ?thesis by (intro exI [of _ n]) auto
  next
    case (AllocErr e)
    with assms a n show ?thesis
      by (intro exI [of _ n]) (auto simp: try_body_def Let_def split: if_splits)
  next
    case (AllocThrow e)
    with assms a n show ?thesis
      by (intro exI [of _ n]) (auto simp: try_body_def Let_def)
  qed
qed

text \<open>
  C26.  The retry on out-of-memory is bounded and counted: one batch adds at most 200 to
  \<open>alloc_retries_\<close>, and adds one to \<open>oom_failures_\<close> exactly when it fails because the
  last attempt ran out of memory, which it does only after all 200 retries.
\<close>

theorem execute_batch_retries:
  assumes "execute_batch env opts ctx batch d h s = (r, ctx', st', s')"
  shows "\<exists>k \<le> kMaxAllocRetries. alloc_retries s' = alloc_retries s + word_of_nat k \<and>
    oom_failures s' = oom_failures s +
      (if r = Failed (AllocFail cudaErrorMemoryAllocation) then 1 else 0) \<and>
    (r = Failed (AllocFail cudaErrorMemoryAllocation) \<longrightarrow> k = kMaxAllocRetries)"
proof -
  obtain r1 c1 st1 s1 where e: "execute_jobs env opts ctx batch d h s = (r1, c1, st1, s1)" by (metis prod_cases4)
  have res: "r = r1" "alloc_retries s' = alloc_retries s1" "oom_failures s' = oom_failures s1"
    using assms e by (auto simp: execute_batch_jobs count_completed_def split: exec_result.splits)
  from e show ?thesis
  proof (cases rule: execute_jobs_cases)
    case (escaped x)
    with res show ?thesis by (intro exI [of _ 0]) simp
  next
    case (body st2 b st3 s3)
    then have "alloc_retries s1 = alloc_retries s3 \<and> oom_failures s1 = oom_failures s3 \<and>
        (r1 = Failed (AllocFail e) \<longleftrightarrow> b = Inl (AllocFail e))" for e
      by (auto simp: fail_batch_def)
    with try_body_retries [OF body(4)] res show ?thesis by simp
  qed
qed

subsection \<open>A memory shortage that passes\<close>

text \<open>An allocator that runs out of memory for its first \<open>f\<close> calls.\<close>

definition short_of_memory :: "nat \<Rightarrow> alloc \<Rightarrow> alloc" where
  "short_of_memory f alloc h n = (if alloc_calls h < f then Inl cudaErrorMemoryAllocation else alloc h n)"

definition never_refuses :: "alloc \<Rightarrow> bool" where
  "never_refuses alloc \<longleftrightarrow> (\<forall>h n. \<exists>p. alloc h n = Inr p)"

lemma release_calls: "alloc_calls (snd (release b h)) = alloc_calls h"
  by (simp add: release_def cuda_free_def)

lemma try_allocate_succeeds:
  assumes "never_refuses al" "f \<le> alloc_calls h"
  shows "\<exists>b h'. try_allocate (short_of_memory f al) n b0 h = (cudaSuccess, b, h') \<and> f \<le> alloc_calls h'"
proof -
  obtain b1 h1 where r: "release b0 h = (b1, h1)" by fastforce
  with release_calls [of b0 h] assms(2) have "f \<le> alloc_calls h1" by simp
  moreover obtain p where "al h1 (n * 4) = Inr p" using assms(1) unfolding never_refuses_def by blast
  ultimately show ?thesis using r by (simp add: try_allocate_def cuda_malloc_def short_of_memory_def)
qed

lemma run_plan_succeeds:
  assumes "dev_alloc env = short_of_memory f al" "never_refuses al" "never_refuses (host_alloc env)"
  shows "f \<le> alloc_calls (dev st) \<Longrightarrow> fst (run_plan env plan st) = AllocOk"
proof (induction plan arbitrary: st)
  case (Cons x plan)
  obtain sd k n where x: "x = (sd, k, n)" by (metis prod_cases3)
  show ?case
  proof (cases sd)
    case Device
    with try_allocate_succeeds [OF assms(2) Cons.prems, of n "dbufs st ! k"] x assms(1) Cons.IH
    show ?thesis by (auto simp: Let_def)
  next
    case Pinned
    have "short_of_memory 0 (host_alloc env) = host_alloc env"
      by (simp add: short_of_memory_def fun_eq_iff)
    with try_allocate_succeeds [OF assms(3), of 0 "host st" n "hbufs st ! k"] Pinned x Cons
    show ?thesis by (auto simp: Let_def allocate_def)
  qed
qed simp

text \<open>While memory is short the first allocation of every attempt fails and nothing is held.\<close>

definition holds_nothing :: "InferenceJob list \<Rightarrow> run_st \<Rightarrow> bool" where
  "holds_nothing batch st \<longleftrightarrow> dbufs st = replicate (3 * length batch) empty_buffer \<and>
     hbufs st = replicate (3 * length batch) empty_buffer"

lemma release_list_empty: "release_list (replicate n empty_buffer) h = (replicate n empty_buffer, h)"
  by (induction n) (simp_all add: release_def empty_buffer_def)

lemma short_attempt:
  assumes "dev_alloc env = short_of_memory f al" "batch \<noteq> []" "elems_a (hd batch) \<noteq> 0"
    and "holds_nothing batch st" "alloc_calls (dev st) < f"
  obtains st' where "run_plan env (alloc_plan batch) st = (AllocErr cudaErrorMemoryAllocation, st')"
    "holds_nothing batch (release_execs st')" "alloc_calls (dev (release_execs st')) = Suc (alloc_calls (dev st))"
proof
  obtain j js where b: "batch = j # js" using assms(2) by (cases batch) auto
  have at0: "dbufs st ! 0 = empty_buffer" using assms(4) b by (simp add: holds_nothing_def)
  let ?st = "st\<lparr>dbufs := (dbufs st)[0 := empty_buffer], dev := (dev st)\<lparr>alloc_calls := Suc (alloc_calls (dev st))\<rparr>\<rparr>"
  have "try_allocate (dev_alloc env) (elems_a j) empty_buffer (dev st) =
      (cudaErrorMemoryAllocation, empty_buffer, (dev st)\<lparr>alloc_calls := Suc (alloc_calls (dev st))\<rparr>)"
    using assms(1,3,5) b
    by (simp add: try_allocate_def release_def empty_buffer_def cuda_malloc_def short_of_memory_def)
  moreover obtain plan where "alloc_plan batch = (Device, 0, elems_a j) # plan"
    using b by (simp add: alloc_plan_def job_plan_def)
  ultimately show "run_plan env (alloc_plan batch) st = (AllocErr cudaErrorMemoryAllocation, ?st)"
    using at0 by (simp add: Let_def)
  have same: "(replicate k empty_buffer)[0 := empty_buffer] = replicate k empty_buffer" for k
    by (cases k) simp_all
  show "holds_nothing batch (release_execs ?st)"
    "alloc_calls (dev (release_execs ?st)) = Suc (alloc_calls (dev st))"
    using assms(4) by (simp_all add: holds_nothing_def release_execs_def release_list_empty same)
qed

lemma alloc_attempts_cases:
  "fst (run_plan env (alloc_plan batch) st) = AllocOk \<Longrightarrow> \<exists>st'. alloc_attempts env batch left st n = (AllocOk, st', n)"
  "run_plan env (alloc_plan batch) st = (AllocErr cudaErrorMemoryAllocation, st1) \<Longrightarrow>
     alloc_attempts env batch 0 st n = (AllocErr cudaErrorMemoryAllocation, release_execs st1, n)"
  "run_plan env (alloc_plan batch) st = (AllocErr cudaErrorMemoryAllocation, st1) \<Longrightarrow>
     alloc_attempts env batch (Suc l) st n = alloc_attempts env batch l (release_execs st1) (Suc n)"
  by (cases "run_plan env (alloc_plan batch) st") (simp_all add: alloc_attempts.simps [of _ _ left]
      alloc_attempts.simps [of _ _ 0] alloc_attempts.simps [of _ _ "Suc l"] Let_def)

lemma alloc_attempts_short:
  assumes env: "dev_alloc env = short_of_memory f al" "never_refuses al" "never_refuses (host_alloc env)"
    and job: "batch \<noteq> []" "elems_a (hd batch) \<noteq> 0"
  shows "holds_nothing batch st \<Longrightarrow> alloc_calls (dev st) = c \<Longrightarrow> c \<le> f \<Longrightarrow>
    \<exists>st'. alloc_attempts env batch left st n =
      (if f - c \<le> left then (AllocOk, st', n + (f - c))
       else (AllocErr cudaErrorMemoryAllocation, st', n + left))"
proof (induction left arbitrary: st n c)
  case 0
  show ?case
  proof (cases "c = f")
    case True
    with run_plan_succeeds [OF env, of st "alloc_plan batch"] 0
    have "fst (run_plan env (alloc_plan batch) st) = AllocOk" by simp
    from alloc_attempts_cases(1) [OF this, of 0 n] True show ?thesis by simp
  next
    case False
    with 0 have "alloc_calls (dev st) < f" by simp
    then obtain st1 where "run_plan env (alloc_plan batch) st = (AllocErr cudaErrorMemoryAllocation, st1)"
      by (rule short_attempt [OF env(1) job 0(1)])
    from alloc_attempts_cases(2) [OF this, of n] False 0(3) show ?thesis by simp
  qed
next
  case (Suc left)
  show ?case
  proof (cases "c = f")
    case True
    with run_plan_succeeds [OF env, of st "alloc_plan batch"] Suc.prems
    have "fst (run_plan env (alloc_plan batch) st) = AllocOk" by simp
    from alloc_attempts_cases(1) [OF this, of "Suc left" n] True show ?thesis by simp
  next
    case False
    with Suc.prems have lt: "alloc_calls (dev st) < f" by simp
    obtain st1 where s: "run_plan env (alloc_plan batch) st = (AllocErr cudaErrorMemoryAllocation, st1)"
      "holds_nothing batch (release_execs st1)" "alloc_calls (dev (release_execs st1)) = Suc c"
      using short_attempt [OF env(1) job Suc.prems(1) lt] Suc.prems(2) by metis
    have "Suc c \<le> f" using lt Suc.prems(2) by simp
    from Suc.IH [OF s(2,3) this, of "Suc n"] obtain st' where
      "alloc_attempts env batch left (release_execs st1) (Suc n) =
        (if f - Suc c \<le> left then (AllocOk, st', Suc n + (f - Suc c))
         else (AllocErr cudaErrorMemoryAllocation, st', Suc n + left))" by blast
    moreover have "f - Suc c \<le> left \<longleftrightarrow> f - c \<le> Suc left" "Suc n + (f - Suc c) = n + (f - c)"
      using \<open>Suc c \<le> f\<close> by auto
    ultimately show ?thesis using alloc_attempts_cases(3) [OF s(1), of left n] by auto
  qed
qed

lemma collect_ok: "no_errors env \<Longrightarrow> \<exists>res. fst (collect env opts js out st s) = Inr res"
proof (induction js arbitrary: out st s)
  case (Cons x js)
  obtain i j where x: "x = (i, j)" by fastforce
  obtain st1 where "issue env opts (Sync (done_ev i)) st = (Inr (), st1)" using issue_ok [OF Cons.prems] by blast
  with Cons x show ?case by (simp add: Let_def del: issue.simps)
qed simp

lemma execute_jobs_shortage:
  assumes "batch \<noteq> []" "elems_a (hd batch) \<noteq> 0" "no_errors env"
    and "dev_alloc env = short_of_memory f al" "never_refuses al" "never_refuses (host_alloc env)"
    and "alloc_calls d = 0"
    and "execute_jobs env opts ctx batch d h s = (r, ctx', st', s')"
  shows "if f \<le> 200
    then r = Published (length batch) \<and> alloc_retries s' = alloc_retries s + word_of_nat f \<and>
      oom_failures s' = oom_failures s
    else r = Failed (AllocFail cudaErrorMemoryAllocation) \<and> alloc_retries s' = alloc_retries s + 200 \<and>
      oom_failures s' = oom_failures s + 1"
proof -
  let ?st = "start_run ctx batch d h"
  obtain st1 where c1: "check_n env (if have_streams ctx then 0 else 3) ?st = (Inr (), st1)"
    using check_n_ok [OF assms(3)] by blast
  obtain st2 where c2: "check_n env (3 * (length batch - pool_size ctx)) st1 = (Inr (), st2)"
    using check_n_ok [OF assms(3)] by blast
  have "same_mem ?st st2" using check_n_frame [OF c1] check_n_frame [OF c2] by (blast intro: same_mem_trans)
  then have st2: "holds_nothing batch st2" "alloc_calls (dev st2) = 0"
    using assms(7) by (simp_all add: same_mem_def holds_nothing_def start_run_def)
  obtain st3 where a: "alloc_attempts env batch kMaxAllocRetries st2 0 =
      (if f \<le> 200 then (AllocOk, st3, f) else (AllocErr cudaErrorMemoryAllocation, st3, 200))"
    using alloc_attempts_short [OF assms(4-6,1,2) st2, of kMaxAllocRetries 0]
    by (auto simp: kMaxAllocRetries_def split: if_splits)
  obtain b st4 s4 where t: "try_body env opts batch st2 s = (b, st4, s4)" by (metis prod_cases3)
  have n: "b = Inr n \<Longrightarrow> n = length batch" for n
    using try_body_result [OF assms(1) _ _ t] check_n_frame [OF c1] check_n_frame [OF c2] by auto
  have r: "r = (case b of Inr n \<Rightarrow> Published n | Inl x \<Rightarrow> Failed x)"
    "alloc_retries s' = alloc_retries s4" "oom_failures s' = oom_failures s4"
    using assms(8) c1 c2 t
    by (auto simp: execute_jobs_def Let_def fail_batch_def split: sum.splits)
  show ?thesis
  proof (cases "f \<le> 200")
    case True
    let ?s1 = "s\<lparr>alloc_retries := alloc_retries s + word_of_nat f\<rparr>"
    obtain st5 where i: "issue_all env opts (pipeline (length batch)) st3 = (Inr (), st5)"
      using issue_all_ok [OF assms(3)] by blast
    obtain res st6 s6 where c: "collect env opts (enumerate 0 batch) [] st5 ?s1 = (Inr res, st6, s6)"
      using collect_ok [OF assms(3), of opts "enumerate 0 batch" "[]" st5 ?s1] by (metis fst_conv surj_pair)
    obtain rs where "s6 = ?s1\<lparr>results := rs\<rparr>" using collect_frame [OF c] by blast
    with t a True i c have "b = Inr (length res)" "alloc_retries s4 = alloc_retries s + word_of_nat f"
      "oom_failures s4 = oom_failures s"
      by (auto simp: try_body_def)
    with n r True show ?thesis by simp
  next
    case False
    with t a have "b = Inl (AllocFail cudaErrorMemoryAllocation)" "alloc_retries s4 = alloc_retries s + 200"
      "oom_failures s4 = oom_failures s + 1"
      by (auto simp: try_body_def Let_def)
    with r False show ?thesis by simp
  qed
qed

text \<open>
  C19.  An external tenant that takes the memory for a while does not cost the jobs: if the device
  is short of memory for the first \<open>f\<close> allocation calls and everything else succeeds, the batch
  is published after \<open>f\<close> retries when \<open>f\<close> is at most 200, and otherwise it fails as an
  out-of-memory failure after 200 retries.
\<close>

theorem execute_batch_survives_shortage:
  assumes "batch \<noteq> []" "elems_a (hd batch) \<noteq> 0" "no_errors env"
    and "dev_alloc env = short_of_memory f al" "never_refuses al" "never_refuses (host_alloc env)"
    and "alloc_calls d = 0"
    and "execute_batch env opts ctx batch d h s = (r, ctx', st', s')"
  shows "if f \<le> 200
    then r = Published (length batch) \<and> alloc_retries s' = alloc_retries s + word_of_nat f \<and>
      oom_failures s' = oom_failures s
    else r = Failed (AllocFail cudaErrorMemoryAllocation) \<and> alloc_retries s' = alloc_retries s + 200 \<and>
      oom_failures s' = oom_failures s + 1"
proof -
  obtain r1 c1 st1 s1 where e: "execute_jobs env opts ctx batch d h s = (r1, c1, st1, s1)" by (metis prod_cases4)
  with assms(8) have "r = r1" "alloc_retries s' = alloc_retries s1" "oom_failures s' = oom_failures s1"
    by (auto simp: execute_batch_jobs count_completed_def split: exec_result.splits)
  with execute_jobs_shortage [OF assms(1-7) e] show ?thesis by simp
qed

text \<open>The environment of a batch in which nothing fails; at most the device is short of memory
  for the first \<open>f\<close> allocation calls, within the retries.\<close>

definition serves :: "env \<Rightarrow> nat \<Rightarrow> alloc \<Rightarrow> bool" where
  "serves env f al \<longleftrightarrow> no_errors env \<and> dev_alloc env = short_of_memory f al \<and> f \<le> 200 \<and>
     never_refuses al \<and> never_refuses (host_alloc env)"

lemma execute_jobs_serves:
  assumes "serves env f al" "b \<noteq> []" "elems_a (hd b) \<noteq> 0" "alloc_calls (d :: heap) = 0"
    and "execute_jobs env opts ctx b d h s = (r, ctx', st, s1)"
  shows "r = Published (length b)"
  using execute_jobs_shortage [of b env f al d opts ctx h s r ctx' st s1] assms by (simp add: serves_def)

subsection \<open>Concrete runs\<close>

text \<open>A device with enough memory that is short of it for the first three calls, and that fails
  the checked call number \<open>n\<close>.\<close>

definition grow_alloc :: alloc where
  "grow_alloc h n = Inr (Suc (sum_list (live h)))"

definition sample_env :: "nat option \<Rightarrow> env" where
  "sample_env bad =
     \<lparr>status = (\<lambda>n. if bad = Some n then cudaErrorOther 700 else cudaSuccess),
      clock = (\<lambda>n. 1000000 * int n), dev_alloc = short_of_memory 3 grow_alloc, host_alloc = grow_alloc,
      result_of = (\<lambda>j. [1])\<rparr>"

definition sample_heap :: heap where
  "sample_heap = \<lparr>live = [], bad_free = False, alloc_calls = 0\<rparr>"

definition sample_batch :: "InferenceJob list" where
  "sample_batch = [stamp 0 0 (default_job\<lparr>job_m := 2, job_n := 3, job_k := 4\<rparr>),
     stamp 0 1 (default_job\<lparr>job_m := 1, job_n := 1, job_k := 1\<rparr>)]"

definition sample_run :: "nat option \<Rightarrow> exec_result \<times> worker_ctx \<times> run_st \<times> sched" where
  "sample_run bad = execute_batch (sample_env bad) (default_options\<lparr>retain_results := True\<rparr>) fresh_ctx
     sample_batch sample_heap sample_heap new_sched"

lemma grow_alloc_ok: "alloc_ok grow_alloc" "alloc_ok (short_of_memory f grow_alloc)" "never_refuses grow_alloc"
proof -
  have "p < Suc (sum_list xs)" if "p \<in> set xs" for p and xs :: "nat list"
    using member_le_sum_list [OF that] by simp
  then show "alloc_ok grow_alloc" "alloc_ok (short_of_memory f grow_alloc)"
    by (fastforce simp: alloc_ok_def grow_alloc_def short_of_memory_def split: if_splits)+
qed (simp add: never_refuses_def grow_alloc_def)

text \<open>The environment and the start of the runs, as facts.\<close>

lemma sample_facts:
  "dev_alloc (sample_env bad) = short_of_memory 3 grow_alloc" "host_alloc (sample_env bad) = grow_alloc"
  "no_errors (sample_env None)" "alloc_calls sample_heap = 0" "live sample_heap = []"
  "\<not> bad_free sample_heap" "sample_batch \<noteq> []"
  by (simp_all add: sample_env_def no_errors_def sample_heap_def sample_batch_def)

lemma sample_elems: "elems_a (hd sample_batch) \<noteq> 0"
  by code_simp

lemma sample_run_eq:
  "execute_batch (sample_env bad) (default_options\<lparr>retain_results := True\<rparr>) fresh_ctx
     sample_batch sample_heap sample_heap new_sched =
   (fst (sample_run bad), fst (snd (sample_run bad)), fst (snd (snd (sample_run bad))), snd (snd (snd (sample_run bad))))"
  by (simp add: sample_run_def)

lemma sample_run_published: "fst (sample_run None) = Published 2"
proof -
  obtain r c st s where e: "execute_jobs (sample_env None) (default_options\<lparr>retain_results := True\<rparr>) fresh_ctx
     sample_batch sample_heap sample_heap new_sched = (r, c, st, s)" by (metis prod_cases4)
  have "never_refuses (host_alloc (sample_env None))" by (simp add: sample_facts grow_alloc_ok)
  from execute_jobs_shortage [OF sample_facts(7) sample_elems sample_facts(3,1) grow_alloc_ok(3) this sample_facts(4) e] e
  have "fst (sample_run None) = Published (length sample_batch)"
    by (simp add: sample_run_def execute_batch_jobs)
  then show ?thesis by (simp add: sample_batch_def)
qed

theorem execute_batch_reports_witness:
  "metrics (snd (snd (snd (sample_run None)))) = reports (sample_env None) sample_batch"
  using execute_batch_reports [OF sample_facts(7) sample_run_eq [of None]]
  by (simp add: sample_run_published) (simp add: new_sched_def)

theorem execute_batch_no_leak_witness:
  "live (dev (fst (snd (snd (sample_run (Some 26)))))) = [] \<and>
   live (host (fst (snd (snd (sample_run (Some 26)))))) = []"
proof -
  have "alloc_ok (dev_alloc (sample_env (Some 26)))" "alloc_ok (host_alloc (sample_env (Some 26)))"
    by (simp_all add: sample_facts grow_alloc_ok)
  from execute_batch_no_leak [OF this _ _ _ _ sample_run_eq] show ?thesis by (simp add: sample_facts)
qed

theorem execute_batch_retries_witness:
  "\<exists>k \<le> kMaxAllocRetries. alloc_retries (snd (snd (snd (sample_run None)))) = word_of_nat k"
  using execute_batch_retries [OF sample_run_eq, of None] by (auto simp: new_sched_def)

theorem execute_batch_survives_shortage_witness:
  "alloc_retries (snd (snd (snd (sample_run None)))) = 3 \<and> fst (sample_run None) = Published 2"
  using execute_batch_survives_shortage [OF sample_facts(7) sample_elems sample_facts(3,1) grow_alloc_ok(3) _
      sample_facts(4) sample_run_eq]
  by (simp add: sample_facts grow_alloc_ok new_sched_def) (simp add: sample_batch_def)

text \<open>
  A batch is failed as a whole even after some of its jobs have finished, and what these
  have stored is kept: when the second wait of a batch of two fails, both jobs are reported as
  failed, yet \<open>get_result\<close> returns the result of the first.
\<close>

theorem failed_job_keeps_result:
  "fst (sample_run (Some 26)) = Failed (CudaFail (cudaErrorOther 700)) \<and>
   map ok (metrics (snd (snd (snd (sample_run (Some 26)))))) = [False, False] \<and>
   get_result (snd (snd (snd (sample_run (Some 26))))) 0 = Some [1] \<and>
   get_result (snd (snd (snd (sample_run (Some 26))))) 1 = None"
  by code_simp

end
