(* ===== verification/Scheduler.thy ===== *)
theory Scheduler
  imports Execute
begin

section \<open>The scheduler as a state machine (scheduler.cpp)\<close>

text \<open>
  The threads of \<open>BatchScheduler\<close> as program counters over the shared state of \<open>sched\<close>:
  callers of \<open>submit\<close>, \<open>start\<close> and \<open>stop\<close>, the dispatcher, and the workers.  A
  step is what a thread does under one lock or between two of them; what it reads from outside
  (the clock, the GPU statistics, the answers of CUDA) is in the \<open>action\<close> of the step.
  \<open>reach opts cap jobs s\<close> holds of the states that some interleaving reaches, \<open>jobs\<close> being
  the submitted jobs in the order of their sequence numbers, and \<open>cap\<close> a bound of the budgets
  that the run has seen.
\<close>

subsection \<open>Threads\<close>

text \<open>The dispatcher: waiting for room in the batch queue, waiting for jobs, holding the drained
  candidates, the candidates left by the oversize check, a packing, a batch to reserve, a batch
  to publish.\<close>

datatype dispatcher_pc = D_off | D_space | D_queue | D_have "InferenceJob list"
  | D_pack "InferenceJob list" | D_packed "InferenceJob list" "InferenceJob list"
  | D_reserve "InferenceJob list" | D_publish "InferenceJob list" | D_exit

datatype worker_pc = W_wait | W_exec "InferenceJob list" | W_count nat "InferenceJob list"
  | W_release "InferenceJob list" | W_throw "InferenceJob list" | W_exit
  | W_crashed "InferenceJob list"

record worker =
  w_ctx :: worker_ctx
  w_pc :: worker_pc

record system = sched +
  dpc :: dispatcher_pc
  workers :: "worker list"
  counting :: nat \<comment> \<open>calls of \<open>submit\<close> between the push and the counter\<close>
  aborted :: bool \<comment> \<open>an exception left a thread: \<open>std::terminate\<close>\<close>

definition new_system :: system where
  "new_system = sched.extend new_sched (system.fields D_off [] 0 False)"

definition max_queue_depth :: "Options \<Rightarrow> size_t" where
  "max_queue_depth opts = max 2 (size_of_int (num_workers opts) * 2)"

subsection \<open>The dispatcher\<close>

definition wait_space :: "Options \<Rightarrow> system \<Rightarrow> system option" where
  "wait_space opts s =
     (if \<not> (shutdown s \<or> vector_size (batch_queue s) < max_queue_depth opts) then None
      else if shutdown s then Some (s\<lparr>dpc := D_exit\<rparr>) else Some (s\<lparr>dpc := D_queue\<rparr>))"

definition drain_candidates :: "system \<Rightarrow> system option" where
  "drain_candidates s =
     (if \<not> (shutdown s \<or> queue s \<noteq> []) then None
      else if shutdown s then Some (s\<lparr>dpc := D_exit\<rparr>)
      else let (candidates, q) = drain_queue (queue s)
           in Some (s\<lparr>queue := q, dpc := D_have candidates\<rparr>))"

definition filter_candidates :: "Options \<Rightarrow> InferenceJob list \<Rightarrow> system \<Rightarrow> system" where
  "filter_candidates opts candidates s =
     (if gpu_absent s then (fail_batch candidates s)\<lparr>dpc := D_space\<rparr>
      else let (rest, s') = reject_oversized opts candidates s in s'\<lparr>dpc := D_pack rest\<rparr>)"

definition pack_candidates :: "Options \<Rightarrow> time_point \<Rightarrow> GpuStats \<Rightarrow> InferenceJob list \<Rightarrow> system \<Rightarrow> system" where
  "pack_candidates opts now stats candidates s =
     (let (_, selected, remaining) =
            pack_jobs now candidates (budget_bytes opts stats s) (opt_max_batch opts)
      in s\<lparr>dpc := D_packed selected remaining\<rparr>)"

definition requeue :: "InferenceJob list \<Rightarrow> InferenceJob list \<Rightarrow> system \<Rightarrow> system" where
  "requeue selected remaining s =
     s\<lparr>queue := push_all (queue s) remaining,
       dpc := (if selected \<noteq> [] then D_reserve selected else D_space)\<rparr>"

definition reserve_batch :: "InferenceJob list \<Rightarrow> system \<Rightarrow> system" where
  "reserve_batch selected s = (reserve_bytes (batch_bytes selected) s)\<lparr>dpc := D_publish selected\<rparr>"

definition publish_batch :: "InferenceJob list \<Rightarrow> system \<Rightarrow> system" where
  "publish_batch selected s = s\<lparr>batch_queue := batch_queue s @ [selected], dpc := D_space\<rparr>"

definition dispatcher_step :: "Options \<Rightarrow> time_point \<Rightarrow> GpuStats \<Rightarrow> system \<Rightarrow> system option" where
  "dispatcher_step opts now stats s =
     (case dpc s of
        D_space \<Rightarrow> wait_space opts s
      | D_queue \<Rightarrow> drain_candidates s
      | D_have candidates \<Rightarrow> Some (filter_candidates opts candidates s)
      | D_pack candidates \<Rightarrow> Some (pack_candidates opts now stats candidates s)
      | D_packed selected remaining \<Rightarrow> Some (requeue selected remaining s)
      | D_reserve selected \<Rightarrow> Some (reserve_batch selected s)
      | D_publish selected \<Rightarrow> Some (publish_batch selected s)
      | _ \<Rightarrow> None)"

subsection \<open>A worker\<close>

definition set_worker :: "nat \<Rightarrow> worker_pc \<Rightarrow> system \<Rightarrow> system" where
  "set_worker i pc s = s\<lparr>workers := (workers s)[i := (workers s ! i)\<lparr>w_pc := pc\<rparr>]\<rparr>"

definition take_batch :: "nat \<Rightarrow> system \<Rightarrow> system option" where
  "take_batch i s =
     (if \<not> (shutdown s \<or> batch_queue s \<noteq> []) then None
      else case batch_queue s of
             [] \<Rightarrow> Some (set_worker i W_exit s)
           | batch # rest \<Rightarrow> Some (set_worker i (W_exec batch) (s\<lparr>batch_queue := rest\<rparr>)))"

definition run_batch :: "Options \<Rightarrow> env \<Rightarrow> heap \<Rightarrow> heap \<Rightarrow> nat \<Rightarrow> InferenceJob list \<Rightarrow> system \<Rightarrow> system" where
  "run_batch opts env d h i batch s =
     (if gpu_absent s then set_worker i (W_release batch) (fail_batch batch s)
      else case execute_jobs env opts (w_ctx (workers s ! i)) batch d h s of (r, ctx', _, s') \<Rightarrow>
        let s'' = s'\<lparr>workers := (workers s')[i := (workers s' ! i)\<lparr>w_ctx := ctx'\<rparr>]\<rparr>
        in case r of
             Published n \<Rightarrow> set_worker i (W_count n batch) s''
           | Failed _ \<Rightarrow> set_worker i (W_release batch) s''
           | Escaped _ \<Rightarrow> set_worker i (W_throw batch) s'')"

definition worker_step :: "Options \<Rightarrow> env \<Rightarrow> heap \<Rightarrow> heap \<Rightarrow> nat \<Rightarrow> system \<Rightarrow> system option" where
  "worker_step opts env d h i s =
     (if i < length (workers s)
      then case w_pc (workers s ! i) of
             W_wait \<Rightarrow> take_batch i s
           | W_exec batch \<Rightarrow> Some (run_batch opts env d h i batch s)
           | W_count n batch \<Rightarrow> Some (set_worker i (W_release batch) (count_completed n s))
           | W_release batch \<Rightarrow> Some (set_worker i W_wait (release_bytes (batch_bytes batch) s))
           | W_throw batch \<Rightarrow>
               Some ((set_worker i (W_crashed batch) (release_bytes (batch_bytes batch) s))\<lparr>aborted := True\<rparr>)
           | W_exit \<Rightarrow> None
           | W_crashed _ \<Rightarrow> None
      else None)"

subsection \<open>The callers\<close>

text \<open>\<open>start\<close>, for a number of workers that is not negative (\<open>reserve\<close> throws otherwise);
  the arguments are the number of devices that \<open>cudaGetDeviceCount\<close> reports (0 on failure),
  the telemetry and what \<open>cudaMemGetInfo\<close> answers (free, total).\<close>

definition start :: "Options \<Rightarrow> nat \<Rightarrow> GpuStats \<Rightarrow> (size_t \<times> size_t) option \<Rightarrow> system \<Rightarrow> system option" where
  "start opts ndev stats mem_info s =
     (if started s \<or> sint (num_workers opts) < 0 then None
      else Some (s\<lparr>started := True, shutdown := False, gpu_absent := (ndev = 0),
        total_mem_bytes := (if stats_total stats = 0
          then (case mem_info of Some (_, total_bytes) \<Rightarrow> total_bytes | None \<Rightarrow> 0) else stats_total stats),
        dpc := D_space,
        workers := replicate (nat (sint (num_workers opts))) \<lparr>w_ctx = fresh_ctx, w_pc = W_wait\<rparr>\<rparr>))"

text \<open>\<open>stop\<close> sets the flag, and returns from the joins when every thread has ended.\<close>

definition stop_flag :: "system \<Rightarrow> system option" where
  "stop_flag s = (if started s then Some (s\<lparr>shutdown := True\<rparr>) else None)"

definition all_joined :: "system \<Rightarrow> bool" where
  "all_joined s \<longleftrightarrow> dpc s \<in> {D_off, D_exit} \<and> (\<forall>w \<in> set (workers s). w_pc w = W_exit)"

definition stop_join :: "system \<Rightarrow> system option" where
  "stop_join s = (if started s \<and> shutdown s \<and> all_joined s then Some (s\<lparr>started := False\<rparr>) else None)"

datatype action = SubmitPush time_point InferenceJob | SubmitCount
  | Start nat GpuStats "(size_t \<times> size_t) option" | StopFlag | StopJoin
  | Dispatch time_point GpuStats | Work nat env heap heap

definition perform :: "Options \<Rightarrow> action \<Rightarrow> system \<Rightarrow> system option" where
  "perform opts a s =
     (if aborted s then None
      else case a of
        SubmitPush now job \<Rightarrow> Some ((fst (submit_push now job s))\<lparr>counting := Suc (counting s)\<rparr>)
      | SubmitCount \<Rightarrow>
          (if 0 < counting s then Some ((submit_count s)\<lparr>counting := counting s - 1\<rparr>) else None)
      | Start ndev stats mem_info \<Rightarrow> start opts ndev stats mem_info s
      | StopFlag \<Rightarrow> stop_flag s
      | StopJoin \<Rightarrow> stop_join s
      | Dispatch now stats \<Rightarrow> dispatcher_step opts now stats s
      | Work i env d h \<Rightarrow> worker_step opts env d h i s)"

text \<open>Runs.\<close>

fun submitted_by :: "action \<Rightarrow> system \<Rightarrow> InferenceJob list" where
  "submitted_by (SubmitPush now job) s = [stamp now (next_seq s) job]"
| "submitted_by _ s = []"

definition budget_within :: "Options \<Rightarrow> nat \<Rightarrow> action \<Rightarrow> bool" where
  "budget_within opts cap a =
     (case a of
        Dispatch now stats \<Rightarrow>
          (case budget_base opts stats of None \<Rightarrow> True | Some base \<Rightarrow> unat base \<le> cap)
      | _ \<Rightarrow> True)"

inductive reach :: "Options \<Rightarrow> nat \<Rightarrow> InferenceJob list \<Rightarrow> system \<Rightarrow> bool" for opts cap where
  reach_init: "reach opts cap [] new_system"
| reach_step: "reach opts cap jobs s \<Longrightarrow> budget_within opts cap a \<Longrightarrow> perform opts a s = Some s' \<Longrightarrow>
    reach opts cap (jobs @ submitted_by a s) s'"

text \<open>Running a list of actions, for the concrete runs.\<close>

fun perform_all :: "Options \<Rightarrow> action list \<Rightarrow> system \<Rightarrow> system option" where
  "perform_all opts [] s = Some s"
| "perform_all opts (a # as) s =
     (case perform opts a s of None \<Rightarrow> None | Some s' \<Rightarrow> perform_all opts as s')"

fun log_of :: "Options \<Rightarrow> action list \<Rightarrow> system \<Rightarrow> InferenceJob list" where
  "log_of opts [] s = []"
| "log_of opts (a # as) s =
     submitted_by a s @ (case perform opts a s of None \<Rightarrow> [] | Some s' \<Rightarrow> log_of opts as s')"

lemma reach_run:
  "reach opts cap jobs s \<Longrightarrow> list_all (budget_within opts cap) as \<Longrightarrow> perform_all opts as s = Some s' \<Longrightarrow>
   reach opts cap (jobs @ log_of opts as s) s'"
proof (induction as arbitrary: jobs s)
  case (Cons a as)
  from Cons.prems(3) obtain s1 where s1: "perform opts a s = Some s1" "perform_all opts as s1 = Some s'"
    by (auto split: option.splits)
  have "reach opts cap (jobs @ submitted_by a s) s1"
    by (rule reach_step [OF Cons.prems(1) _ s1(1)]) (use Cons.prems(2) in simp)
  from Cons.IH [OF this _ s1(2)] Cons.prems(2) s1(1) show ?case by simp
qed simp

subsection \<open>The steps, one by one\<close>

lemma fail_batch_nil: "(fail_batch [] (s\<lparr>rejected_jobs := rejected_jobs s + vector_size []\<rparr>)) = s"
  by (simp add: fail_batch_def)

lemma reject_oversized_split:
  assumes "reject_oversized opts candidates s = (rest, s')"
  obtains over where "mset over + mset rest = mset candidates"
    "s' = fail_batch over (s\<lparr>rejected_jobs := rejected_jobs s + vector_size over\<rparr>)"
    "\<forall>j \<in> set over. bytes_required j > max_job_bytes opts s \<and> max_job_bytes opts s > 0"
    "\<forall>j \<in> set rest. max_job_bytes opts s > 0 \<longrightarrow> bytes_required j \<le> max_job_bytes opts s"
proof -
  let ?m = "max_job_bytes opts s"
  let ?over = "if ?m > 0 then filter (\<lambda>j. bytes_required j > ?m) candidates else []"
  have rest: "rest = (if ?m > 0 then filter (\<lambda>j. \<not> bytes_required j > ?m) candidates else candidates)"
    using assms by (auto simp: reject_oversized_def split_oversized_filter Let_def split: if_splits)
  have "s' = (if ?over \<noteq> [] then fail_batch ?over (s\<lparr>rejected_jobs := rejected_jobs s + vector_size ?over\<rparr>) else s)"
    using assms by (auto simp: reject_oversized_def split_oversized_filter Let_def split: if_splits)
  then have "s' = fail_batch ?over (s\<lparr>rejected_jobs := rejected_jobs s + vector_size ?over\<rparr>)"
    using fail_batch_nil [of s] by (cases "?over = []") auto
  moreover have "mset ?over + mset rest = mset candidates"
    using mset_filter_partition [of "\<lambda>j. bytes_required j > ?m" candidates] by (simp add: rest)
  ultimately show ?thesis
    by (intro that [of ?over]) (auto simp: rest not_less)
qed

text \<open>The worker after a batch has run.\<close>

definition after_run :: "nat \<Rightarrow> InferenceJob list \<Rightarrow> exec_result \<Rightarrow> worker_ctx \<Rightarrow> system \<Rightarrow> system" where
  "after_run i batch r ctx s =
     set_worker i (case r of Published n \<Rightarrow> W_count n batch | Failed _ \<Rightarrow> W_release batch | Escaped _ \<Rightarrow> W_throw batch)
       (s\<lparr>workers := (workers s)[i := (workers s ! i)\<lparr>w_ctx := ctx\<rparr>]\<rparr>)"

lemma start_not_started: "start opts n stats mem s = Some s' \<Longrightarrow> \<not> started s"
  by (auto simp: start_def split: if_splits)

lemma perform_elim [consumes 1, case_names push count start_up flag join exit space drain absent
    filter_c pack_c requeue_c reserve_c publish_c w_exit w_take w_absent w_run w_count w_release w_throw]:
  assumes p: "perform opts a s = Some s'"
  obtains now job where "a = SubmitPush now job"
      "s' = (fst (submit_push now job s))\<lparr>counting := Suc (counting s)\<rparr>" "\<not> aborted s"
  | "a = SubmitCount" "0 < counting s" "s' = (submit_count s)\<lparr>counting := counting s - 1\<rparr>" "\<not> aborted s"
  | n stats mem where "a = Start n stats mem" "\<not> started s" "start opts n stats mem s = Some s'" "\<not> aborted s"
  | "a = StopFlag" "started s" "s' = s\<lparr>shutdown := True\<rparr>" "\<not> aborted s"
  | "a = StopJoin" "started s" "shutdown s" "all_joined s" "s' = s\<lparr>started := False\<rparr>" "\<not> aborted s"
  | now stats where "a = Dispatch now stats" "dpc s = D_space \<or> dpc s = D_queue" "shutdown s" "s' = s\<lparr>dpc := D_exit\<rparr>" "\<not> aborted s"
  | now stats where "a = Dispatch now stats" "dpc s = D_space" "\<not> shutdown s" "vector_size (batch_queue s) < max_queue_depth opts"
      "s' = s\<lparr>dpc := D_queue\<rparr>" "\<not> aborted s"
  | now stats candidates where "a = Dispatch now stats" "dpc s = D_queue" "\<not> shutdown s" "mset candidates = mset (queue s)"
      "queue s \<noteq> []" "drain_queue (queue s) = (candidates, [])"
      "s' = s\<lparr>queue := [], dpc := D_have candidates\<rparr>" "\<not> aborted s"
  | now stats candidates where "a = Dispatch now stats" "dpc s = D_have candidates" "gpu_absent s"
      "s' = (fail_batch candidates s)\<lparr>dpc := D_space\<rparr>" "\<not> aborted s"
  | now stats candidates over rest where "a = Dispatch now stats" "dpc s = D_have candidates" "\<not> gpu_absent s"
      "mset over + mset rest = mset candidates"
      "s' = (fail_batch over (s\<lparr>rejected_jobs := rejected_jobs s + vector_size over\<rparr>))\<lparr>dpc := D_pack rest\<rparr>" "\<not> aborted s"
  | now stats candidates ok sel rem where "a = Dispatch now stats" "dpc s = D_pack candidates"
      "pack_jobs now candidates (budget_bytes opts stats s) (opt_max_batch opts) = (ok, sel, rem)"
      "s' = s\<lparr>dpc := D_packed sel rem\<rparr>" "\<not> aborted s"
  | now stats sel rem where "a = Dispatch now stats" "dpc s = D_packed sel rem" "s' = requeue sel rem s" "\<not> aborted s"
  | now stats sel where "a = Dispatch now stats" "dpc s = D_reserve sel" "s' = reserve_batch sel s" "\<not> aborted s"
  | now stats sel where "a = Dispatch now stats" "dpc s = D_publish sel" "s' = publish_batch sel s" "\<not> aborted s"
  | i env d h where "a = Work i env d h" "i < length (workers s)" "w_pc (workers s ! i) = W_wait" "shutdown s"
      "batch_queue s = []" "s' = set_worker i W_exit s" "\<not> aborted s"
  | i env d h b rest where "a = Work i env d h" "i < length (workers s)" "w_pc (workers s ! i) = W_wait"
      "batch_queue s = b # rest" "s' = set_worker i (W_exec b) (s\<lparr>batch_queue := rest\<rparr>)" "\<not> aborted s"
  | i env d h b where "a = Work i env d h" "i < length (workers s)" "w_pc (workers s ! i) = W_exec b" "gpu_absent s"
      "s' = set_worker i (W_release b) (fail_batch b s)" "\<not> aborted s"
  | i env d h b r ctx' st s1 where "a = Work i env d h" "i < length (workers s)" "w_pc (workers s ! i) = W_exec b" "\<not> gpu_absent s"
      "execute_jobs env opts (w_ctx (workers s ! i)) b d h s = (r, ctx', st, s1)" "s' = after_run i b r ctx' s1" "\<not> aborted s"
  | i env d h n b where "a = Work i env d h" "i < length (workers s)" "w_pc (workers s ! i) = W_count n b"
      "s' = set_worker i (W_release b) (count_completed n s)" "\<not> aborted s"
  | i env d h b where "a = Work i env d h" "i < length (workers s)" "w_pc (workers s ! i) = W_release b"
      "s' = set_worker i W_wait (release_bytes (batch_bytes b) s)" "\<not> aborted s"
  | i env d h b where "a = Work i env d h" "i < length (workers s)" "w_pc (workers s ! i) = W_throw b"
      "s' = (set_worker i (W_crashed b) (release_bytes (batch_bytes b) s))\<lparr>aborted := True\<rparr>" "\<not> aborted s"
proof -
  have ab: "\<not> aborted s" using p by (auto simp: perform_def split: if_splits)
  show thesis
  proof (cases a)
    case (Dispatch now stats)
    with p ab have d: "dispatcher_step opts now stats s = Some s'" by (simp add: perform_def)
    show thesis
    proof (cases "dpc s")
      case D_queue
      show thesis
      proof (cases "shutdown s")
        case False
        obtain xs q where q: "drain_queue (queue s) = (xs, q)" by fastforce
        with d D_queue False drain_queue_mset [OF q] Dispatch ab show thesis
          by (intro that(8) [of now stats xs]) (auto simp: dispatcher_step_def drain_candidates_def split: if_splits)
      qed (use d D_queue Dispatch ab that(6) in \<open>auto simp: dispatcher_step_def drain_candidates_def split: if_splits\<close>)
    next
      case (D_have candidates)
      show thesis
      proof (cases "gpu_absent s")
        case False
        obtain rest s1 where r: "reject_oversized opts candidates s = (rest, s1)" by fastforce
        from reject_oversized_split [OF r] obtain over where "mset over + mset rest = mset candidates"
          "s1 = fail_batch over (s\<lparr>rejected_jobs := rejected_jobs s + vector_size over\<rparr>)" by metis
        with d D_have False r Dispatch ab that(10) show thesis
          by (simp add: dispatcher_step_def filter_candidates_def)
      qed (use d D_have Dispatch ab that(9) in \<open>auto simp: dispatcher_step_def filter_candidates_def\<close>)
    next
      case (D_pack candidates)
      obtain ok sel rem where "pack_jobs now candidates (budget_bytes opts stats s) (opt_max_batch opts) = (ok, sel, rem)"
        by (metis prod_cases3)
      with d D_pack Dispatch ab that(11) show thesis by (auto simp: dispatcher_step_def pack_candidates_def)
    qed (use d Dispatch ab that(6,7,12,13,14) in
      \<open>auto simp: dispatcher_step_def wait_space_def split: if_splits\<close>)
  next
    case (Work i env d h)
    with p ab have w: "worker_step opts env d h i s = Some s'" by (simp add: perform_def)
    then have i: "i < length (workers s)" by (auto simp: worker_step_def split: if_splits)
    show thesis
    proof (cases "w_pc (workers s ! i)")
      case W_wait
      with w i Work ab that(15,16) show thesis
        by (auto simp: worker_step_def take_batch_def split: if_splits list.splits)
    next
      case (W_exec b)
      show thesis
      proof (cases "gpu_absent s")
        case False
        obtain r ctx' st s1 where e: "execute_jobs env opts (w_ctx (workers s ! i)) b d h s = (r, ctx', st, s1)"
          by (metis prod_cases4)
        then have "s' = after_run i b r ctx' s1"
          using w i W_exec False by (cases r; simp add: worker_step_def run_batch_def after_run_def Let_def)
        with e i W_exec False Work ab that(18) show thesis by blast
      qed (use w i W_exec Work ab that(17) in \<open>auto simp: worker_step_def run_batch_def\<close>)
    qed (use w i Work ab that(19,20,21) in \<open>auto simp: worker_step_def\<close>)
  qed (use p ab that(1-5) in \<open>auto simp: perform_def stop_flag_def stop_join_def dest: start_not_started split: if_splits\<close>)
qed

subsection \<open>Sums over the workers\<close>

definition wsum :: "(worker_pc \<Rightarrow> 'a::comm_monoid_add) \<Rightarrow> system \<Rightarrow> 'a" where
  "wsum f s = sum_list (map (\<lambda>w. f (w_pc w)) (workers s))"

lemma sum_list_update:
  fixes g :: "'b \<Rightarrow> 'a::comm_monoid_add"
  shows "i < length xs \<Longrightarrow> sum_list (map g (xs[i := x])) + g (xs ! i) = sum_list (map g xs) + g x"
proof (induction xs arbitrary: i)
  case (Cons y xs)
  show ?case
  proof (cases i)
    case (Suc k)
    with Cons.IH [of k] Cons.prems show ?thesis by (simp add: add.assoc)
  qed (simp add: add_ac)
qed simp

lemma wsum_zero: "\<forall>w \<in> set (workers s). f (w_pc w) = 0 \<Longrightarrow> wsum f s = 0"
proof -
  have "\<forall>w \<in> set ws. f (w_pc w) = 0 \<Longrightarrow> sum_list (map (\<lambda>w. f (w_pc w)) ws) = 0" for ws
    by (induction ws) auto
  then show "\<forall>w \<in> set (workers s). f (w_pc w) = 0 \<Longrightarrow> ?thesis" by (simp add: wsum_def)
qed

lemma wsum_workers: "workers s' = workers s \<Longrightarrow> wsum f s' = wsum f s"
  by (simp add: wsum_def)

lemma workers_set_worker: "workers (set_worker i pc s) = (workers s)[i := (workers s ! i)\<lparr>w_pc := pc\<rparr>]"
  by (simp add: set_worker_def)

lemma set_worker_fields [simp]:
  "queue (set_worker i pc s) = queue s" "next_seq (set_worker i pc s) = next_seq s"
  "batch_queue (set_worker i pc s) = batch_queue s" "started (set_worker i pc s) = started s"
  "shutdown (set_worker i pc s) = shutdown s" "submitted (set_worker i pc s) = submitted s"
  "completed (set_worker i pc s) = completed s" "reserved (set_worker i pc s) = reserved s"
  "metrics (set_worker i pc s) = metrics s" "dpc (set_worker i pc s) = dpc s"
  "counting (set_worker i pc s) = counting s" "aborted (set_worker i pc s) = aborted s"
  "gpu_absent (set_worker i pc s) = gpu_absent s" "total_mem_bytes (set_worker i pc s) = total_mem_bytes s"
  "results (set_worker i pc s) = results s" "rejected_jobs (set_worker i pc s) = rejected_jobs s"
  by (simp_all add: set_worker_def)

text \<open>The change of a sum when worker \<open>i\<close> moves on, in a state \<open>s1\<close> with the same workers.\<close>

lemma wsum_set_worker:
  assumes "i < length (workers s)" "w_pc (workers s ! i) = pc0" "workers s1 = workers s"
  shows "wsum f (set_worker i pc s1) + f pc0 = wsum f s + f pc"
  using assms sum_list_update [of i "workers s" "\<lambda>w. f (w_pc w)" "(workers s ! i)\<lparr>w_pc := pc\<rparr>"]
  by (simp add: wsum_def workers_set_worker)

definition run_pc :: "InferenceJob list \<Rightarrow> exec_result \<Rightarrow> worker_pc" where
  "run_pc batch r =
     (case r of Published n \<Rightarrow> W_count n batch | Failed _ \<Rightarrow> W_release batch | Escaped _ \<Rightarrow> W_throw batch)"

lemma after_run_fields [simp]:
  "queue (after_run i b r c s) = queue s" "next_seq (after_run i b r c s) = next_seq s"
  "batch_queue (after_run i b r c s) = batch_queue s" "started (after_run i b r c s) = started s"
  "shutdown (after_run i b r c s) = shutdown s" "submitted (after_run i b r c s) = submitted s"
  "completed (after_run i b r c s) = completed s" "reserved (after_run i b r c s) = reserved s"
  "metrics (after_run i b r c s) = metrics s" "dpc (after_run i b r c s) = dpc s"
  "counting (after_run i b r c s) = counting s" "aborted (after_run i b r c s) = aborted s"
  "gpu_absent (after_run i b r c s) = gpu_absent s"
  by (simp_all add: after_run_def)

lemma after_run_workers:
  "i < length (workers s) \<Longrightarrow>
   workers (after_run i b r c s) = (workers s)[i := \<lparr>w_ctx = c, w_pc = run_pc b r\<rparr>]"
  by (cases "workers s ! i") (simp add: after_run_def workers_set_worker run_pc_def)

lemma wsum_after_run:
  assumes "i < length (workers s)" "w_pc (workers s ! i) = pc0" "workers s1 = workers s"
  shows "wsum f (after_run i b r c s1) + f pc0 = wsum f s + f (run_pc b r)"
  using assms sum_list_update [of i "workers s" "\<lambda>w. f (w_pc w)" "\<lparr>w_ctx = c, w_pc = run_pc b r\<rparr>"]
  by (simp add: wsum_def after_run_workers)

text \<open>What a batch run leaves of the whole state.\<close>

lemma system_more:
  "sched.more (s1 :: system) = sched.more s \<Longrightarrow>
   dpc s1 = dpc s \<and> workers s1 = workers s \<and> counting s1 = counting s \<and> aborted s1 = aborted s"
  by (cases s1; cases s) simp

lemma execute_jobs_system:
  assumes "b \<noteq> []" "execute_jobs env opts ctx b d h (s :: system) = (r, ctx', st, s1)"
  shows "queue s1 = queue s" "next_seq s1 = next_seq s" "batch_queue s1 = batch_queue s" "started s1 = started s"
    "shutdown s1 = shutdown s" "gpu_absent s1 = gpu_absent s" "submitted s1 = submitted s"
    "reserved s1 = reserved s" "dpc s1 = dpc s" "workers s1 = workers s" "counting s1 = counting s"
    "aborted s1 = aborted s"
  using execute_jobs_result [OF assms] system_more [of s1 s] by (simp_all add: batch_frame_def)

subsection \<open>Where the jobs are\<close>

fun held_by_dispatcher :: "dispatcher_pc \<Rightarrow> InferenceJob list" where
  "held_by_dispatcher (D_have js) = js"
| "held_by_dispatcher (D_pack js) = js"
| "held_by_dispatcher (D_packed sel rem) = sel @ rem"
| "held_by_dispatcher (D_reserve sel) = sel"
| "held_by_dispatcher (D_publish sel) = sel"
| "held_by_dispatcher _ = []"

text \<open>The jobs of a worker that are not reported yet.\<close>

fun held_by_worker :: "worker_pc \<Rightarrow> InferenceJob multiset" where
  "held_by_worker (W_exec b) = mset b"
| "held_by_worker (W_throw b) = mset b"
| "held_by_worker (W_crashed b) = mset b"
| "held_by_worker _ = {#}"

definition in_flight :: "system \<Rightarrow> InferenceJob multiset" where
  "in_flight s = mset (queue s) + mset (held_by_dispatcher (dpc s)) + mset (concat (batch_queue s)) +
     wsum held_by_worker s"

text \<open>Batches are never empty, and a published batch is counted in full.\<close>

fun worker_wf :: "worker_pc \<Rightarrow> bool" where
  "worker_wf (W_exec b) \<longleftrightarrow> b \<noteq> []"
| "worker_wf (W_count n b) \<longleftrightarrow> b \<noteq> [] \<and> n = length b"
| "worker_wf _ \<longleftrightarrow> True"

fun dispatcher_wf :: "dispatcher_pc \<Rightarrow> bool" where
  "dispatcher_wf (D_reserve sel) \<longleftrightarrow> sel \<noteq> []"
| "dispatcher_wf (D_publish sel) \<longleftrightarrow> sel \<noteq> []"
| "dispatcher_wf _ \<longleftrightarrow> True"

definition batches_wf :: "system \<Rightarrow> bool" where
  "batches_wf s \<longleftrightarrow> dispatcher_wf (dpc s) \<and> [] \<notin> set (batch_queue s) \<and>
     (\<forall>w \<in> set (workers s). worker_wf (w_pc w))"

lemma workers_update:
  "w \<in> set (ws[i := x]) \<Longrightarrow> w = x \<or> w \<in> set ws"
  by (auto dest!: subsetD [OF set_update_subset_insert])

lemma worker_at:
  assumes "batches_wf s" "i < length (workers s)"
  shows "worker_wf (w_pc (workers s ! i))"
  using assms nth_mem [of i "workers s"] unfolding batches_wf_def by blast

lemma new_system_simps [simp]:
  "queue new_system = []" "next_seq new_system = 0" "batch_queue new_system = []" "started new_system = False"
  "shutdown new_system = False" "submitted new_system = 0" "completed new_system = 0" "reserved new_system = 0"
  "metrics new_system = []" "dpc new_system = D_off" "workers new_system = []" "counting new_system = 0"
  "aborted new_system = False"
  by (simp_all add: new_system_def new_sched_def sched.extend_def system.fields_def pq_empty_def)

lemma batches_wf_step:
  assumes "batches_wf s" "perform opts a s = Some s'"
  shows "batches_wf s'"
  using assms(2)
proof (cases rule: perform_elim)
  case (start_up n stats mem)
  with assms(1) show ?thesis by (auto simp: start_def batches_wf_def split: if_splits)
next
  case (w_run i env d h b r ctx' st s1)
  have "b \<noteq> []" using worker_at [OF assms(1) w_run(2)] w_run(3) by simp
  note e = execute_jobs_system [OF this w_run(5)] execute_jobs_result [OF this w_run(5)]
  have "worker_wf (run_pc b r)" using e(13) \<open>b \<noteq> []\<close> by (cases r) (auto simp: run_pc_def)
  with assms(1) w_run(2,6) e(3,9,10) show ?thesis
    by (auto simp: batches_wf_def after_run_workers dest!: workers_update)
qed (use assms(1) in \<open>auto simp: batches_wf_def submit_push_def submit_count_def Let_def fail_batch_def
    requeue_def reserve_batch_def reserve_bytes_def publish_batch_def workers_set_worker count_completed_def
    release_bytes_def dest!: workers_update\<close>)

lemma reach_batches_wf: "reach opts cap jobs s \<Longrightarrow> batches_wf s"
  by (induction rule: reach.induct) (auto simp: batches_wf_def [of new_system] intro: batches_wf_step)

subsection \<open>The abstract scheduler: a pool of jobs\<close>

text \<open>What the scheduler promises, without its threads and queues: submitted jobs are pending until
  some of them are reported, each exactly once.\<close>

record pool =
  pending :: "InferenceJob multiset"
  reported :: "JobMetrics list"

definition job_tag :: "InferenceJob \<Rightarrow> u64 \<times> u64 \<times> i32" where
  "job_tag j = (job_id j, seq j, priority j)"

definition m_tag :: "JobMetrics \<Rightarrow> u64 \<times> u64 \<times> i32" where
  "m_tag m = (m_job_id m, m_seq m, m_priority m)"

inductive pool_step :: "InferenceJob list \<Rightarrow> pool \<Rightarrow> pool \<Rightarrow> bool" where
  pool_idle: "pool_step [] p p"
| pool_submit: "pending p' = add_mset j (pending p) \<Longrightarrow> reported p' = reported p \<Longrightarrow> pool_step [j] p p'"
| pool_report: "js \<noteq> [] \<Longrightarrow> pending p = pending p' + mset js \<Longrightarrow> reported p' = reported p @ ms \<Longrightarrow>
    map m_tag ms = map job_tag js \<Longrightarrow> pool_step [] p p'"

inductive pool_reach :: "InferenceJob list \<Rightarrow> pool \<Rightarrow> bool" where
  pool_start: "pool_reach [] \<lparr>pending = {#}, reported = []\<rparr>"
| pool_next: "pool_reach jobs p \<Longrightarrow> pool_step js p p' \<Longrightarrow> pool_reach (jobs @ js) p'"

definition abs_pool :: "system \<Rightarrow> pool" where
  "abs_pool s = \<lparr>pending = in_flight s, reported = metrics s\<rparr>"

lemma pool_conserves:
  "pool_reach jobs p \<Longrightarrow> image_mset job_tag (pending p) + mset (map m_tag (reported p)) = mset (map job_tag jobs)"
proof (induction rule: pool_reach.induct)
  case (pool_next jobs p js p')
  from pool_next(2) show ?case
  proof (cases rule: pool_step.cases)
    case (pool_report js' ms)
    from arg_cong [OF pool_report(5), of mset] pool_report(1,3,4) pool_next.IH show ?thesis
      by (simp add: add_ac)
  qed (use pool_next.IH in auto)
qed simp

lemma fail_tags: "m_tag (fail_metrics j) = job_tag j"
  by (simp add: m_tag_def job_tag_def fail_metrics_def)

lemma report_tags: "map m_tag (reports env js) = map job_tag js"
  by (rule nth_equalityI) (simp_all add: reports_def m_tag_def job_tag_def done_metrics_def nth_enumerate_eq)

text \<open>A report of some jobs out of those in flight, possibly none.\<close>

lemma pool_step_report:
  "in_flight s = in_flight s' + mset js \<Longrightarrow> metrics s' = metrics s @ ms \<Longrightarrow> map m_tag ms = map job_tag js \<Longrightarrow>
   pool_step [] (abs_pool s) (abs_pool s')"
proof (cases "js = []")
  case True
  assume "in_flight s = in_flight s' + mset js" "metrics s' = metrics s @ ms" "map m_tag ms = map job_tag js"
  with True have "abs_pool s' = abs_pool s" by (simp add: abs_pool_def)
  then show ?thesis by (simp add: pool_idle)
qed (rule pool_report; simp add: abs_pool_def)

lemma pool_step_idle: "in_flight s' = in_flight s \<Longrightarrow> metrics s' = metrics s \<Longrightarrow> pool_step [] (abs_pool s) (abs_pool s')"
  by (simp add: abs_pool_def pool_idle)

lemma in_flight_workers: "workers s' = workers s \<Longrightarrow> wsum held_by_worker s' = wsum held_by_worker s"
  by (rule wsum_workers)

text \<open>A restart needs a scheduler whose workers hold nothing.\<close>

definition lifecycle :: "Options \<Rightarrow> system \<Rightarrow> bool" where
  "lifecycle opts s \<longleftrightarrow>
     (started s \<longrightarrow> dpc s \<noteq> D_off \<and> length (workers s) = nat (sint (num_workers opts))) \<and>
     (\<not> started s \<longrightarrow> all_joined s) \<and>
     (\<not> shutdown s \<longrightarrow> dpc s \<noteq> D_exit \<and> (\<forall>w \<in> set (workers s). w_pc w \<noteq> W_exit)) \<and>
     (\<not> aborted s \<longrightarrow> (\<forall>w \<in> set (workers s). \<forall>b. w_pc w \<noteq> W_crashed b))"

lemma all_joined_start: "all_joined s \<Longrightarrow> i < length (workers s) \<Longrightarrow> w_pc (workers s ! i) = W_exit"
  by (simp add: all_joined_def)

lemma lifecycle_step:
  assumes "lifecycle opts s" "perform opts a s = Some s'" "batches_wf s"
  shows "lifecycle opts s'"
  using assms(2)
proof (cases rule: perform_elim)
  case (start_up n stats mem)
  with assms(1) show ?thesis by (auto simp: start_def lifecycle_def split: if_splits)
next
  case (w_run i env d h b r ctx' st s1)
  have "b \<noteq> []" using worker_at [OF assms(3) w_run(2)] w_run(3) by simp
  note e = execute_jobs_system [OF this w_run(5)]
  have "started s" using assms(1) w_run(2,3) by (auto simp: lifecycle_def dest: all_joined_start)
  moreover have "run_pc b r \<noteq> W_exit" "\<And>b'. run_pc b r \<noteq> W_crashed b'"
    by (simp_all add: run_pc_def split: exec_result.splits)
  ultimately show ?thesis using assms(1) w_run(2,6) e(4,5,9,10,12)
    by (auto simp: lifecycle_def after_run_workers dest!: workers_update)
qed (use assms(1) in \<open>auto simp: lifecycle_def all_joined_def submit_push_def submit_count_def Let_def fail_batch_def
    requeue_def reserve_batch_def reserve_bytes_def publish_batch_def workers_set_worker count_completed_def
    release_bytes_def dest!: workers_update\<close>)

lemma reach_lifecycle: "reach opts cap jobs s \<Longrightarrow> lifecycle opts s"
proof (induction rule: reach.induct)
  case (reach_step jobs s a s')
  with lifecycle_step reach_batches_wf show ?case by blast
qed (simp add: lifecycle_def all_joined_def)

subsection \<open>The threads refine the pool\<close>

lemma all_joined_holds_nothing: "all_joined s \<Longrightarrow> wsum held_by_worker s = {#} \<and> held_by_dispatcher (dpc s) = []"
  by (auto simp: all_joined_def intro!: wsum_zero)

text \<open>A worker's move from one program counter to another, in the multiset of jobs.\<close>

lemma in_flight_set_worker:
  assumes "i < length (workers s)" "w_pc (workers s ! i) = pc0" "workers s1 = workers s"
    "queue s1 = queue s" "dpc s1 = dpc s"
  shows "in_flight (set_worker i pc s1) + held_by_worker pc0 + mset (concat (batch_queue s)) =
    in_flight s + held_by_worker pc + mset (concat (batch_queue s1))"
  using wsum_set_worker [OF assms(1-3), of held_by_worker pc] assms(4,5)
  by (simp add: in_flight_def add_ac)

lemma step_refines:
  assumes wf: "batches_wf s" "lifecycle opts s" and p: "perform opts a s = Some s'"
  shows "pool_step (submitted_by a s) (abs_pool s) (abs_pool s')"
  using p
proof (cases rule: perform_elim)
  case (push now job)
  then show ?thesis
    by (auto simp: abs_pool_def in_flight_def submit_push_def Let_def pq.elems_push
        intro!: pool_submit arg_cong2 [of _ _ _ _ "(+)"] in_flight_workers)
next
  case (count)
  then show ?thesis
    by (auto simp: in_flight_def submit_count_def intro!: pool_step_idle wsum_workers)
next
  case (start_up n stats mem)
  from wf(2) start_up(2) all_joined_holds_nothing [of s]
  have "wsum held_by_worker s = {#} \<and> held_by_dispatcher (dpc s) = []" by (simp add: lifecycle_def)
  moreover have "wsum held_by_worker s' = {#}"
    using start_up(3) by (auto simp: start_def split: if_splits intro!: wsum_zero)
  ultimately show ?thesis using start_up(1,3)
    by (auto simp: start_def in_flight_def split: if_splits intro!: pool_step_idle)
next
  case (absent now stats js)
  then show ?thesis
    by (auto simp: in_flight_def fail_batch_def fail_tags add_ac wsum_def intro!: pool_step_report)
next
  case (filter_c now stats js over rest)
  then have "mset js = mset over + mset rest" by simp
  with filter_c show ?thesis
    by (auto simp: in_flight_def fail_batch_def fail_tags add_ac wsum_def
        intro!: pool_step_report [of _ _ over "map fail_metrics over"])
next
  case (pack_c now stats js ok sel rem)
  with pack_jobs_mset [OF pack_c(3)] show ?thesis
    by (auto simp: in_flight_def wsum_def simp flip: pack_jobs_mset intro!: pool_step_idle)
next
  case (w_exit i env d h)
  from in_flight_set_worker [OF w_exit(2,3), of s W_exit] w_exit show ?thesis
    by (auto intro!: pool_step_idle)
next
  case (w_take i env d h b rest)
  from in_flight_set_worker [OF w_take(2,3), of "s\<lparr>batch_queue := rest\<rparr>" "W_exec b"] w_take show ?thesis
    by (auto simp: add_ac intro!: pool_step_idle)
next
  case (w_absent i env d h b)
  from in_flight_set_worker [OF w_absent(2,3), of "fail_batch b s" "W_release b"] w_absent show ?thesis
    by (auto simp: fail_batch_def fail_tags intro!: pool_step_report [of _ _ b "map fail_metrics b"])
next
  case (w_run i env d h b r ctx' st s1)
  have b: "b \<noteq> []" using worker_at [OF wf(1) w_run(2)] w_run(3) by simp
  note e = execute_jobs_system [OF b w_run(5)] execute_jobs_result [OF b w_run(5)]
  have fl: "in_flight s' + mset b = in_flight s + held_by_worker (run_pc b r)"
    using wsum_after_run [OF w_run(2,3) e(10), of held_by_worker b r ctx'] w_run(6) e(1,3,9)
    by (simp add: in_flight_def add_ac)
  show ?thesis
  proof (cases r)
    case (Published n)
    then have "in_flight s = in_flight s' + mset b" using fl by (simp add: run_pc_def)
    with Published e(13) w_run(1,6) show ?thesis
      by (auto simp: report_tags intro!: pool_step_report [of _ _ b "reports env b"])
  next
    case (Failed x)
    then have "in_flight s = in_flight s' + mset b" using fl by (simp add: run_pc_def)
    with Failed e(13) w_run(1,6) show ?thesis
      by (auto simp: fail_tags intro!: pool_step_report [of _ _ b "map fail_metrics b"])
  next
    case (Escaped x)
    then have "in_flight s' = in_flight s" "metrics s' = metrics s" using fl e(13) w_run(6)
      by (auto simp: run_pc_def)
    with w_run(1) show ?thesis by (auto intro!: pool_step_idle)
  qed
next
  case (w_count i env d h n b)
  from in_flight_set_worker [OF w_count(2,3), of "count_completed n s" "W_release b"] w_count show ?thesis
    by (auto simp: count_completed_def intro!: pool_step_idle)
next
  case (w_release i env d h b)
  from in_flight_set_worker [OF w_release(2,3), of "release_bytes (batch_bytes b) s" W_wait] w_release show ?thesis
    by (auto simp: release_bytes_def intro!: pool_step_idle)
next
  case (w_throw i env d h b)
  from in_flight_set_worker [OF w_throw(2,3), of "release_bytes (batch_bytes b) s" "W_crashed b"] w_throw
  show ?thesis
    by (auto simp: release_bytes_def in_flight_def wsum_def intro!: pool_step_idle)
qed (auto simp: in_flight_def wsum_def requeue_def reserve_batch_def reserve_bytes_def publish_batch_def
    add_ac intro!: pool_step_idle)

lemma reach_pool: "reach opts cap jobs s \<Longrightarrow> pool_reach jobs (abs_pool s)"
proof (induction rule: reach.induct)
  case reach_init
  have "abs_pool new_system = \<lparr>pending = {#}, reported = []\<rparr>"
    by (simp add: abs_pool_def in_flight_def wsum_def)
  then show ?case by (simp add: pool_start)
next
  case (reach_step jobs s a s')
  from step_refines [OF reach_batches_wf [OF reach_step(1)] reach_lifecycle [OF reach_step(1)] reach_step(3)]
    reach_step.IH show ?case by (rule pool_next [rotated])
qed

text \<open>
  C1.  The scheduler implements the pool: whatever the interleaving of submitters, dispatcher,
  workers, \<open>start\<close> and \<open>stop\<close>, and whatever CUDA, the clock and the telemetry answer,
  every reachable state maps to a state of the abstract pool that the same submissions reach.
\<close>

theorem scheduler_refines_pool:
  assumes "reach opts cap jobs s"
  shows "pool_reach jobs (abs_pool s)"
  by (rule reach_pool [OF assms])

subsection \<open>Sequence numbers and counters\<close>

text \<open>Reported jobs that \<open>completed_\<close> does not count yet.\<close>

fun uncounted :: "worker_pc \<Rightarrow> nat" where
  "uncounted (W_count n b) = n"
| "uncounted _ = 0"

definition counters :: "InferenceJob list \<Rightarrow> system \<Rightarrow> bool" where
  "counters jobs s \<longleftrightarrow> next_seq s = word_of_nat (length jobs) \<and>
     map seq jobs = map word_of_nat [0..<length jobs] \<and>
     submitted s + word_of_nat (counting s) = word_of_nat (length jobs) \<and>
     counting s \<le> length jobs \<and>
     completed s + word_of_nat (wsum uncounted s) = word_of_nat (length (metrics s))"

lemma wsum_uncounted_step:
  assumes "i < length (workers s)" "w_pc (workers s ! i) = pc0" "workers s1 = workers s"
  shows "(word_of_nat (wsum uncounted (set_worker i pc s1)) :: u64) + word_of_nat (uncounted pc0) =
    word_of_nat (wsum uncounted s) + word_of_nat (uncounted pc)"
  using arg_cong [OF wsum_set_worker [OF assms, of uncounted pc], of "word_of_nat :: nat \<Rightarrow> u64"] by simp

lemma counters_step:
  assumes inv: "counters jobs s" and wf: "batches_wf s" "lifecycle opts s"
    and p: "perform opts a s = Some s'"
  shows "counters (jobs @ submitted_by a s) s'"
  using p
proof (cases rule: perform_elim)
  case (push now job)
  then show ?thesis using inv
    by (auto simp: counters_def submit_push_def Let_def stamp_def wsum_def add_ac)
next
  case count
  obtain c where "counting s = Suc c" using count(2) by (cases "counting s") auto
  with count inv show ?thesis
    by (auto simp: counters_def submit_count_def wsum_def add_ac)
next
  case (start_up n stats mem)
  have "wsum uncounted s = 0"
    using wf(2) start_up(2) by (auto simp: lifecycle_def all_joined_def intro!: wsum_zero)
  moreover have "wsum uncounted s' = 0"
    using start_up(3) by (auto simp: start_def split: if_splits intro!: wsum_zero)
  ultimately show ?thesis using inv start_up(1,3)
    by (auto simp: counters_def start_def split: if_splits)
next
  case (absent now stats js)
  with inv show ?thesis by (auto simp: counters_def fail_batch_def wsum_def add_ac)
next
  case (filter_c now stats js over rest)
  with inv show ?thesis by (auto simp: counters_def fail_batch_def wsum_def add_ac)
next
  case (w_exit i env d h)
  from wsum_uncounted_step [OF w_exit(2,3), of s W_exit] w_exit inv show ?thesis by (auto simp: counters_def)
next
  case (w_take i env d h b rest)
  from wsum_uncounted_step [OF w_take(2,3), of "s\<lparr>batch_queue := rest\<rparr>" "W_exec b"] w_take inv
  show ?thesis by (auto simp: counters_def)
next
  case (w_absent i env d h b)
  from wsum_uncounted_step [OF w_absent(2,3), of "fail_batch b s" "W_release b"] w_absent inv
  show ?thesis by (auto simp: counters_def fail_batch_def algebra_simps)
next
  case (w_run i env d h b r ctx' st s1)
  have b: "b \<noteq> []" using worker_at [OF wf(1) w_run(2)] w_run(3) by simp
  note e = execute_jobs_system [OF b w_run(5)] execute_jobs_result [OF b w_run(5)]
  have sum: "wsum uncounted s' = wsum uncounted s + uncounted (run_pc b r)"
    using wsum_after_run [OF w_run(2,3) e(10), of uncounted b r ctx'] w_run(6) by simp
  have "length (reports env b) = length b" by (simp add: reports_def)
  then have "completed s1 + word_of_nat (uncounted (run_pc b r)) =
      completed s + word_of_nat (length (metrics s1)) - word_of_nat (length (metrics s))"
    using e(13) by (cases r) (auto simp: run_pc_def)
  then have "completed s1 + word_of_nat (uncounted (run_pc b r)) + word_of_nat (wsum uncounted s) =
      (completed s + word_of_nat (wsum uncounted s)) + word_of_nat (length (metrics s1)) - word_of_nat (length (metrics s))"
    by simp
  also have "\<dots> = word_of_nat (length (metrics s1))" using inv by (simp add: counters_def)
  finally have "completed s1 + word_of_nat (wsum uncounted s + uncounted (run_pc b r)) =
      word_of_nat (length (metrics s1))" by (simp add: add_ac)
  with sum inv w_run(1,6) e(2,7,11) show ?thesis by (auto simp: counters_def)
next
  case (w_count i env d h n b)
  from wsum_uncounted_step [OF w_count(2,3), of "count_completed n s" "W_release b"] w_count inv
  show ?thesis by (auto simp: counters_def count_completed_def) (metis add.assoc add.commute)
next
  case (w_release i env d h b)
  from wsum_uncounted_step [OF w_release(2,3), of "release_bytes (batch_bytes b) s" W_wait] w_release inv
  show ?thesis by (auto simp: counters_def release_bytes_def)
next
  case (w_throw i env d h b)
  have "wsum uncounted s' = wsum uncounted (set_worker i (W_crashed b) (release_bytes (batch_bytes b) s))"
    using w_throw by (intro wsum_workers) simp
  with wsum_uncounted_step [OF w_throw(2,3), of "release_bytes (batch_bytes b) s" "W_crashed b"] w_throw inv
  show ?thesis by (auto simp: counters_def release_bytes_def)
qed (use inv in \<open>auto simp: counters_def wsum_def requeue_def reserve_batch_def reserve_bytes_def publish_batch_def\<close>)

lemma reach_counters: "reach opts cap jobs s \<Longrightarrow> counters jobs s"
proof (induction rule: reach.induct)
  case (reach_step jobs s a s')
  with counters_step reach_batches_wf reach_lifecycle show ?case by blast
qed (simp add: counters_def wsum_def)

text \<open>The reported jobs that are counted only grow in number.\<close>

lemma counted_grows:
  assumes wf: "batches_wf s" and p: "perform opts a s = Some s'"
  shows "length (metrics s) + wsum uncounted s' \<le> length (metrics s') + wsum uncounted s"
  using p
proof (cases rule: perform_elim)
  case (start_up n stats mem)
  then have "wsum uncounted s' = 0" "metrics s' = metrics s"
    by (auto simp: start_def split: if_splits intro!: wsum_zero)
  then show ?thesis by simp
next
  case (w_exit i env d h)
  from wsum_set_worker [OF w_exit(2,3), of s uncounted W_exit] w_exit show ?thesis by simp
next
  case (w_take i env d h b rest)
  from wsum_set_worker [OF w_take(2,3), of "s\<lparr>batch_queue := rest\<rparr>" uncounted "W_exec b"] w_take
  show ?thesis by simp
next
  case (w_absent i env d h b)
  from wsum_set_worker [OF w_absent(2,3), of "fail_batch b s" uncounted "W_release b"] w_absent
  show ?thesis by (simp add: fail_batch_def)
next
  case (w_run i env d h b r ctx' st s1)
  have b: "b \<noteq> []" using worker_at [OF wf(1) w_run(2)] w_run(3) by simp
  note e = execute_jobs_system [OF b w_run(5)] execute_jobs_result [OF b w_run(5)]
  have "wsum uncounted s' = wsum uncounted s + uncounted (run_pc b r)"
    using wsum_after_run [OF w_run(2,3) e(10), of uncounted b r ctx'] w_run(6) by simp
  moreover have "length (metrics s) + uncounted (run_pc b r) \<le> length (metrics s1)"
    using e(13) by (cases r) (auto simp: run_pc_def reports_def)
  ultimately show ?thesis using w_run(6) by simp
next
  case (w_count i env d h n b)
  from wsum_set_worker [OF w_count(2,3), of "count_completed n s" uncounted "W_release b"] w_count
  show ?thesis by (simp add: count_completed_def)
next
  case (w_release i env d h b)
  from wsum_set_worker [OF w_release(2,3), of "release_bytes (batch_bytes b) s" uncounted W_wait] w_release
  show ?thesis by (simp add: release_bytes_def)
next
  case (w_throw i env d h b)
  have "wsum uncounted s' = wsum uncounted (set_worker i (W_crashed b) (release_bytes (batch_bytes b) s))"
    using w_throw by (intro wsum_workers) simp
  with wsum_set_worker [OF w_throw(2,3), of "release_bytes (batch_bytes b) s" uncounted "W_crashed b"] w_throw
  show ?thesis by (simp add: release_bytes_def)
qed (auto simp: wsum_def submit_push_def submit_count_def Let_def fail_batch_def requeue_def
    reserve_batch_def reserve_bytes_def publish_batch_def)

lemma reach_uncounted_le: "reach opts cap jobs s \<Longrightarrow> wsum uncounted s \<le> length (metrics s)"
proof (induction rule: reach.induct)
  case (reach_step jobs s a s')
  from counted_grows [OF reach_batches_wf [OF reach_step.hyps(1)] reach_step.hyps(3)] reach_step.IH show ?case by linarith
qed (simp add: wsum_def)

lemma reach_conserves:
  assumes "reach opts cap jobs s"
  shows "image_mset job_tag (in_flight s) + mset (map m_tag (metrics s)) = mset (map job_tag jobs)"
  using pool_conserves [OF reach_pool [OF assms]] by (simp add: abs_pool_def)

lemma reach_seqs_distinct:
  assumes "reach opts cap jobs s" "length jobs \<le> 2 ^ 64"
  shows "distinct (map seq jobs)"
  using reach_counters [OF assms(1)] distinct_word_of_nat_upt [OF assms(2)]
  by (simp add: counters_def)

text \<open>
  C2.  Every submitted job is reported at most once, and none is lost or made up: in every
  reachable state the jobs in flight (queued, held by the dispatcher, in a published batch, or
  held by a worker) and the reported jobs are together exactly the submitted jobs, and no two
  reports have the same sequence number.
\<close>

theorem every_job_reported_once:
  assumes "reach opts cap jobs s" "length jobs \<le> 2 ^ 64"
  shows "image_mset job_tag (in_flight s) + mset (map m_tag (metrics s)) = mset (map job_tag jobs) \<and>
    distinct (map m_seq (metrics s)) \<and>
    (\<forall>j \<in># in_flight s. seq j \<notin> m_seq ` set (metrics s))"
proof -
  note cons = reach_conserves [OF assms(1)]
  have "image_mset (fst \<circ> snd) (image_mset job_tag (in_flight s)) +
      image_mset (fst \<circ> snd) (mset (map m_tag (metrics s))) = image_mset (fst \<circ> snd) (mset (map job_tag jobs))"
    by (simp only: cons [symmetric] image_mset_union)
  then have seqs: "image_mset seq (in_flight s) + mset (map m_seq (metrics s)) = mset (map seq jobs)"
    by (simp add: job_tag_def m_tag_def multiset.map_comp comp_def)
  obtain fl where fl: "mset fl = in_flight s" using ex_mset by blast
  have "mset (map seq fl @ map m_seq (metrics s)) = mset (map seq jobs)" using seqs fl by simp
  then have "distinct (map seq fl @ map m_seq (metrics s))"
    using reach_seqs_distinct [OF assms] mset_eq_imp_distinct_iff by blast
  moreover have "set_mset (in_flight s) = set fl" by (simp flip: fl)
  ultimately show ?thesis using cons by auto
qed

text \<open>The counters as numbers of jobs, when all calls of \<open>submit\<close> have returned.\<close>

lemma reach_numbers:
  assumes "reach opts cap jobs s" "length jobs < 2 ^ 64" "counting s = 0"
  shows "unat (submitted s) = length jobs" "unat (completed s) = length (metrics s) - wsum uncounted s"
    "wsum uncounted s \<le> length (metrics s)" "size (in_flight s) + length (metrics s) = length jobs"
    "unat (queued s) = length (queue s)" "length (queue s) \<le> size (in_flight s)"
proof -
  note c = reach_counters [OF assms(1)]
  show size: "size (in_flight s) + length (metrics s) = length jobs"
    using arg_cong [OF reach_conserves [OF assms(1)], of size] by simp
  show "unat (submitted s) = length jobs"
    using c assms(2,3) by (simp add: counters_def unsigned_of_nat take_bit_nat_eq_self)
  show le: "wsum uncounted s \<le> length (metrics s)" by (rule reach_uncounted_le [OF assms(1)])
  have "completed s = word_of_nat (length (metrics s)) - word_of_nat (wsum uncounted s)"
    using c by (simp add: counters_def eq_diff_eq)
  also have "\<dots> = word_of_nat (length (metrics s) - wsum uncounted s)" using le by simp
  finally show "unat (completed s) = length (metrics s) - wsum uncounted s"
    using size assms(2) by (simp add: unsigned_of_nat take_bit_nat_eq_self)
  show q: "length (queue s) \<le> size (in_flight s)" by (simp add: in_flight_def)
  then show "unat (queued s) = length (queue s)"
    using size assms(2) by (simp add: queued_def unsigned_of_nat take_bit_nat_eq_self)
qed

subsection \<open>The batch queue and the reservations\<close>

text \<open>Packing room: while the dispatcher has passed the wait for space, one batch fits.\<close>

fun has_room :: "dispatcher_pc \<Rightarrow> bool" where
  "has_room (D_space) \<longleftrightarrow> False"
| "has_room (D_exit) \<longleftrightarrow> False"
| "has_room (D_off) \<longleftrightarrow> False"
| "has_room _ \<longleftrightarrow> True"

definition depth_inv :: "Options \<Rightarrow> system \<Rightarrow> bool" where
  "depth_inv opts s \<longleftrightarrow> length (batch_queue s) \<le> unat (max_queue_depth opts) \<and>
     (has_room (dpc s) \<longrightarrow> length (batch_queue s) < unat (max_queue_depth opts))"

lemma depth_step:
  assumes inv: "depth_inv opts s" and wf: "batches_wf s" and p: "perform opts a s = Some s'"
  shows "depth_inv opts s'"
  using p
proof (cases rule: perform_elim)
  case (start_up n stats mem)
  then show ?thesis using inv by (auto simp: depth_inv_def start_def split: if_splits)
next
  case (space now stats)
  have "unat (max_queue_depth opts) < 2 ^ 64" using unsigned_less [of "max_queue_depth opts"] by simp
  then have "length (batch_queue s) < 2 ^ 64" using inv by (simp add: depth_inv_def)
  with space inv show ?thesis
    by (simp add: depth_inv_def word_less_nat_alt unsigned_of_nat take_bit_nat_eq_self)
next
  case (w_run i env d h b r ctx' st s1)
  have b: "b \<noteq> []" using worker_at [OF wf(1) w_run(2)] w_run(3) by simp
  from execute_jobs_system [OF b w_run(5)] w_run(6) inv show ?thesis by (simp add: depth_inv_def)
qed (use inv in \<open>auto simp: depth_inv_def submit_push_def submit_count_def Let_def fail_batch_def requeue_def
    reserve_batch_def reserve_bytes_def publish_batch_def count_completed_def release_bytes_def\<close>)

text \<open>The batches whose bytes are reserved.\<close>

fun reserved_by_dispatcher :: "dispatcher_pc \<Rightarrow> InferenceJob list multiset" where
  "reserved_by_dispatcher (D_publish sel) = {#sel#}"
| "reserved_by_dispatcher _ = {#}"

fun reserved_by_worker :: "worker_pc \<Rightarrow> InferenceJob list multiset" where
  "reserved_by_worker (W_exec b) = {#b#}"
| "reserved_by_worker (W_count n b) = {#b#}"
| "reserved_by_worker (W_release b) = {#b#}"
| "reserved_by_worker (W_throw b) = {#b#}"
| "reserved_by_worker _ = {#}"

definition outstanding :: "system \<Rightarrow> InferenceJob list multiset" where
  "outstanding s = reserved_by_dispatcher (dpc s) + mset (batch_queue s) + wsum reserved_by_worker s"

text \<open>The batch that the dispatcher has packed and not reserved yet.\<close>

fun packed_batch :: "dispatcher_pc \<Rightarrow> InferenceJob list" where
  "packed_batch (D_packed sel rem) = sel"
| "packed_batch (D_reserve sel) = sel"
| "packed_batch _ = []"

definition ledger_inv :: "nat \<Rightarrow> system \<Rightarrow> bool" where
  "ledger_inv cap s \<longleftrightarrow> unat (reserved s) = (\<Sum>b \<in># outstanding s. unat (batch_bytes b)) \<and>
     unat (reserved s) + sum_bytes (packed_batch (dpc s)) \<le> cap \<and>
     (\<forall>b \<in># outstanding s. unat (batch_bytes b) = sum_bytes b)"

lemma outstanding_set_worker:
  assumes "i < length (workers s)" "w_pc (workers s ! i) = pc0" "workers s1 = workers s" "dpc s1 = dpc s"
  shows "outstanding (set_worker i pc s1) + reserved_by_worker pc0 + mset (batch_queue s) =
    outstanding s + reserved_by_worker pc + mset (batch_queue s1)"
  using wsum_set_worker [OF assms(1-3), of reserved_by_worker pc] assms(4)
  by (simp add: outstanding_def add_ac)

text \<open>A worker releases its batch.\<close>

lemma ledger_release:
  assumes inv: "ledger_inv cap s" and w: "i < length (workers s)" "w_pc (workers s ! i) = pc0"
    and pc: "reserved_by_worker pc0 = {#b#}" "reserved_by_worker pc = {#}"
  shows "ledger_inv cap (set_worker i pc (release_bytes (batch_bytes b) s))"
proof -
  let ?s = "release_bytes (batch_bytes b) s"
  have out: "outstanding s = add_mset b (outstanding (set_worker i pc ?s))"
    using outstanding_set_worker [OF w, of ?s pc] pc by (simp add: release_bytes_def)
  have "unat (reserved ?s) = (\<Sum>b \<in># outstanding (set_worker i pc ?s). unat (batch_bytes b))"
    by (rule ledger.take_batch) (use inv out in \<open>simp add: ledger_inv_def\<close>)
  moreover have "unat (reserved ?s) \<le> unat (reserved s)"
    by (auto simp: release_bytes_def unat_sub word_le_nat_alt word_less_nat_alt)
  ultimately show ?thesis using inv out by (simp add: ledger_inv_def) (simp add: release_bytes_def)
qed

lemma ledger_same:
  "ledger_inv cap s \<Longrightarrow> reserved s' = reserved s \<Longrightarrow> outstanding s' = outstanding s \<Longrightarrow>
   sum_bytes (packed_batch (dpc s')) \<le> sum_bytes (packed_batch (dpc s)) \<Longrightarrow> ledger_inv cap s'"
  by (simp add: ledger_inv_def)

lemma ledger_step:
  assumes inv: "ledger_inv cap s" and cap: "cap < 2 ^ 63" and wf: "batches_wf s" "lifecycle opts s"
    and bw: "budget_within opts cap a" and p: "perform opts a s = Some s'"
  shows "ledger_inv cap s'"
  using p
proof (cases rule: perform_elim)
  case (start_up n stats mem)
  have "wsum reserved_by_worker s = {#}"
    using wf(2) start_up(2) by (auto simp: lifecycle_def all_joined_def intro!: wsum_zero)
  moreover have "wsum reserved_by_worker s' = {#}"
    using start_up(3) by (auto simp: start_def split: if_splits intro!: wsum_zero)
  moreover have "dpc s = D_off \<or> dpc s = D_exit"
    using wf(2) start_up(2) by (auto simp: lifecycle_def all_joined_def)
  ultimately show ?thesis using start_up(3) inv
    by (auto simp: start_def ledger_inv_def outstanding_def split: if_splits)
next
  case (pack_c now stats js ok sel rem)
  let ?B = "budget_bytes opts stats s"
  have B: "unat ?B + unat (reserved s) \<le> cap \<or> unat ?B = 0"
    using bw pack_c(1) by (auto simp: unat_budget_bytes budget_within_def split: option.splits)
  have rc: "unat (reserved s) \<le> cap" using inv by (simp add: ledger_inv_def)
  with B cap have "unat ?B < 2 ^ 63" by auto
  from pack_jobs_budget [OF pack_c(3) this] B rc have "unat (reserved s) + sum_bytes sel \<le> cap" by auto
  with inv pack_c(2,4) show ?thesis by (simp add: ledger_inv_def outstanding_def wsum_def)
next
  case (requeue_c now stats sel rem)
  with inv show ?thesis by (auto simp: ledger_inv_def outstanding_def requeue_def wsum_def)
next
  case (reserve_c now stats sel)
  have fits: "unat (reserved s) + sum_bytes sel \<le> cap" using inv reserve_c(2) by (simp add: ledger_inv_def)
  then have bytes: "unat (batch_bytes sel) = sum_bytes sel" using cap by (simp add: unat_batch_bytes)
  have add: "unat (reserved (reserve_bytes (batch_bytes sel) s)) = unat (reserved s) + sum_bytes sel"
    using ledger.add_exact [of s "batch_bytes sel"] fits bytes cap by simp
  have "outstanding s' = add_mset sel (outstanding s)"
    using reserve_c(2,3) by (simp add: outstanding_def reserve_batch_def reserve_bytes_def wsum_def)
  with inv add bytes fits reserve_c(3) show ?thesis
    by (simp add: ledger_inv_def reserve_batch_def)
next
  case (publish_c now stats sel)
  then have "outstanding s' = outstanding s"
    by (simp add: outstanding_def publish_batch_def wsum_def)
  with inv publish_c show ?thesis by (intro ledger_same [OF inv]) (simp_all add: publish_batch_def)
next
  case (w_exit i env d h)
  from outstanding_set_worker [OF w_exit(2,3), of s W_exit] w_exit show ?thesis
    by (intro ledger_same [OF inv]) simp_all
next
  case (w_take i env d h b rest)
  from outstanding_set_worker [OF w_take(2,3), of "s\<lparr>batch_queue := rest\<rparr>" "W_exec b"] w_take show ?thesis
    by (intro ledger_same [OF inv]) simp_all
next
  case (w_absent i env d h b)
  from outstanding_set_worker [OF w_absent(2,3), of "fail_batch b s" "W_release b"] w_absent show ?thesis
    by (intro ledger_same [OF inv]) (simp_all add: fail_batch_def)
next
  case (w_run i env d h b r ctx' st s1)
  have b: "b \<noteq> []" using worker_at [OF wf(1) w_run(2)] w_run(3) by simp
  note e = execute_jobs_system [OF b w_run(5)]
  have "reserved_by_worker (run_pc b r) = {#b#}" by (simp add: run_pc_def split: exec_result.splits)
  then have "outstanding s' = outstanding s"
    using wsum_after_run [OF w_run(2,3) e(10), of reserved_by_worker b r ctx'] w_run(6) e(3,9)
    by (simp add: outstanding_def)
  with w_run(6) e(8,9) show ?thesis by (intro ledger_same [OF inv]) simp_all
next
  case (w_count i env d h n b)
  from outstanding_set_worker [OF w_count(2,3), of "count_completed n s" "W_release b"] w_count show ?thesis
    by (intro ledger_same [OF inv]) (simp_all add: count_completed_def)
next
  case (w_release i env d h b)
  with ledger_release [OF inv w_release(2,3)] show ?thesis by simp
next
  case (w_throw i env d h b)
  have "ledger_inv cap (set_worker i (W_crashed b) (release_bytes (batch_bytes b) s))"
    by (rule ledger_release [OF inv w_throw(2,3)]) simp_all
  with w_throw(4) show ?thesis by (simp add: ledger_inv_def outstanding_def wsum_def)
qed (use inv in \<open>auto simp: ledger_inv_def outstanding_def wsum_def submit_push_def submit_count_def Let_def
    fail_batch_def\<close>)

lemma reach_ledger: "reach opts cap jobs s \<Longrightarrow> cap < 2 ^ 63 \<Longrightarrow> ledger_inv cap s"
proof (induction rule: reach.induct)
  case (reach_step jobs s a s')
  with ledger_step reach_batches_wf reach_lifecycle show ?case by blast
qed (simp add: ledger_inv_def outstanding_def wsum_def)

lemma max_queue_depth_ge: "2 \<le> unat (max_queue_depth opts)"
  by (auto simp: max_queue_depth_def max_def word_le_nat_alt)

lemma reach_depth: "reach opts cap jobs s \<Longrightarrow> depth_inv opts s"
proof (induction rule: reach.induct)
  case (reach_step jobs s a s')
  with depth_step reach_batches_wf show ?case by blast
qed (simp add: depth_inv_def)

text \<open>
  C3.  The reservations are exact: while the budgets stay below \<open>2 ^ 63\<close>,
  \<open>reserved_bytes_\<close> is in every reachable state the number of bytes of the batches that are
  packed and not finished (being published, queued, or with a worker), and never more than the
  largest budget seen, so these batches together never overcommit it.
\<close>

theorem reservations_exact:
  assumes "reach opts cap jobs s" "cap < 2 ^ 63"
  shows "unat (reserved s) = (\<Sum>b \<in># outstanding s. nat_sum bytes_required b) \<and> unat (reserved s) \<le> cap"
proof -
  note inv = reach_ledger [OF assms]
  then have "(\<Sum>b \<in># outstanding s. unat (batch_bytes b)) = (\<Sum>b \<in># outstanding s. nat_sum bytes_required b)"
    by (intro arg_cong [of _ _ sum_mset] image_mset_cong) (simp add: ledger_inv_def)
  with inv show ?thesis by (simp add: ledger_inv_def)
qed

text \<open>
  The lookahead is bounded: the batch queue never holds more than \<open>max_queue_depth\<close>
  batches, no batch in it is empty, and \<open>max_queue_depth\<close> is at least two.
\<close>

theorem batch_queue_bounded:
  assumes "reach opts cap jobs s"
  shows "length (batch_queue s) \<le> unat (max_queue_depth opts) \<and> [] \<notin> set (batch_queue s) \<and>
    2 \<le> unat (max_queue_depth opts)"
  using reach_depth [OF assms] reach_batches_wf [OF assms] max_queue_depth_ge
  by (simp add: depth_inv_def batches_wf_def)

subsection \<open>Progress\<close>

text \<open>A worker can move unless it has ended or waits for a batch.\<close>

lemma worker_enabled:
  assumes "\<not> aborted s" "i < length (workers s)" "w_pc (workers s ! i) \<noteq> W_exit"
    "\<And>b. w_pc (workers s ! i) \<noteq> W_crashed b"
    "w_pc (workers s ! i) = W_wait \<Longrightarrow> shutdown s \<or> batch_queue s \<noteq> []"
  shows "perform opts (Work i env d h) s \<noteq> None"
  using assms
  by (cases "w_pc (workers s ! i)")
    (auto simp: perform_def worker_step_def take_batch_def split: list.splits)

lemma dispatcher_enabled:
  assumes "\<not> aborted s" "dpc s \<noteq> D_off" "dpc s \<noteq> D_exit"
    "dpc s = D_space \<Longrightarrow> shutdown s \<or> vector_size (batch_queue s) < max_queue_depth opts"
    "dpc s = D_queue \<Longrightarrow> shutdown s \<or> queue s \<noteq> []"
  shows "perform opts (Dispatch now stats) s \<noteq> None"
  using assms
  by (cases "dpc s")
    (auto simp: perform_def dispatcher_step_def wait_space_def drain_candidates_def split: prod.splits)

lemma full_queue_nonempty:
  "\<not> vector_size xs < max_queue_depth opts \<Longrightarrow> xs \<noteq> []"
  using max_queue_depth_ge [of opts] by (auto simp: word_less_nat_alt)

lemma wsum_held_nonempty:
  "wsum held_by_worker s \<noteq> {#} \<Longrightarrow> \<exists>i < length (workers s). held_by_worker (w_pc (workers s ! i)) \<noteq> {#}"
  using wsum_zero [of s held_by_worker] by (metis in_set_conv_nth)

text \<open>
  C14.  No deadlock while the scheduler runs: with at least one worker, as long as some job is in
  flight, the dispatcher or some worker can take a step, whatever the environment answers.
\<close>

theorem scheduler_never_stuck:
  assumes "reach opts cap jobs s" "started s" "\<not> shutdown s" "\<not> aborted s" "0 < sint (num_workers opts)"
    and "in_flight s \<noteq> {#}"
  shows "(\<forall>now stats. perform opts (Dispatch now stats) s \<noteq> None) \<or>
    (\<exists>i < length (workers s). \<forall>env d h. perform opts (Work i env d h) s \<noteq> None)"
proof -
  note life = reach_lifecycle [OF assms(1)]
  have pcs: "w_pc (workers s ! i) \<noteq> W_exit" "w_pc (workers s ! i) \<noteq> W_crashed b"
    if "i < length (workers s)" for i b
    using life assms(3,4) that nth_mem [OF that] unfolding lifecycle_def by blast+
  have d: "dpc s \<noteq> D_off" "dpc s \<noteq> D_exit" using life assms(2,3) by (simp_all add: lifecycle_def)
  have w0: "0 < length (workers s)" using life assms(2,5) by (simp add: lifecycle_def)
  have worker: ?thesis if "batch_queue s \<noteq> []"
    using worker_enabled [OF assms(4) w0 pcs(1) [OF w0] pcs(2) [OF w0]] that w0 by blast
  show ?thesis
  proof (cases "(dpc s = D_space \<longrightarrow> vector_size (batch_queue s) < max_queue_depth opts) \<and>
      (dpc s = D_queue \<longrightarrow> queue s \<noteq> [])")
    case True
    with dispatcher_enabled [OF assms(4) d] show ?thesis by blast
  next
    case False
    show ?thesis
    proof (cases "batch_queue s = []")
      case True
      with False full_queue_nonempty [of "batch_queue s" opts] have "dpc s = D_queue" "queue s = []" by auto
      with assms(6) True have "wsum held_by_worker s \<noteq> {#}" by (simp add: in_flight_def)
      then obtain i where i: "i < length (workers s)" "held_by_worker (w_pc (workers s ! i)) \<noteq> {#}"
        using wsum_held_nonempty by blast
      then have "w_pc (workers s ! i) \<noteq> W_wait" by auto
      with worker_enabled [OF assms(4) i(1) pcs(1) [OF i(1)] pcs(2) [OF i(1)]] i(1) show ?thesis by blast
    qed (rule worker)
  qed
qed

subsection \<open>Shutdown\<close>

fun dispatcher_rank :: "dispatcher_pc \<Rightarrow> nat" where
  "dispatcher_rank D_off = 0"
| "dispatcher_rank D_exit = 0"
| "dispatcher_rank D_space = 1"
| "dispatcher_rank D_queue = 1"
| "dispatcher_rank (D_publish _) = 7"
| "dispatcher_rank (D_reserve _) = 8"
| "dispatcher_rank (D_packed _ _) = 9"
| "dispatcher_rank (D_pack _) = 10"
| "dispatcher_rank (D_have _) = 11"

fun worker_rank :: "worker_pc \<Rightarrow> nat" where
  "worker_rank W_exit = 0"
| "worker_rank (W_crashed _) = 0"
| "worker_rank W_wait = 1"
| "worker_rank (W_release _) = 2"
| "worker_rank (W_count _ _) = 3"
| "worker_rank (W_throw _) = 3"
| "worker_rank (W_exec _) = 4"

definition stop_measure :: "system \<Rightarrow> nat" where
  "stop_measure s = dispatcher_rank (dpc s) + 5 * length (batch_queue s) + wsum worker_rank s"

definition is_thread :: "action \<Rightarrow> bool" where
  "is_thread a \<longleftrightarrow> (\<exists>now stats. a = Dispatch now stats) \<or> (\<exists>i env d h. a = Work i env d h)"

lemma stop_measure_step:
  assumes sd: "shutdown s" and wf: "batches_wf s" and th: "is_thread a" and p: "perform opts a s = Some s'"
  shows "stop_measure s' < stop_measure s \<and> shutdown s'"
  using p
proof (cases rule: perform_elim)
  case (w_exit i env d h)
  from wsum_set_worker [OF w_exit(2,3), of s worker_rank W_exit] w_exit sd show ?thesis
    by (simp add: stop_measure_def)
next
  case (w_take i env d h b rest)
  from wsum_set_worker [OF w_take(2,3), of "s\<lparr>batch_queue := rest\<rparr>" worker_rank "W_exec b"] w_take sd
  show ?thesis by (simp add: stop_measure_def)
next
  case (w_absent i env d h b)
  from wsum_set_worker [OF w_absent(2,3), of "fail_batch b s" worker_rank "W_release b"] w_absent sd
  show ?thesis by (simp add: stop_measure_def fail_batch_def)
next
  case (w_run i env d h b r ctx' st s1)
  have b: "b \<noteq> []" using worker_at [OF wf w_run(2)] w_run(3) by simp
  note e = execute_jobs_system [OF b w_run(5)]
  have "worker_rank (run_pc b r) \<le> 3" by (simp add: run_pc_def split: exec_result.splits)
  with wsum_after_run [OF w_run(2,3) e(10), of worker_rank b r ctx'] w_run(6) e sd show ?thesis
    by (simp add: stop_measure_def)
next
  case (w_count i env d h n b)
  from wsum_set_worker [OF w_count(2,3), of "count_completed n s" worker_rank "W_release b"] w_count sd
  show ?thesis by (simp add: stop_measure_def count_completed_def)
next
  case (w_release i env d h b)
  from wsum_set_worker [OF w_release(2,3), of "release_bytes (batch_bytes b) s" worker_rank W_wait] w_release sd
  show ?thesis by (simp add: stop_measure_def release_bytes_def)
next
  case (w_throw i env d h b)
  have "wsum worker_rank s' = wsum worker_rank (set_worker i (W_crashed b) (release_bytes (batch_bytes b) s))"
    using w_throw by (intro wsum_workers) simp
  with wsum_set_worker [OF w_throw(2,3), of "release_bytes (batch_bytes b) s" worker_rank "W_crashed b"] w_throw sd
  show ?thesis by (simp add: stop_measure_def release_bytes_def)
qed (use sd th in \<open>auto simp: stop_measure_def is_thread_def wsum_def fail_batch_def requeue_def
    reserve_batch_def reserve_bytes_def publish_batch_def\<close>)

text \<open>Some thread can go on until all have ended.\<close>

lemma stop_moves:
  assumes "reach opts cap jobs s" "started s" "shutdown s" "\<not> aborted s"
  shows "dpc s = D_exit \<or> perform opts (Dispatch now stats) s \<noteq> None"
    "i < length (workers s) \<Longrightarrow> w_pc (workers s ! i) = W_exit \<or> perform opts (Work i env d h) s \<noteq> None"
proof -
  note life = reach_lifecycle [OF assms(1)]
  have "dpc s \<noteq> D_off" using life assms(2) by (simp add: lifecycle_def)
  then show "dpc s = D_exit \<or> perform opts (Dispatch now stats) s \<noteq> None"
    using dispatcher_enabled [OF assms(4), of opts now stats] assms(3) by blast
  assume i: "i < length (workers s)"
  have "w_pc (workers s ! i) \<noteq> W_crashed b" for b
    using life assms(4) nth_mem [OF i] unfolding lifecycle_def by blast
  then show "w_pc (workers s ! i) = W_exit \<or> perform opts (Work i env d h) s \<noteq> None"
    using worker_enabled [OF assms(4) i, of opts env d h] assms(3) by blast
qed

text \<open>The threads that run: all but a set \<open>Z\<close> of sleepers.\<close>

datatype thread = T_dispatcher | T_worker nat

fun awake :: "thread set \<Rightarrow> action \<Rightarrow> bool" where
  "awake Z (Dispatch now stats) \<longleftrightarrow> T_dispatcher \<notin> Z"
| "awake Z (Work i env d h) \<longleftrightarrow> T_worker i \<notin> Z"
| "awake Z _ \<longleftrightarrow> False"

lemma awake_thread: "awake Z a \<Longrightarrow> is_thread a"
  by (cases a) (auto simp: is_thread_def)

lemma is_thread_frame:
  assumes "perform opts a s = Some s'" "is_thread a" "batches_wf s"
  shows "started s' = started s \<and> submitted_by a s = []"
  using assms(1)
proof (cases rule: perform_elim)
  case (w_run i env d h b r ctx' st s1)
  have "b \<noteq> []" using worker_at [OF assms(3) w_run(2)] w_run(3) by simp
  from execute_jobs_system(4) [OF this w_run(5)] w_run show ?thesis by simp
qed (use assms(2) in \<open>auto simp: is_thread_def fail_batch_def requeue_def reserve_batch_def reserve_bytes_def
    publish_batch_def count_completed_def release_bytes_def\<close>)

lemma stop_run_bounded:
  assumes "started s" "shutdown s" "batches_wf s" "list_all (awake Z) as" "perform_all opts as s = Some s'"
  shows "length as + stop_measure s' \<le> stop_measure s \<and> started s' \<and> shutdown s' \<and> log_of opts as s = []"
  using assms
proof (induction as arbitrary: s)
  case (Cons a as)
  from Cons.prems(5) obtain s1 where s1: "perform opts a s = Some s1" "perform_all opts as s1 = Some s'"
    by (auto split: option.splits)
  have th: "is_thread a" using Cons.prems(4) awake_thread by auto
  from stop_measure_step [OF Cons.prems(2,3) th s1(1)] is_thread_frame [OF s1(1) th Cons.prems(3)]
    Cons.IH [OF _ _ batches_wf_step [OF Cons.prems(3) s1(1)] _ s1(2)] Cons.prems(1,4) s1(1)
  show ?case by auto
qed simp

text \<open>
  C15.  After \<open>stop\<close> has set its flag, every thread that does not sleep through the notification
  ends.  Let \<open>Z\<close> be any set of threads that never run again, such as those that miss their
  notification (C38 shows that there can be one).  The other threads take at most
  \<open>stop_measure s\<close> steps together, in any order and whatever the environment answers; and when none
  of them can take a step (and no exception has left a thread), each of them has ended.  So
  \<open>stop\<close> returns when no thread sleeps through its notification, and the jobs that are then not
  reported are exactly those in the queue and in batches that no worker has taken.
\<close>

theorem stop_terminates:
  assumes "reach opts cap jobs s" "started s" "shutdown s"
    and "list_all (budget_within opts cap) as" "list_all (awake Z) as" "perform_all opts as s = Some s'"
  shows "length as \<le> stop_measure s \<and>
    (\<not> aborted s' \<and> (\<forall>a. awake Z a \<longrightarrow> perform opts a s' = None) \<longrightarrow>
      (T_dispatcher \<notin> Z \<longrightarrow> dpc s' = D_exit) \<and>
      (\<forall>i < length (workers s'). T_worker i \<notin> Z \<longrightarrow> w_pc (workers s' ! i) = W_exit) \<and>
      (Z = {} \<longrightarrow> perform opts StopJoin s' = Some (s'\<lparr>started := False\<rparr>) \<and>
         in_flight s' = mset (queue s') + mset (concat (batch_queue s'))))"
proof -
  note b = stop_run_bounded [OF assms(2,3) reach_batches_wf [OF assms(1)] assms(5,6)]
  have r: "reach opts cap (jobs @ log_of opts as s) s'" by (rule reach_run [OF assms(1,4,6)])
  have ends: "dpc s' = D_exit" if "\<not> aborted s'" "\<forall>a. awake Z a \<longrightarrow> perform opts a s' = None" "T_dispatcher \<notin> Z"
    using stop_moves(1) [OF r _ _ that(1), of 0 no_stats] b that(2,3) by auto
  have w_ends: "w_pc (workers s' ! i) = W_exit"
    if "\<not> aborted s'" "\<forall>a. awake Z a \<longrightarrow> perform opts a s' = None" "i < length (workers s')" "T_worker i \<notin> Z" for i
    using stop_moves(2) [OF r _ _ that(1,3), of "sample_env None" sample_heap sample_heap] b that(2,4) by auto
  have "perform opts StopJoin s' = Some (s'\<lparr>started := False\<rparr>) \<and> in_flight s' = mset (queue s') + mset (concat (batch_queue s'))"
    if "\<not> aborted s'" "\<forall>a. awake Z a \<longrightarrow> perform opts a s' = None" "Z = {}"
  proof -
    have j: "all_joined s'" using ends w_ends that by (auto simp: all_joined_def in_set_conv_nth)
    from all_joined_holds_nothing [OF j] j b that(1) show ?thesis
      by (simp add: in_flight_def perform_def stop_join_def)
  qed
  with b ends w_ends show ?thesis by auto
qed

subsection \<open>Concrete runs\<close>

definition run_opts :: Options where
  "run_opts = default_options\<lparr>fixed_budget_bytes := 1000, num_workers := 1\<rparr>"

definition run_stats :: GpuStats where
  "run_stats = \<lparr>stats_total = 0, stats_free = 0, stats_util = 0\<rparr>"

abbreviation dispatch :: action where
  "dispatch \<equiv> Dispatch 9 run_stats"

definition small_job :: InferenceJob where
  "small_job = default_job\<lparr>job_id := 1, job_m := 1, job_n := 1, job_k := 1\<rparr>"

abbreviation work :: action where
  "work \<equiv> Work 0 (sample_env (Some 6)) sample_heap sample_heap"

text \<open>A job goes through the dispatcher and a worker, whose first copy fails.\<close>

definition serve_run :: "action list" where
  "serve_run = [Start 1 run_stats None, SubmitPush 5 small_job, SubmitCount] @ replicate 7 dispatch @
     replicate 3 work"

text \<open>The flag is set after the dispatcher has drained the queue and before it publishes; the
  worker ends first.\<close>

definition drop_run :: "action list" where
  "drop_run = [Start 1 run_stats None, SubmitPush 5 small_job, SubmitCount] @ replicate 5 dispatch @
     [StopFlag, work, dispatch]"

text \<open>Without a GPU the dispatcher reports the job before its submitter counts it.\<close>

definition early_run :: "action list" where
  "early_run = [Start 0 run_stats None, SubmitPush 5 small_job] @ replicate 3 dispatch"

text \<open>A batch that is about to be published when no worker is left.\<close>

definition no_start :: "action \<Rightarrow> bool" where
  "no_start a \<longleftrightarrow> (case a of Start ndev stats mem_info \<Rightarrow> False | _ \<Rightarrow> True)"

definition dropping :: "InferenceJob list \<Rightarrow> system \<Rightarrow> system \<Rightarrow> bool" where
  "dropping sel s0 s \<longleftrightarrow> shutdown s \<and> (\<forall>x \<in> set (workers s). w_pc x = W_exit) \<and>
     (dpc s = D_publish sel \<or> dpc s \<in> {D_space, D_exit} \<and> sel \<in> set (batch_queue s)) \<and>
     metrics s = metrics s0 \<and> completed s = completed s0 \<and> reserved s = reserved s0"

lemma dropping_step:
  assumes "perform opts a s = Some s'" "no_start a" "dropping sel s0 s"
  shows "dropping sel s0 s'"
  using assms(1)
  by (cases rule: perform_elim)
    (use assms(2,3) in \<open>auto simp: dropping_def no_start_def submit_push_def submit_count_def publish_batch_def Let_def\<close>)

lemma dropping_run:
  "perform_all opts as s = Some s' \<Longrightarrow> list_all no_start as \<Longrightarrow> dropping sel s0 s \<Longrightarrow> dropping sel s0 s'"
proof (induction as arbitrary: s)
  case (Cons a as)
  from Cons.prems(1) obtain s1 where "perform opts a s = Some s1" "perform_all opts as s1 = Some s'"
    by (auto split: option.splits)
  with Cons dropping_step [OF this(1)] show ?case by simp
qed simp

lemma dropping_in_flight:
  assumes "dropping sel s0 s"
  shows "mset sel \<subseteq># in_flight s"
proof (cases "dpc s = D_publish sel")
  case True
  then show ?thesis by (simp add: in_flight_def)
next
  case False
  have "sel \<in> set bs \<Longrightarrow> mset sel \<subseteq># mset (concat bs)" for bs
    by (induction bs) (auto intro: subset_mset.add_increasing subset_mset.add_increasing2)
  with assms False have "mset sel \<subseteq># mset (concat (batch_queue s))" by (simp add: dropping_def)
  then show ?thesis
    unfolding in_flight_def by (meson mset_subset_eq_add_left mset_subset_eq_add_right subset_mset.order_trans)
qed

text \<open>
  C40.  A batch that the dispatcher is about to publish when \<open>stop\<close> has set its flag and every
  worker has ended is lost.  The dispatcher publishes it and ends, and \<open>stop\<close> returns, leaving it
  in the batch queue; and whatever else happens until a new \<open>start\<close>, no job of it is ever reported
  or counted as completed and no reservation is given back.
\<close>

theorem stop_can_drop_a_packed_batch:
  assumes "reach opts cap jobs s" "started s" "shutdown s" "\<not> aborted s" "dpc s = D_publish sel"
    and "\<forall>x \<in> set (workers s). w_pc x = W_exit"
  shows "(\<exists>s'. perform_all opts [Dispatch now stats, Dispatch now stats, StopJoin] s = Some s' \<and>
      \<not> started s' \<and> sel \<in> set (batch_queue s')) \<and>
    (\<forall>as s'. list_all no_start as \<and> perform_all opts as s = Some s' \<longrightarrow>
      mset sel \<subseteq># in_flight s' \<and> metrics s' = metrics s \<and> completed s' = completed s \<and> reserved s' = reserved s)"
proof (intro conjI allI impI)
  show "\<exists>s'. perform_all opts [Dispatch now stats, Dispatch now stats, StopJoin] s = Some s' \<and>
      \<not> started s' \<and> sel \<in> set (batch_queue s')"
    using assms by (simp add: perform_def dispatcher_step_def publish_batch_def wait_space_def stop_join_def all_joined_def)
next
  fix as s' assume "list_all no_start as \<and> perform_all opts as s = Some s'"
  then have d: "dropping sel s s'"
    using dropping_run [of opts as s s' sel s] assms by (simp add: dropping_def)
  then show "mset sel \<subseteq># in_flight s'" "metrics s' = metrics s" "completed s' = completed s" "reserved s' = reserved s"
    using dropping_in_flight by (auto simp: dropping_def)
qed

text \<open>
  \<open>completed_\<close> can be ahead of \<open>submitted_\<close>: the job is reported and counted
  while its submitter has not incremented its counter yet.
\<close>

theorem completed_can_exceed_submitted:
  "case perform_all run_opts early_run new_system of
     None \<Rightarrow> False
   | Some s \<Rightarrow> completed s = 1 \<and> submitted s = 0 \<and> counting s = 1 \<and> queue s = []"
  by code_simp

lemma serve_run_ends:
  "case perform_all run_opts serve_run new_system of
     None \<Rightarrow> False
   | Some s \<Rightarrow> submitted s = 1 \<and> completed s = 1 \<and> reserved s = 0 \<and> counting s = 0 \<and> started s \<and>
       map m_seq (metrics s) = [0] \<and> queue s = []"
  by code_simp

subsection \<open>Two reachable states\<close>

definition served :: system where
  "served = the (perform_all run_opts serve_run new_system)"

definition waiting :: system where
  "waiting = the (perform_all run_opts (take 5 serve_run) new_system)"

lemma reach_from_new:
  assumes "list_all (budget_within opts cap) as" "perform_all opts as new_system = Some s"
  shows "reach opts cap (log_of opts as new_system) s"
  using reach_run [OF reach_init assms] by simp

lemma budgets_1000: "budget_within run_opts 1000 a"
  by (simp add: budget_within_def budget_base_def run_opts_def default_options_def split: action.split)

lemma served_reach: "reach run_opts 1000 [stamp 5 0 small_job] served"
proof -
  have "perform_all run_opts serve_run new_system = Some served"
    using serve_run_ends by (auto simp: served_def split: option.splits)
  moreover have "log_of run_opts serve_run new_system = [stamp 5 0 small_job]" by code_simp
  ultimately show ?thesis
    using reach_from_new [of run_opts 1000 serve_run served] by (simp add: list_all_iff budgets_1000)
qed

lemma served_facts: "submitted served = 1" "completed served = 1" "counting served = 0" "queue served = []"
  using serve_run_ends by (auto simp: served_def split: option.splits)

lemma waiting_run:
  "case perform_all run_opts (take 5 serve_run) new_system of
     None \<Rightarrow> False
   | Some s \<Rightarrow> started s \<and> \<not> shutdown s \<and> \<not> aborted s \<and> held_by_dispatcher (dpc s) = [stamp 5 0 small_job]"
  by code_simp

lemma waiting_reach: "reach run_opts 1000 [stamp 5 0 small_job] waiting"
proof -
  have "perform_all run_opts (take 5 serve_run) new_system = Some waiting"
    using waiting_run by (auto simp: waiting_def split: option.splits)
  moreover have "log_of run_opts (take 5 serve_run) new_system = [stamp 5 0 small_job]" by code_simp
  ultimately show ?thesis
    using reach_from_new [of run_opts 1000 "take 5 serve_run" waiting] by (simp add: list_all_iff budgets_1000)
qed

lemma waiting_facts: "started waiting" "\<not> shutdown waiting" "\<not> aborted waiting"
    "held_by_dispatcher (dpc waiting) = [stamp 5 0 small_job]"
  using waiting_run by (auto simp: waiting_def split: option.splits)

lemma stopping_reach: "reach run_opts 1000 [stamp 5 0 small_job] (waiting\<lparr>shutdown := True\<rparr>)"
  using reach_step [OF waiting_reach budgets_1000, of StopFlag "waiting\<lparr>shutdown := True\<rparr>"] waiting_facts
  by (simp add: perform_def stop_flag_def)

theorem scheduler_refines_pool_witness: "pool_reach [stamp 5 0 small_job] (abs_pool served)"
  by (rule scheduler_refines_pool [OF served_reach])

theorem every_job_reported_once_witness:
  "image_mset job_tag (in_flight waiting) + mset (map m_tag (metrics waiting)) = {#job_tag (stamp 5 0 small_job)#}"
  using every_job_reported_once [OF waiting_reach] by simp

theorem reservations_exact_witness: "unat (reserved waiting) \<le> 1000"
  using reservations_exact [OF waiting_reach] by simp

theorem batch_queue_bounded_witness: "length (batch_queue served) \<le> unat (max_queue_depth run_opts)"
  using batch_queue_bounded [OF served_reach] by simp

theorem scheduler_never_stuck_witness:
  "(\<forall>now stats. perform run_opts (Dispatch now stats) waiting \<noteq> None) \<or>
   (\<exists>i < length (workers waiting). \<forall>env d h. perform run_opts (Work i env d h) waiting \<noteq> None)"
proof -
  have "in_flight waiting \<noteq> {#}" using waiting_facts(4) by (simp add: in_flight_def)
  moreover have "0 < sint (num_workers run_opts)" by (simp add: run_opts_def default_options_def)
  ultimately show ?thesis using scheduler_never_stuck [OF waiting_reach] waiting_facts by blast
qed

text \<open>The dispatcher publishes its batch and ends; the worker serves it and ends.\<close>

definition stopping_run :: "action list" where
  "stopping_run = replicate 6 dispatch @ replicate 4 work"

lemma stopping_ends:
  "case perform_all run_opts stopping_run (waiting\<lparr>shutdown := True\<rparr>) of
     None \<Rightarrow> False
   | Some s \<Rightarrow> \<not> aborted s \<and> dpc s = D_exit \<and> map w_pc (workers s) = [W_exit]"
  by code_simp

theorem stop_terminates_witness:
  "\<exists>s'. perform_all run_opts stopping_run (waiting\<lparr>shutdown := True\<rparr>) = Some s' \<and>
     perform run_opts StopJoin s' = Some (s'\<lparr>started := False\<rparr>)"
proof -
  obtain s' where s': "perform_all run_opts stopping_run (waiting\<lparr>shutdown := True\<rparr>) = Some s'"
    "\<not> aborted s'" "dpc s' = D_exit" "map w_pc (workers s') = [W_exit]"
    using stopping_ends by (auto split: option.splits)
  have "perform run_opts a s' = None" if "awake {} a" for a
    using that s'(2-4) by (cases a) (auto simp: perform_def dispatcher_step_def worker_step_def map_eq_Cons_conv)
  moreover have "list_all (awake {}) stopping_run" "list_all (budget_within run_opts 1000) stopping_run"
    by (simp_all add: stopping_run_def list_all_iff budgets_1000)
  ultimately show ?thesis
    using stop_terminates [OF stopping_reach _ _ _ _ s'(1), of "{}"] s' waiting_facts(1) by auto
qed

text \<open>The state in which the batch of \<open>drop_run\<close> is reserved and not published.\<close>

lemma drop_run_ends:
  "case perform_all run_opts drop_run new_system of
     None \<Rightarrow> False
   | Some s \<Rightarrow> started s \<and> shutdown s \<and> \<not> aborted s \<and> dpc s = D_publish [stamp 5 0 small_job] \<and>
       map w_pc (workers s) = [W_exit] \<and> reserved s = 12"
  by code_simp

theorem stop_can_drop_a_packed_batch_witness:
  "\<exists>s s'. reach run_opts 1000 (log_of run_opts drop_run new_system) s \<and>
     perform_all run_opts [dispatch, dispatch, StopJoin] s = Some s' \<and> \<not> started s' \<and>
     [stamp 5 0 small_job] \<in> set (batch_queue s') \<and> reserved s' = 12"
proof -
  obtain s where s: "perform_all run_opts drop_run new_system = Some s" "started s" "shutdown s" "\<not> aborted s"
    "dpc s = D_publish [stamp 5 0 small_job]" "map w_pc (workers s) = [W_exit]" "reserved s = 12"
    using drop_run_ends by (auto split: option.splits)
  have r: "reach run_opts 1000 (log_of run_opts drop_run new_system) s"
    by (rule reach_from_new [OF _ s(1)]) (simp add: list_all_iff budgets_1000)
  have w: "\<forall>x \<in> set (workers s). w_pc x = W_exit" using s(6) by auto
  note d = stop_can_drop_a_packed_batch [OF r s(2-5) w, of 9 run_stats]
  then obtain s' where s': "perform_all run_opts [dispatch, dispatch, StopJoin] s = Some s'" "\<not> started s'"
    "[stamp 5 0 small_job] \<in> set (batch_queue s')" by blast
  have "list_all no_start [dispatch, dispatch, StopJoin]" by (simp add: no_start_def)
  with d s'(1) s(7) have "reserved s' = 12" by metis
  with r s' show ?thesis by blast
qed

subsection \<open>Jobs that can never run\<close>

text \<open>What the runs see: a device, but no more memory on it than the margin; jobs of some size.\<close>

definition margin_covers :: "Options \<Rightarrow> action \<Rightarrow> bool" where
  "margin_covers opts a =
     (case a of
        SubmitPush now job \<Rightarrow> bytes_required job \<noteq> 0
      | Start ndev stats mem_info \<Rightarrow> 0 < ndev \<and> (if stats_total stats = 0
          then (case mem_info of Some (_, total_bytes) \<Rightarrow> total_bytes | None \<Rightarrow> 0)
          else stats_total stats) \<le> safety_margin_bytes opts
      | Dispatch now stats \<Rightarrow> stats_free stats \<le> safety_margin_bytes opts
      | _ \<Rightarrow> True)"

definition cycling :: "Options \<Rightarrow> InferenceJob list \<Rightarrow> system \<Rightarrow> bool" where
  "cycling opts jobs s \<longleftrightarrow> \<not> aborted s \<and> \<not> gpu_absent s \<and> total_mem_bytes s \<le> safety_margin_bytes opts \<and>
     metrics s = [] \<and> completed s = 0 \<and> rejected_jobs s = 0 \<and> batch_queue s = [] \<and>
     (\<forall>x \<in> set (workers s). w_pc x = W_wait \<or> w_pc x = W_exit) \<and>
     (case dpc s of D_reserve sel \<Rightarrow> False | D_publish sel \<Rightarrow> False | D_packed sel rem \<Rightarrow> sel = [] | _ \<Rightarrow> True) \<and>
     (\<not> started s \<longrightarrow> dpc s = D_off \<or> dpc s = D_exit) \<and>
     mset (queue s) + mset (held_by_dispatcher (dpc s)) = mset jobs \<and> (\<forall>j \<in> set jobs. bytes_required j \<noteq> 0)"

lemma nothing_packed:
  assumes "pack_jobs now js 0 cap = (found, sel, rem)" "\<forall>j \<in> set js. bytes_required j \<noteq> 0"
  shows "sel = [] \<and> mset rem = mset js"
proof -
  have "sum_bytes sel = 0" using pack_jobs_budget [OF assms(1)] by simp
  moreover have "set sel \<subseteq> set js"
    using pack_jobs_mset [OF assms(1)] by (metis mset_subset_eq_add_left set_mset_mono set_mset_mset)
  ultimately have "sel = []" using assms(2) by (cases sel) (auto simp: unat_eq_zero)
  with pack_jobs_mset [OF assms(1)] show ?thesis by simp
qed

lemma cycling_dispatch:
  assumes "dispatcher_step opts now stats s = Some s'" "cycling opts jobs s" "fixed_budget_bytes opts = 0"
    and "stats_free stats \<le> safety_margin_bytes opts"
  shows "cycling opts jobs s' \<and> shutdown s' = shutdown s \<and>
    (case dpc s of D_have js \<Rightarrow> (\<exists>js'. dpc s' = D_pack js') | D_pack js \<Rightarrow> (\<exists>rem. dpc s' = D_packed [] rem)
       | D_packed sel rem \<Rightarrow> dpc s' = D_space | _ \<Rightarrow> True)"
proof (cases "dpc s")
  case D_queue
  obtain xs q where q: "drain_queue (queue s) = (xs, q)" by fastforce
  from drain_queue_mset [OF q] q D_queue assms(1,2) show ?thesis
    by (auto simp: dispatcher_step_def drain_candidates_def cycling_def split: if_splits)
next
  case (D_have js)
  have "max_job_bytes opts s = 0" using assms(2) by (auto simp: max_job_bytes_def cycling_def)
  then have "reject_oversized opts js s = (js, s)" by (simp add: reject_oversized_def Let_def)
  with D_have assms(1,2) show ?thesis
    by (auto simp: dispatcher_step_def filter_candidates_def cycling_def)
next
  case (D_pack js)
  have "budget_base opts stats = None" using assms(3,4) by (simp add: budget_base_def)
  then have "budget_bytes opts stats s = 0" by (simp add: budget_bytes_def)
  moreover obtain ok sel rem where pk: "pack_jobs now js 0 (opt_max_batch opts) = (ok, sel, rem)" by (metis prod_cases3)
  moreover have "set_mset (mset js) \<subseteq> set_mset (mset jobs)"
    using assms(2) D_pack by (auto simp: cycling_def dest!: arg_cong [where f = set_mset])
  then have "\<forall>j \<in> set js. bytes_required j \<noteq> 0" using assms(2) by (auto simp: cycling_def)
  note nothing_packed [OF pk this]
  ultimately show ?thesis using D_pack assms(1,2)
    by (auto simp: dispatcher_step_def pack_candidates_def cycling_def)
qed (use assms(1,2) in \<open>auto simp: dispatcher_step_def wait_space_def requeue_def cycling_def split: if_splits\<close>)

lemma cycling_step:
  assumes "perform opts a s = Some s'" "cycling opts jobs s" "fixed_budget_bytes opts = 0" "margin_covers opts a"
  shows "cycling opts (jobs @ submitted_by a s) s'"
proof (cases "\<exists>now stats. a = Dispatch now stats")
  case True
  then obtain now stats where a: "a = Dispatch now stats" by blast
  with assms(1) have "dispatcher_step opts now stats s = Some s'" by (simp add: perform_def split: if_splits)
  from cycling_dispatch [OF this assms(2,3)] assms(4) a show ?thesis by (simp add: margin_covers_def)
next
  case False
  have wait: "w_pc (workers s ! i) = W_wait \<or> w_pc (workers s ! i) = W_exit" if "i < length (workers s)" for i
    using assms(2) nth_mem [OF that] unfolding cycling_def by blast
  from assms(1) show ?thesis
  proof (cases rule: perform_elim)
    case (push now job)
    have "bytes_required (stamp now (next_seq s) job) = bytes_required job" by (simp add: bytes_required_def stamp_def)
    with push assms(2,4) show ?thesis
      by (auto simp: cycling_def submit_push_def margin_covers_def pq_push_def Let_def split: dispatcher_pc.splits)
  next
    case (start_up n stats mem)
    with assms(2,4) show ?thesis
      by (auto simp: cycling_def start_def margin_covers_def split: if_splits option.splits)
  next
    case (w_exit i env d h)
    with assms(2) show ?thesis by (auto simp: cycling_def workers_set_worker dest!: workers_update)
  next
    case (w_take i env d h b rest)
    with assms(2) show ?thesis by (simp add: cycling_def)
  next
    case (w_run i env d h b r ctx' st s1)
    with wait [OF w_run(2)] show ?thesis by simp
  next
    case (w_absent i env d h b)
    with wait [OF w_absent(2)] show ?thesis by simp
  next
    case (w_count i env d h n b)
    with wait [OF w_count(2)] show ?thesis by simp
  next
    case (w_release i env d h b)
    with wait [OF w_release(2)] show ?thesis by simp
  next
    case (w_throw i env d h b)
    with wait [OF w_throw(2)] show ?thesis by simp
  qed (use assms(2) False in \<open>auto simp: cycling_def submit_count_def all_joined_def\<close>)
qed

lemma cycling_run:
  "perform_all opts as s = Some s' \<Longrightarrow> list_all (margin_covers opts) as \<Longrightarrow> fixed_budget_bytes opts = 0 \<Longrightarrow>
   cycling opts jobs s \<Longrightarrow> cycling opts (jobs @ log_of opts as s) s'"
proof (induction as arbitrary: jobs s)
  case (Cons a as)
  from Cons.prems(1) obtain s1 where s1: "perform opts a s = Some s1" "perform_all opts as s1 = Some s'"
    by (auto split: option.splits)
  have "cycling opts (jobs @ submitted_by a s) s1"
    by (rule cycling_step [OF s1(1)]) (use Cons.prems in simp_all)
  from Cons.IH [OF s1(2) _ Cons.prems(3) this] Cons.prems(2) s1(1) show ?case by simp
qed simp

text \<open>One round of the dispatcher.\<close>

lemma cycling_round:
  assumes "cycling opts jobs s" "fixed_budget_bytes opts = 0" "stats_free stats \<le> safety_margin_bytes opts"
    and "dpc s = D_space" "\<not> shutdown s" "queue s \<noteq> []"
  shows "\<exists>s'. perform_all opts (replicate 5 (Dispatch now stats)) s = Some s' \<and> dpc s' = D_space \<and>
    cycling opts jobs s'"
proof -
  let ?a = "Dispatch now stats"
  have go: "\<exists>t'. perform opts ?a t = Some t' \<and> cycling opts jobs t' \<and> shutdown t' = shutdown t \<and>
      (case dpc t of D_have js \<Rightarrow> (\<exists>js'. dpc t' = D_pack js') | D_pack js \<Rightarrow> (\<exists>rem. dpc t' = D_packed [] rem)
       | D_packed sel rem \<Rightarrow> dpc t' = D_space | _ \<Rightarrow> True)"
    if "cycling opts jobs t" "dispatcher_step opts now stats t \<noteq> None" for t
  proof -
    from that obtain t' where t': "dispatcher_step opts now stats t = Some t'" by blast
    moreover have "perform opts ?a t = Some t'" using that(1) t' by (simp add: perform_def cycling_def)
    ultimately show ?thesis using cycling_dispatch [OF t' that(1) assms(2,3)] by blast
  qed
  have "0 < max_queue_depth opts" using max_queue_depth_ge [of opts] by (auto simp: word_less_nat_alt)
  then have 1: "perform opts ?a s = Some (s\<lparr>dpc := D_queue\<rparr>)"
    using assms(1,4,5) by (simp add: perform_def dispatcher_step_def wait_space_def cycling_def)
  have c1: "cycling opts jobs (s\<lparr>dpc := D_queue\<rparr>)" using assms(1,4) by (simp add: cycling_def)
  obtain xs q where "drain_queue (queue s) = (xs, q)" by fastforce
  then obtain s2 js where 2: "perform opts ?a (s\<lparr>dpc := D_queue\<rparr>) = Some s2" "dpc s2 = D_have js"
    using assms(1,5,6) by (simp add: perform_def dispatcher_step_def drain_candidates_def cycling_def)
  with go [OF c1] have c2: "cycling opts jobs s2" by (auto simp: perform_def split: if_splits)
  from go [OF c2] 2(2) obtain s3 js' where 3: "perform opts ?a s2 = Some s3" "cycling opts jobs s3" "dpc s3 = D_pack js'"
    by (auto simp: dispatcher_step_def)
  from go [OF 3(2)] 3(3) obtain s4 rem where 4: "perform opts ?a s3 = Some s4" "cycling opts jobs s4" "dpc s4 = D_packed [] rem"
    by (auto simp: dispatcher_step_def)
  from go [OF 4(2)] 4(3) obtain s5 where 5: "perform opts ?a s4 = Some s5" "cycling opts jobs s5" "dpc s5 = D_space"
    by (auto simp: dispatcher_step_def)
  from 1 2(1) 3(1) 4(1) 5 show ?thesis by (simp add: eval_nat_numeral)
qed

text \<open>
  C39.  When the safety margin is at least the memory of the device, no job is ever run, rejected or
  reported.  In every state of every run of all threads and callers, as long as the budget is not
  fixed, a device is there, it has no more memory (and no more free memory) than the margin, and no
  job has size 0: all submitted jobs are in the queue or in the hands of the dispatcher, and no batch
  is published.  The dispatcher does not come to rest either: from each of these states in which it
  is at the start of its loop with jobs in the queue, and \<open>stop\<close> has not been called, five steps
  take it back there with the same jobs in the queue.
\<close>

theorem jobs_cycle_when_margin_covers_memory:
  assumes "fixed_budget_bytes opts = 0" "list_all (margin_covers opts) as" "perform_all opts as new_system = Some s"
  shows "metrics s = [] \<and> completed s = 0 \<and> rejected_jobs s = 0 \<and> batch_queue s = [] \<and>
    mset (queue s) + mset (held_by_dispatcher (dpc s)) = mset (log_of opts as new_system) \<and>
    (dpc s = D_space \<and> \<not> shutdown s \<and> queue s \<noteq> [] \<and> stats_free stats \<le> safety_margin_bytes opts \<longrightarrow>
      (\<exists>s'. perform_all opts (replicate 5 (Dispatch now stats)) s = Some s' \<and> dpc s' = D_space \<and>
         mset (queue s') = mset (queue s)))"
proof -
  have "cycling opts [] new_system"
    by (simp add: cycling_def) (simp add: new_system_def new_sched_def sched.extend_def system.fields_def)
  from cycling_run [OF assms(3,2,1) this] have c: "cycling opts (log_of opts as new_system) s" by simp
  moreover have "\<exists>s'. perform_all opts (replicate 5 (Dispatch now stats)) s = Some s' \<and> dpc s' = D_space \<and>
         mset (queue s') = mset (queue s)"
    if q: "dpc s = D_space" "\<not> shutdown s" "queue s \<noteq> []" "stats_free stats \<le> safety_margin_bytes opts"
  proof -
    obtain s' where "perform_all opts (replicate 5 (Dispatch now stats)) s = Some s'" "dpc s' = D_space"
      "cycling opts (log_of opts as new_system) s'"
      using cycling_round [OF c assms(1) q(4,1,2,3)] by blast
    with c q(1) show ?thesis by (auto simp: cycling_def)
  qed
  ultimately show ?thesis by (auto simp: cycling_def)
qed

text \<open>A device of 1000 bytes with the default margin of 256 MB: the job of 12 bytes cycles.\<close>

definition margin_run :: "action list" where
  "margin_run = [Start 1 \<lparr>stats_total = 1000, stats_free = 900, stats_util = 0\<rparr> None, SubmitPush 5 small_job,
     SubmitCount] @ replicate 10 (Dispatch 9 \<lparr>stats_total = 1000, stats_free = 900, stats_util = 0\<rparr>)"

lemma margin_run_ends:
  "case perform_all default_options margin_run new_system of
     None \<Rightarrow> False
   | Some s \<Rightarrow> dpc s = D_space \<and> \<not> shutdown s \<and> queue s = [stamp 5 0 small_job]"
  by code_simp

theorem jobs_cycle_when_margin_covers_memory_witness:
  "\<exists>s s'. perform_all default_options margin_run new_system = Some s \<and>
     perform_all default_options (replicate 5 dispatch) s = Some s' \<and> dpc s' = D_space \<and> mset (queue s') = {#stamp 5 0 small_job#}"
proof -
  obtain s where s: "perform_all default_options margin_run new_system = Some s" "dpc s = D_space" "\<not> shutdown s"
    "queue s = [stamp 5 0 small_job]"
    using margin_run_ends by (auto split: option.splits)
  have "bytes_required small_job \<noteq> 0" by code_simp
  then have "list_all (margin_covers default_options) margin_run" "fixed_budget_bytes default_options = 0"
    "stats_free run_stats \<le> safety_margin_bytes default_options"
    by (simp_all add: margin_run_def margin_covers_def default_options_def run_stats_def list_all_iff)
  with jobs_cycle_when_margin_covers_memory [OF _ _ s(1), of run_stats 9] s show ?thesis by simp
qed

end
