(* ===== verification/BatchWaits.thy ===== *)
theory BatchWaits
  imports Scheduler
begin

section \<open>The waits on batch_cv_ and batch_space_cv_ (scheduler.cpp)\<close>

text \<open>
  In \<open>Scheduler\<close> a thread waits in one step: it moves on when its predicate holds.  This theory
  takes the two waits under \<open>batch_mutex_\<close> apart, the dispatcher's on \<open>batch_space_cv_\<close> and the
  workers' on \<open>batch_cv_\<close>, over the whole state of the scheduler: a thread locks the mutex,
  tests the predicate, and when it is false falls asleep, which releases the mutex; it is woken
  only by a notification that finds it asleep, and then locks and tests again.  \<open>notify_one\<close>
  and \<open>notify_all\<close> are steps of their own, after the mutex is released.  Wake-ups without a
  notification are left out (the language allows them and does not promise them).  Every run of
  this model is a run of \<open>Scheduler\<close>, so the theorems about \<open>reach\<close> hold of it.
\<close>

subsection \<open>State\<close>

text \<open>Where a thread is in its wait: about to lock (also while it is not waiting at all), testing
  with the mutex held, the predicate found false and the mutex still held, asleep, and past the
  wait with a \<open>notify_one\<close> still to do.\<close>

datatype wait_pos = At_lock | At_test | At_sleep | Asleep | At_notify

datatype batch_mutex = Unlocked | Held_by_dispatcher | Held_by_worker nat

datatype stop_pc = S_idle | S_flagged | S_batch_told | S_joining

record waits =
  sys :: system
  mutex :: batch_mutex
  disp_at :: wait_pos
  workers_at :: "wait_pos list"
  stop_at :: stop_pc

definition new_waits :: waits where
  "new_waits = \<lparr>sys = new_system, mutex = Unlocked, disp_at = At_lock, workers_at = [], stop_at = S_idle\<rparr>"

subsection \<open>Steps\<close>

definition notified :: "wait_pos \<Rightarrow> wait_pos" where
  "notified p = (if p = Asleep then At_lock else p)"

lemma notified_image: "p \<noteq> Asleep \<Longrightarrow> p \<in> notified ` S \<longleftrightarrow> p \<in> S \<or> p = At_lock \<and> Asleep \<in> S"
  by (force simp: notified_def split: if_splits)

text \<open>The dispatcher in its wait for room, and publishing a batch under the mutex.\<close>

definition space_wait :: "Options \<Rightarrow> waits \<Rightarrow> waits option" where
  "space_wait opts w =
     (case disp_at w of
        At_lock \<Rightarrow> (if mutex w = Unlocked then Some (w\<lparr>mutex := Held_by_dispatcher, disp_at := At_test\<rparr>) else None)
      | At_test \<Rightarrow>
          (case wait_space opts (sys w) of
             None \<Rightarrow> Some (w\<lparr>disp_at := At_sleep\<rparr>)
           | Some s \<Rightarrow> Some (w\<lparr>sys := s, mutex := Unlocked, disp_at := At_lock\<rparr>))
      | At_sleep \<Rightarrow> Some (w\<lparr>mutex := Unlocked, disp_at := Asleep\<rparr>)
      | Asleep \<Rightarrow> None
      | At_notify \<Rightarrow> None)"

definition dispatcher_move :: "Options \<Rightarrow> time_point \<Rightarrow> GpuStats \<Rightarrow> waits \<Rightarrow> waits option" where
  "dispatcher_move opts now stats w =
     (case dpc (sys w) of
        D_space \<Rightarrow> space_wait opts w
      | D_publish selected \<Rightarrow>
          (if mutex w = Unlocked
           then Some (w\<lparr>sys := publish_batch selected (sys w), disp_at := At_notify\<rparr>) else None)
      | _ \<Rightarrow> map_option (\<lambda>s. w\<lparr>sys := s\<rparr>) (dispatcher_step opts now stats (sys w)))"

text \<open>A worker in its wait for a batch.\<close>

definition worker_to :: "nat \<Rightarrow> wait_pos \<Rightarrow> waits \<Rightarrow> waits" where
  "worker_to i p w = w\<lparr>workers_at := (workers_at w)[i := p]\<rparr>"

definition batch_wait :: "nat \<Rightarrow> waits \<Rightarrow> waits option" where
  "batch_wait i w =
     (case workers_at w ! i of
        At_lock \<Rightarrow> (if mutex w = Unlocked then Some (worker_to i At_test (w\<lparr>mutex := Held_by_worker i\<rparr>)) else None)
      | At_test \<Rightarrow>
          (case take_batch i (sys w) of
             None \<Rightarrow> Some (worker_to i At_sleep w)
           | Some s \<Rightarrow> Some (worker_to i (if w_pc (workers s ! i) = W_exit then At_lock else At_notify)
                         (w\<lparr>sys := s, mutex := Unlocked\<rparr>)))
      | At_sleep \<Rightarrow> Some (worker_to i Asleep (w\<lparr>mutex := Unlocked\<rparr>))
      | Asleep \<Rightarrow> None
      | At_notify \<Rightarrow> None)"

definition worker_move :: "Options \<Rightarrow> env \<Rightarrow> heap \<Rightarrow> heap \<Rightarrow> nat \<Rightarrow> waits \<Rightarrow> waits option" where
  "worker_move opts env d h i w =
     (if i < length (workers (sys w)) \<and> workers_at w ! i \<noteq> At_notify
      then if w_pc (workers (sys w) ! i) = W_wait then batch_wait i w
           else map_option (\<lambda>s. w\<lparr>sys := s\<rparr>) (worker_step opts env d h i (sys w))
      else None)"

text \<open>The notifications: \<open>batch_cv_.notify_one\<close> of the dispatcher, which wakes a sleeping worker of
  the library's choice, if there is one; \<open>batch_space_cv_.notify_one\<close> of a worker; the two
  \<open>notify_all\<close> of \<open>stop\<close>.\<close>

definition notify_worker :: "nat \<Rightarrow> waits \<Rightarrow> waits option" where
  "notify_worker k w =
     (if disp_at w \<noteq> At_notify then None
      else if Asleep \<notin> set (workers_at w) then Some (w\<lparr>disp_at := At_lock\<rparr>)
      else if k < length (workers_at w) \<and> workers_at w ! k = Asleep
      then Some (worker_to k At_lock (w\<lparr>disp_at := At_lock\<rparr>)) else None)"

definition notify_dispatcher :: "nat \<Rightarrow> waits \<Rightarrow> waits option" where
  "notify_dispatcher i w =
     (if i < length (workers_at w) \<and> workers_at w ! i = At_notify
      then Some (worker_to i At_lock (w\<lparr>disp_at := notified (disp_at w)\<rparr>)) else None)"

definition stop_notify_batch :: "waits \<Rightarrow> waits option" where
  "stop_notify_batch w =
     (if stop_at w = S_flagged
      then Some (w\<lparr>workers_at := map notified (workers_at w), stop_at := S_batch_told\<rparr>) else None)"

definition stop_notify_space :: "waits \<Rightarrow> waits option" where
  "stop_notify_space w =
     (if stop_at w = S_batch_told
      then Some (w\<lparr>disp_at := notified (disp_at w), stop_at := S_joining\<rparr>) else None)"

datatype wait_action = Move action | Notify_worker nat | Notify_dispatcher nat
  | Stop_notify_batch | Stop_notify_space

definition move :: "Options \<Rightarrow> action \<Rightarrow> waits \<Rightarrow> waits option" where
  "move opts a w =
     (case a of
        Start ndev stats mem_info \<Rightarrow>
          (case start opts ndev stats mem_info (sys w) of
             None \<Rightarrow> None
           | Some s \<Rightarrow> Some \<lparr>sys = s, mutex = Unlocked, disp_at = At_lock,
                 workers_at = replicate (length (workers s)) At_lock, stop_at = S_idle\<rparr>)
      | StopFlag \<Rightarrow>
          (if stop_at w = S_idle
           then map_option (\<lambda>s. w\<lparr>sys := s, stop_at := S_flagged\<rparr>) (stop_flag (sys w)) else None)
      | StopJoin \<Rightarrow>
          (if stop_at w = S_joining
           then map_option (\<lambda>s. w\<lparr>sys := s, stop_at := S_idle\<rparr>) (stop_join (sys w)) else None)
      | Dispatch now stats \<Rightarrow> dispatcher_move opts now stats w
      | Work i env d h \<Rightarrow> worker_move opts env d h i w
      | _ \<Rightarrow> map_option (\<lambda>s. w\<lparr>sys := s\<rparr>) (perform opts a (sys w)))"

definition wait_perform :: "Options \<Rightarrow> wait_action \<Rightarrow> waits \<Rightarrow> waits option" where
  "wait_perform opts a w =
     (if aborted (sys w) then None
      else case a of
        Move b \<Rightarrow> move opts b w
      | Notify_worker k \<Rightarrow> notify_worker k w
      | Notify_dispatcher i \<Rightarrow> notify_dispatcher i w
      | Stop_notify_batch \<Rightarrow> stop_notify_batch w
      | Stop_notify_space \<Rightarrow> stop_notify_space w)"

fun wait_submitted :: "wait_action \<Rightarrow> waits \<Rightarrow> InferenceJob list" where
  "wait_submitted (Move a) w = submitted_by a (sys w)"
| "wait_submitted _ w = []"

fun wait_within :: "Options \<Rightarrow> nat \<Rightarrow> wait_action \<Rightarrow> bool" where
  "wait_within opts cap (Move a) \<longleftrightarrow> budget_within opts cap a"
| "wait_within opts cap _ \<longleftrightarrow> True"

inductive wait_reach :: "Options \<Rightarrow> nat \<Rightarrow> InferenceJob list \<Rightarrow> waits \<Rightarrow> bool" for opts cap where
  wait_init: "wait_reach opts cap [] new_waits"
| wait_step: "wait_reach opts cap jobs w \<Longrightarrow> wait_within opts cap a \<Longrightarrow> wait_perform opts a w = Some w' \<Longrightarrow>
    wait_reach opts cap (jobs @ wait_submitted a w) w'"

subsection \<open>The steps, one by one\<close>

lemma worker_to_fields [simp]:
  "sys (worker_to i p w) = sys w" "mutex (worker_to i p w) = mutex w" "disp_at (worker_to i p w) = disp_at w"
  "stop_at (worker_to i p w) = stop_at w" "workers_at (worker_to i p w) = (workers_at w)[i := p]"
  by (simp_all add: worker_to_def)

lemma notified_simps [simp]:
  "notified p \<noteq> Asleep" "Asleep \<noteq> notified p" "notified p = At_test \<longleftrightarrow> p = At_test" "notified p = At_sleep \<longleftrightarrow> p = At_sleep"
  "notified p = At_notify \<longleftrightarrow> p = At_notify" "notified p = At_lock \<longleftrightarrow> p = At_lock \<or> p = Asleep"
  by (auto simp: notified_def)

lemma dispatcher_move_elim [consumes 2, case_names lock false sleep pass publish other]:
  assumes "dispatcher_move opts now stats w = Some w'" "\<not> aborted (sys w)"
  obtains "dpc (sys w) = D_space" "disp_at w = At_lock" "mutex w = Unlocked"
      "w' = w\<lparr>mutex := Held_by_dispatcher, disp_at := At_test\<rparr>"
  | "dpc (sys w) = D_space" "disp_at w = At_test" "\<not> shutdown (sys w)"
      "\<not> vector_size (batch_queue (sys w)) < max_queue_depth opts" "w' = w\<lparr>disp_at := At_sleep\<rparr>"
  | "dpc (sys w) = D_space" "disp_at w = At_sleep" "w' = w\<lparr>mutex := Unlocked, disp_at := Asleep\<rparr>"
  | s where "dpc (sys w) = D_space" "disp_at w = At_test" "wait_space opts (sys w) = Some s"
      "perform opts (Dispatch now stats) (sys w) = Some s" "w' = w\<lparr>sys := s, mutex := Unlocked, disp_at := At_lock\<rparr>"
  | sel where "dpc (sys w) = D_publish sel" "mutex w = Unlocked"
      "perform opts (Dispatch now stats) (sys w) = Some (publish_batch sel (sys w))"
      "w' = w\<lparr>sys := publish_batch sel (sys w), disp_at := At_notify\<rparr>"
  | s where "dpc (sys w) \<noteq> D_space" "\<And>sel. dpc (sys w) \<noteq> D_publish sel"
      "perform opts (Dispatch now stats) (sys w) = Some s" "w' = w\<lparr>sys := s\<rparr>"
proof -
  have step: "perform opts (Dispatch now stats) (sys w) = dispatcher_step opts now stats (sys w)"
    using assms(2) by (simp add: perform_def)
  show thesis
  proof (cases "dpc (sys w)")
    case D_space
    then have e: "space_wait opts w = Some w'" using assms(1) by (simp add: dispatcher_move_def)
    show thesis
    proof (cases "disp_at w")
      case At_test
      show thesis
      proof (cases "wait_space opts (sys w)")
        case None
        with e At_test D_space that(2) show thesis by (auto simp: space_wait_def wait_space_def split: if_splits)
      next
        case (Some s)
        with e At_test D_space that(4) step show thesis by (simp add: space_wait_def dispatcher_step_def)
      qed
    qed (use e D_space that(1,3) in \<open>auto simp: space_wait_def split: if_splits\<close>)
  next
    case (D_publish sel)
    with assms(1) that(5) step show thesis
      by (auto simp: dispatcher_move_def dispatcher_step_def split: if_splits)
  qed (use assms(1) that(6) step in \<open>auto simp: dispatcher_move_def\<close>)
qed

lemma worker_move_elim [consumes 2, case_names lock false sleep exit take other]:
  assumes "worker_move opts env d h i w = Some w'" "\<not> aborted (sys w)"
  obtains "i < length (workers (sys w))" "w_pc (workers (sys w) ! i) = W_wait" "workers_at w ! i = At_lock"
      "mutex w = Unlocked" "w' = worker_to i At_test (w\<lparr>mutex := Held_by_worker i\<rparr>)"
  | "i < length (workers (sys w))" "w_pc (workers (sys w) ! i) = W_wait" "workers_at w ! i = At_test"
      "\<not> shutdown (sys w)" "batch_queue (sys w) = []" "w' = worker_to i At_sleep w"
  | "i < length (workers (sys w))" "w_pc (workers (sys w) ! i) = W_wait" "workers_at w ! i = At_sleep"
      "w' = worker_to i Asleep (w\<lparr>mutex := Unlocked\<rparr>)"
  | "i < length (workers (sys w))" "w_pc (workers (sys w) ! i) = W_wait" "workers_at w ! i = At_test"
      "shutdown (sys w)" "batch_queue (sys w) = []"
      "perform opts (Work i env d h) (sys w) = Some (set_worker i W_exit (sys w))"
      "w' = worker_to i At_lock (w\<lparr>sys := set_worker i W_exit (sys w), mutex := Unlocked\<rparr>)"
  | b rest where "i < length (workers (sys w))" "w_pc (workers (sys w) ! i) = W_wait" "workers_at w ! i = At_test"
      "batch_queue (sys w) = b # rest"
      "perform opts (Work i env d h) (sys w) = Some (set_worker i (W_exec b) (sys w\<lparr>batch_queue := rest\<rparr>))"
      "w' = worker_to i At_notify (w\<lparr>sys := set_worker i (W_exec b) (sys w\<lparr>batch_queue := rest\<rparr>), mutex := Unlocked\<rparr>)"
  | s where "i < length (workers (sys w))" "w_pc (workers (sys w) ! i) \<noteq> W_wait" "workers_at w ! i \<noteq> At_notify"
      "perform opts (Work i env d h) (sys w) = Some s" "w' = w\<lparr>sys := s\<rparr>"
proof -
  have i: "i < length (workers (sys w))" "workers_at w ! i \<noteq> At_notify"
    using assms(1) by (auto simp: worker_move_def split: if_splits)
  have step: "perform opts (Work i env d h) (sys w) = worker_step opts env d h i (sys w)"
    using assms(2) by (simp add: perform_def)
  show thesis
  proof (cases "w_pc (workers (sys w) ! i) = W_wait")
    case True
    then have e: "batch_wait i w = Some w'" using assms(1) i by (simp add: worker_move_def)
    show thesis
    proof (cases "workers_at w ! i")
      case At_test
      show thesis
      proof (cases "batch_queue (sys w)")
        case Nil
        with e At_test True i step that(2,4) show thesis
          by (auto simp: batch_wait_def take_batch_def worker_step_def workers_set_worker split: if_splits)
      next
        case (Cons b rest)
        with e At_test True i step that(5) show thesis
          by (auto simp: batch_wait_def take_batch_def worker_step_def workers_set_worker split: if_splits)
      qed
    qed (use e True i that(1,3) in \<open>auto simp: batch_wait_def split: if_splits\<close>)
  qed (use assms(1) i step that(6) in \<open>auto simp: worker_move_def\<close>)
qed

text \<open>A step changes the waiting threads only, or it is a step of \<open>Scheduler\<close>.\<close>

lemma wait_step_refines:
  assumes "wait_perform opts a w = Some w'"
  shows "(sys w' = sys w \<and> wait_submitted a w = []) \<or>
    (\<exists>b. a = Move b \<and> perform opts b (sys w) = Some (sys w'))"
proof -
  have ab: "\<not> aborted (sys w)" using assms by (simp add: wait_perform_def split: if_splits)
  show ?thesis
  proof (cases a)
    case (Move b)
    then have m: "move opts b w = Some w'" using assms ab by (simp add: wait_perform_def)
    show ?thesis
    proof (cases b)
      case (Dispatch now stats)
      then have "dispatcher_move opts now stats w = Some w'" using m by (simp add: move_def)
      from this ab show ?thesis using Move Dispatch by (cases rule: dispatcher_move_elim) auto
    next
      case (Work i env d h)
      then have "worker_move opts env d h i w = Some w'" using m by (simp add: move_def)
      from this ab show ?thesis using Move Work by (cases rule: worker_move_elim) auto
    qed (use m ab Move in \<open>auto simp: move_def perform_def split: option.splits if_splits\<close>)
  qed (use assms ab in \<open>auto simp: wait_perform_def notify_worker_def notify_dispatcher_def
      stop_notify_batch_def stop_notify_space_def split: if_splits\<close>)
qed

lemma wait_reach_system:
  assumes "wait_reach opts cap jobs w"
  shows "reach opts cap jobs (sys w)"
  using assms
proof (induction rule: wait_reach.induct)
  case (wait_step jobs w a w')
  from wait_step_refines [OF wait_step.hyps(3)] show ?case
  proof
    assume "\<exists>b. a = Move b \<and> perform opts b (sys w) = Some (sys w')"
    then obtain b where "a = Move b" "perform opts b (sys w) = Some (sys w')" by blast
    with reach_step [OF wait_step.IH, of b "sys w'"] wait_step.hyps(2) show ?thesis by simp
  qed (use wait_step.IH in simp)
qed (simp add: new_waits_def reach_init)

subsection \<open>What the other steps leave alone\<close>

lemma submit_effect:
  assumes "perform opts a s = Some s'" "a = SubmitPush now job \<or> a = SubmitCount"
  shows "batch_queue s' = batch_queue s \<and> shutdown s' = shutdown s \<and> workers s' = workers s \<and> dpc s' = dpc s \<and>
    started s' = started s"
  using assms by (auto simp: perform_def submit_push_def submit_count_def Let_def split: if_splits)

lemma dispatch_effect:
  assumes "perform opts (Dispatch now stats) s = Some s'" "dpc s \<noteq> D_space" "\<And>sel. dpc s \<noteq> D_publish sel"
  shows "batch_queue s' = batch_queue s \<and> shutdown s' = shutdown s \<and> workers s' = workers s \<and>
    started s' = started s \<and> dpc s \<noteq> D_exit \<and> (has_room (dpc s') \<longrightarrow> has_room (dpc s))"
  using assms(1)
  by (cases rule: perform_elim) (use assms(2,3) in \<open>auto simp: fail_batch_def requeue_def reserve_batch_def
    reserve_bytes_def\<close>)

lemma work_effect:
  assumes "perform opts (Work i env d h) s = Some s'" "w_pc (workers s ! i) \<noteq> W_wait" "batches_wf s"
  shows "batch_queue s' = batch_queue s \<and> shutdown s' = shutdown s \<and> dpc s' = dpc s \<and> started s' = started s \<and>
    (\<exists>x. workers s' = (workers s)[i := x] \<and> w_pc x \<noteq> W_exit)"
  using assms(1)
proof (cases rule: perform_elim)
  case (w_run i' env' d' h' b r ctx' st s1)
  then have "b \<noteq> []" using worker_at [OF assms(3), of i] by simp
  from execute_jobs_system [OF this w_run(5)] w_run(1,2,6) show ?thesis
    by (auto simp: after_run_workers run_pc_def split: exec_result.splits)
qed (use assms(2) in \<open>auto simp: fail_batch_def count_completed_def release_bytes_def workers_set_worker\<close>)

subsection \<open>Invariants\<close>

text \<open>The workers that will test the batch queue before they can sleep.\<close>

definition looking :: "waits \<Rightarrow> nat set" where
  "looking w = {i. i < length (workers (sys w)) \<and> w_pc (workers (sys w) ! i) = W_wait \<and>
     workers_at w ! i \<in> {At_lock, At_test}}"

lemma finite_looking [simp]: "finite (looking w)"
  by (simp add: looking_def)

text \<open>Who holds the mutex.\<close>

definition mutex_inv :: "waits \<Rightarrow> bool" where
  "mutex_inv w \<longleftrightarrow> length (workers_at w) = length (workers (sys w)) \<and>
     (mutex w = Held_by_dispatcher \<longleftrightarrow> disp_at w = At_test \<or> disp_at w = At_sleep) \<and>
     (\<forall>i < length (workers (sys w)). mutex w = Held_by_worker i \<longleftrightarrow>
        workers_at w ! i = At_test \<or> workers_at w ! i = At_sleep) \<and>
     (\<forall>i. mutex w = Held_by_worker i \<longrightarrow> i < length (workers (sys w))) \<and>
     (dpc (sys w) \<noteq> D_space \<longrightarrow> disp_at w = At_lock) \<and>
     (\<forall>i < length (workers (sys w)). w_pc (workers (sys w) ! i) \<noteq> W_wait \<longrightarrow>
        workers_at w ! i = At_lock \<or> workers_at w ! i = At_notify)"

lemma mutex_inv_length: "mutex_inv w \<Longrightarrow> length (workers_at w) = length (workers (sys w))"
  by (simp add: mutex_inv_def)

lemma wait_space_effect:
  assumes "wait_space opts s = Some s'"
  shows "batch_queue s' = batch_queue s \<and> shutdown s' = shutdown s \<and> workers s' = workers s \<and>
    started s' = started s \<and> (has_room (dpc s') \<longrightarrow> \<not> shutdown s)"
  using assms by (auto simp: wait_space_def split: if_splits)

lemma start_effect:
  assumes "start opts ndev stats mem_info s = Some s'"
  shows "dpc s' = D_space \<and> batch_queue s' = batch_queue s \<and> (\<forall>x \<in> set (workers s'). w_pc x = W_wait)"
  using assms by (auto simp: start_def split: if_splits)

lemma mutex_inv_dispatcher:
  assumes "dispatcher_move opts now stats w = Some w'" "\<not> aborted (sys w)" "mutex_inv w"
  shows "mutex_inv w'"
  using assms(1,2)
proof (cases rule: dispatcher_move_elim)
  case (pass s)
  with wait_space_effect [OF pass(3)] assms(3) show ?thesis by (auto simp: mutex_inv_def)
next
  case (publish sel)
  with assms(3) show ?thesis by (auto simp: mutex_inv_def publish_batch_def)
next
  case (other s)
  with dispatch_effect [OF other(3,1,2)] assms(3) show ?thesis by (auto simp: mutex_inv_def)
qed (use assms(3) in \<open>auto simp: mutex_inv_def\<close>)

text \<open>A worker moves in its wait: it takes the mutex, keeps it or gives it back.\<close>

definition holds :: "wait_pos \<Rightarrow> bool" where
  "holds p \<longleftrightarrow> p = At_test \<or> p = At_sleep"

lemma mutex_inv_move:
  assumes inv: "mutex_inv w" and i: "i < length (workers (sys w))"
    and w': "workers (sys w') = (workers (sys w))[i := x]" "dpc (sys w') = dpc (sys w)" "disp_at w' = disp_at w"
      "workers_at w' = (workers_at w)[i := p]"
    and m: "mutex w' = (if holds p then Held_by_worker i else if holds (workers_at w ! i) then Unlocked else mutex w)"
    and free: "holds p \<Longrightarrow> mutex w = Unlocked \<or> holds (workers_at w ! i)"
    and pc: "w_pc x \<noteq> W_wait \<Longrightarrow> p = At_lock \<or> p = At_notify"
  shows "mutex_inv w'"
proof -
  have len: "length (workers_at w) = length (workers (sys w))"
    and d: "mutex w = Held_by_dispatcher \<longleftrightarrow> disp_at w = At_test \<or> disp_at w = At_sleep"
    and h: "\<And>j. j < length (workers (sys w)) \<Longrightarrow> mutex w = Held_by_worker j \<longleftrightarrow> holds (workers_at w ! j)"
    and l: "\<And>j. mutex w = Held_by_worker j \<Longrightarrow> j < length (workers (sys w))"
    using inv by (simp_all add: mutex_inv_def holds_def)
  have other: "\<not> holds (workers_at w ! j)" if "j < length (workers (sys w))" "j \<noteq> i" "holds (workers_at w ! i) \<or> mutex w = Unlocked" for j
    using h [OF that(1)] h [OF i] that(2,3) by auto
  have 1: "mutex w' = Held_by_dispatcher \<longleftrightarrow> disp_at w = At_test \<or> disp_at w = At_sleep"
    using d h [OF i] free by (auto simp: m)
  have 2: "mutex w' = Held_by_worker j \<longleftrightarrow> holds ((workers_at w)[i := p] ! j)" if "j < length (workers (sys w))" for j
    using h [OF that] h [OF i] other [OF that] that free len by (cases "j = i") (auto simp: m)
  have 3: "j < length (workers (sys w))" if "mutex w' = Held_by_worker j" for j
    using that l [of j] i by (simp add: m split: if_splits)
  have 4: "dpc (sys w) \<noteq> D_space \<longrightarrow> disp_at w = At_lock" using inv by (simp add: mutex_inv_def)
  have 5: "w_pc (workers (sys w) ! j) \<noteq> W_wait \<longrightarrow> workers_at w ! j = At_lock \<or> workers_at w ! j = At_notify"
    if "j < length (workers (sys w))" for j
    using inv that by (simp add: mutex_inv_def)
  have 6: "w_pc ((workers (sys w))[i := x] ! j) \<noteq> W_wait \<longrightarrow>
      (workers_at w)[i := p] ! j = At_lock \<or> (workers_at w)[i := p] ! j = At_notify"
    if "j < length (workers (sys w))" for j
    using 5 [OF that] that pc len i by (cases "j = i") auto
  show ?thesis
    unfolding mutex_inv_def w'
    by (intro conjI allI impI) (use 1 2 3 4 6 len in \<open>simp_all add: holds_def\<close>)
qed

lemma mutex_inv_worker:
  assumes "worker_move opts env d h i w = Some w'" "\<not> aborted (sys w)" "mutex_inv w" "batches_wf (sys w)"
  shows "mutex_inv w'"
  using assms(1,2)
proof (cases rule: worker_move_elim)
  case lock
  show ?thesis by (rule mutex_inv_move [OF assms(3) lock(1), where x = "workers (sys w) ! i" and p = At_test])
    (use lock in \<open>simp_all add: holds_def\<close>)
next
  case false
  then have "mutex w = Held_by_worker i" using assms(3) by (simp add: mutex_inv_def)
  then show ?thesis by (intro mutex_inv_move [OF assms(3) false(1), where x = "workers (sys w) ! i" and p = At_sleep])
    (use false in \<open>simp_all add: holds_def\<close>)
next
  case sleep
  show ?thesis by (rule mutex_inv_move [OF assms(3) sleep(1), where x = "workers (sys w) ! i" and p = Asleep])
    (use sleep in \<open>simp_all add: holds_def\<close>)
next
  case exit
  show ?thesis by (rule mutex_inv_move [OF assms(3) exit(1), where x = "(workers (sys w) ! i)\<lparr>w_pc := W_exit\<rparr>" and p = At_lock])
    (use exit in \<open>simp_all add: holds_def workers_set_worker\<close>)
next
  case (take b rest)
  show ?thesis by (rule mutex_inv_move [OF assms(3) take(1), where x = "(workers (sys w) ! i)\<lparr>w_pc := W_exec b\<rparr>" and p = At_notify])
    (use take in \<open>simp_all add: holds_def workers_set_worker\<close>)
next
  case (other s)
  from work_effect [OF other(4,2) assms(4)] obtain x where x: "workers s = (workers (sys w))[i := x]" "dpc s = dpc (sys w)"
    by blast
  have at: "workers_at w ! i = At_lock" using other(1,2,3) assms(3) by (auto simp: mutex_inv_def)
  show ?thesis by (rule mutex_inv_move [OF assms(3) other(1), where x = x and p = At_lock])
    (use other x at in \<open>simp_all add: holds_def list_update_same_conv\<close>, metis at list_update_id)
qed

text \<open>The other threads: submitters, \<open>start\<close>, \<open>stop\<close>, the notifications.\<close>

lemma wait_perform_elim [consumes 1, case_names submit start_up flag join dispatch work notify_none notify_one
    notify_space stop_batch stop_space]:
  assumes "wait_perform opts a w = Some w'"
  obtains s where "batch_queue s = batch_queue (sys w)" "shutdown s = shutdown (sys w)"
      "workers s = workers (sys w)" "dpc s = dpc (sys w)" "started s = started (sys w)" "w' = w\<lparr>sys := s\<rparr>"
  | ndev stats mem s where "a = Move (Start ndev stats mem)" "start opts ndev stats mem (sys w) = Some s"
      "w' = \<lparr>sys = s, mutex = Unlocked, disp_at = At_lock, workers_at = replicate (length (workers s)) At_lock,
         stop_at = S_idle\<rparr>"
  | "stop_at w = S_idle" "started (sys w)" "w' = w\<lparr>sys := (sys w)\<lparr>shutdown := True\<rparr>, stop_at := S_flagged\<rparr>"
  | "stop_at w = S_joining" "all_joined (sys w)" "w' = w\<lparr>sys := (sys w)\<lparr>started := False\<rparr>, stop_at := S_idle\<rparr>"
  | now stats where "dispatcher_move opts now stats w = Some w'" "\<not> aborted (sys w)"
  | i env d h where "worker_move opts env d h i w = Some w'" "\<not> aborted (sys w)"
  | "disp_at w = At_notify" "Asleep \<notin> set (workers_at w)" "w' = w\<lparr>disp_at := At_lock\<rparr>"
  | k where "disp_at w = At_notify" "k < length (workers_at w)" "workers_at w ! k = Asleep"
      "w' = worker_to k At_lock (w\<lparr>disp_at := At_lock\<rparr>)"
  | i where "i < length (workers_at w)" "workers_at w ! i = At_notify"
      "w' = worker_to i At_lock (w\<lparr>disp_at := notified (disp_at w)\<rparr>)"
  | "stop_at w = S_flagged" "w' = w\<lparr>workers_at := map notified (workers_at w), stop_at := S_batch_told\<rparr>"
  | "stop_at w = S_batch_told" "w' = w\<lparr>disp_at := notified (disp_at w), stop_at := S_joining\<rparr>"
proof -
  have ab: "\<not> aborted (sys w)" using assms by (simp add: wait_perform_def split: if_splits)
  show thesis
  proof (cases a)
    case (Move b)
    then have m: "move opts b w = Some w'" using assms ab by (simp add: wait_perform_def)
    show thesis
    proof (cases b)
      case (SubmitPush now job)
      with m submit_effect [of opts b "sys w"] that(1) show thesis by (auto simp: move_def)
    next
      case SubmitCount
      with m submit_effect [of opts b "sys w"] that(1) show thesis by (auto simp: move_def)
    next
      case (Start n stats mem)
      with m Move that(2) show thesis by (auto simp: move_def split: option.splits)
    next
      case (Dispatch now stats)
      with m ab that(5) show thesis by (simp add: move_def)
    next
      case (Work i env d h)
      with m ab that(6) show thesis by (simp add: move_def)
    qed (use m that(3,4) in \<open>auto simp: move_def stop_flag_def stop_join_def split: if_splits\<close>)
  next
    case (Notify_worker k)
    with assms ab that(7,8) show thesis by (auto simp: wait_perform_def notify_worker_def split: if_splits)
  next
    case (Notify_dispatcher i)
    with assms ab that(9) show thesis by (auto simp: wait_perform_def notify_dispatcher_def split: if_splits)
  qed (use assms ab that(10,11) in \<open>auto simp: wait_perform_def stop_notify_batch_def stop_notify_space_def
    split: if_splits\<close>)
qed

lemma mutex_inv_step:
  assumes "wait_perform opts a w = Some w'" "mutex_inv w" "batches_wf (sys w)"
  shows "mutex_inv w'"
  using assms(1)
proof (cases rule: wait_perform_elim)
  case (start_up n stats mem s)
  with start_effect [OF start_up(2)] show ?thesis by (auto simp: mutex_inv_def)
next
  case (dispatch now stats)
  with mutex_inv_dispatcher assms(2) show ?thesis by blast
next
  case (work i env d h)
  with mutex_inv_worker assms(2,3) show ?thesis by blast
qed (use assms(2) in \<open>auto simp: mutex_inv_def nth_list_update\<close>)

text \<open>The dispatcher sleeps only while the batch queue is full or a worker is about to wake it.\<close>

definition space_inv :: "Options \<Rightarrow> waits \<Rightarrow> bool" where
  "space_inv opts w \<longleftrightarrow>
     (disp_at w = At_sleep \<longrightarrow> unat (max_queue_depth opts) \<le> length (batch_queue (sys w))) \<and>
     (disp_at w = Asleep \<longrightarrow> unat (max_queue_depth opts) \<le> length (batch_queue (sys w)) \<or>
        At_notify \<in> set (workers_at w))"

lemma full_queue_length:
  assumes "depth_inv opts s" "\<not> vector_size (batch_queue s) < max_queue_depth opts"
  shows "unat (max_queue_depth opts) \<le> length (batch_queue s)"
proof -
  have "unat (max_queue_depth opts) < 2 ^ 64" using unsigned_less [of "max_queue_depth opts"] by simp
  then have "length (batch_queue s) < 2 ^ 64" using assms(1) by (simp add: depth_inv_def)
  with assms(2) show ?thesis by (simp add: word_less_nat_alt unsigned_of_nat take_bit_nat_eq_self)
qed

lemma set_update_other: "i < length xs \<Longrightarrow> xs ! i \<noteq> y \<Longrightarrow> y \<in> set xs \<Longrightarrow> y \<in> set (xs[i := x])"
  by (metis in_set_conv_nth length_list_update nth_list_update_neq)

lemma space_inv_step:
  assumes "wait_perform opts a w = Some w'" "space_inv opts w" "mutex_inv w" "depth_inv opts (sys w)"
    "batches_wf (sys w)"
  shows "space_inv opts w'"
  using assms(1)
proof (cases rule: wait_perform_elim)
  case (dispatch now stats)
  then show ?thesis
  proof (cases rule: dispatcher_move_elim)
    case (other s)
    then have "disp_at w = At_lock" using assms(3) by (simp add: mutex_inv_def)
    with other show ?thesis by (simp add: space_inv_def)
  qed (use assms(2) full_queue_length [OF assms(4)] in \<open>auto simp: space_inv_def\<close>)
next
  case (work i env d h)
  have len: "i < length (workers (sys w)) \<Longrightarrow> i < length (workers_at w)" using assms(3) by (simp add: mutex_inv_def)
  from work show ?thesis
  proof (cases rule: worker_move_elim)
    case (take b rest)
    then have "mutex w = Held_by_worker i" using assms(3) by (simp add: mutex_inv_def)
    then have "disp_at w \<noteq> At_sleep" using assms(3) by (auto simp: mutex_inv_def)
    with take len show ?thesis by (simp add: space_inv_def set_update_memI)
  next
    case (other s)
    with work_effect [OF other(4,2) assms(5)] assms(2) show ?thesis by (simp add: space_inv_def)
  qed (use assms(2) len in \<open>auto simp: space_inv_def intro!: set_update_other\<close>)
qed (use assms(2) in \<open>auto simp: space_inv_def dest: start_effect intro!: set_update_other simp: notified_image\<close>)

text \<open>A worker sleeps only while every queued batch is about to be seen: by a worker that looks at
  the queue before it can sleep, or by a worker that the dispatcher is about to wake.\<close>

definition batch_inv :: "waits \<Rightarrow> bool" where
  "batch_inv w \<longleftrightarrow>
     (At_sleep \<in> set (workers_at w) \<longrightarrow> batch_queue (sys w) = []) \<and>
     (Asleep \<in> set (workers_at w) \<longrightarrow>
        length (batch_queue (sys w)) \<le> (if disp_at w = At_notify then 1 else 0) + card (looking w))"

lemma looking_move:
  assumes "workers (sys w') = (workers (sys w))[i := x]" "workers_at w' = (workers_at w)[i := p]"
    "i < length (workers (sys w))" "length (workers_at w) = length (workers (sys w))"
  shows "looking w' = (if w_pc x = W_wait \<and> p \<in> {At_lock, At_test} then insert i (looking w) else looking w - {i})"
  using assms by (auto simp: looking_def nth_list_update split: if_splits)

lemma looking_same:
  "workers (sys w') = workers (sys w) \<Longrightarrow> workers_at w' = workers_at w \<Longrightarrow> looking w' = looking w"
  by (simp add: looking_def)

lemma card_looking_remove: "i \<in> looking w \<Longrightarrow> card (looking w - {i}) + 1 = card (looking w)"
  using card.remove [OF finite_looking] by simp

lemma in_set_update: "i < length xs \<Longrightarrow> y \<in> set (xs[i := x]) \<Longrightarrow> y = x \<or> y \<in> set xs"
  using set_update_subset_insert [of xs i x] by auto

lemma batch_inv_worker:
  assumes "worker_move opts env d h i w = Some w'" "\<not> aborted (sys w)" "batch_inv w" "mutex_inv w" "batches_wf (sys w)"
  shows "batch_inv w'"
proof -
  have len: "length (workers_at w) = length (workers (sys w))" using assms(4) by (simp add: mutex_inv_def)
  have upd: "y = x \<or> y \<in> set (workers_at w)" if "y \<in> set ((workers_at w)[i := x])" "i < length (workers (sys w))" for x y
    using in_set_update [OF _ that(1)] that(2) len by simp
  show ?thesis
    using assms(1,2)
  proof (cases rule: worker_move_elim)
    case lock
    have "looking w' = insert i (looking w)"
      by (subst looking_move [of w' w i "workers (sys w) ! i" At_test]) (use lock len in simp_all)
    moreover have "i \<in> looking w" using lock by (simp add: looking_def)
    ultimately have "looking w' = looking w" by (simp add: insert_absorb)
    with lock assms(3) show ?thesis by (auto simp: batch_inv_def dest: upd)
  next
    case false
    then show ?thesis by (simp add: batch_inv_def)
  next
    case sleep
    then have "At_sleep \<in> set (workers_at w)" using len by (metis nth_mem)
    with sleep assms(3) show ?thesis by (simp add: batch_inv_def)
  next
    case exit
    then show ?thesis by (simp add: batch_inv_def)
  next
    case (take b rest)
    have l: "looking w' = looking w - {i}"
      by (subst looking_move [of w' w i "(workers (sys w) ! i)\<lparr>w_pc := W_exec b\<rparr>" At_notify])
        (use take len in \<open>simp_all add: workers_set_worker\<close>)
    have "i \<in> looking w" using take by (simp add: looking_def)
    from card_looking_remove [OF this] have c: "card (looking w') + 1 = card (looking w)" by (simp add: l)
    have f: "workers_at w' = (workers_at w)[i := At_notify]" "batch_queue (sys w') = rest" "disp_at w' = disp_at w"
      using take(6) by simp_all
    from c take(4) assms(3) show ?thesis by (auto simp: batch_inv_def f dest!: upd [OF _ take(1)])
  next
    case (other s)
    from work_effect [OF other(4,2) assms(5)] obtain x where x: "workers s = (workers (sys w))[i := x]"
      "batch_queue s = batch_queue (sys w)" by blast
    have "i \<notin> looking w" using other(2) by (simp add: looking_def)
    moreover have "looking w' = (if w_pc x = W_wait \<and> workers_at w ! i \<in> {At_lock, At_test} then insert i (looking w)
        else looking w - {i})"
      by (rule looking_move) (use x other(1,5) len in simp_all)
    ultimately have "looking w \<subseteq> looking w'" by auto
    then have "card (looking w) \<le> card (looking w')" by (simp add: card_mono)
    with x other(5) assms(3) show ?thesis by (auto simp: batch_inv_def)
  qed
qed

lemma batch_inv_step:
  assumes "wait_perform opts a w = Some w'" "batch_inv w" "mutex_inv w" "batches_wf (sys w)"
  shows "batch_inv w'"
proof -
  have len: "length (workers_at w) = length (workers (sys w))" using assms(3) by (simp add: mutex_inv_def)
  show ?thesis
    using assms(1)
  proof (cases rule: wait_perform_elim)
    case (dispatch now stats)
    then show ?thesis
    proof (cases rule: dispatcher_move_elim)
      case (pass s)
      with wait_space_effect [OF pass(3)] looking_same [of w' w] assms(2) show ?thesis
        by (simp add: batch_inv_def)
    next
      case (publish sel)
      then have "At_sleep \<notin> set (workers_at w)" using assms(3) len by (auto simp: mutex_inv_def in_set_conv_nth)
      moreover have "disp_at w = At_lock" using publish(1) assms(3) by (simp add: mutex_inv_def)
      ultimately show ?thesis using publish looking_same [of w' w] assms(2)
        by (simp add: batch_inv_def publish_batch_def)
    next
      case (other s)
      with dispatch_effect [OF other(3,1,2)] looking_same [of w' w] assms(2) show ?thesis
        by (simp add: batch_inv_def)
    qed (use looking_same [of w' w] assms(2) in \<open>auto simp: batch_inv_def\<close>)
  next
    case (work i env d h)
    then show ?thesis by (rule batch_inv_worker) (use assms in simp_all)
  next
    case (notify_one k)
    then have k: "k < length (workers (sys w))" "w_pc (workers (sys w) ! k) = W_wait"
      using assms(3) len by (auto simp: mutex_inv_def)
    have "looking w' = insert k (looking w)"
      by (subst looking_move [of w' w k "workers (sys w) ! k" At_lock]) (use notify_one k len in simp_all)
    moreover have "k \<notin> looking w" using notify_one(3) by (simp add: looking_def)
    moreover have "Asleep \<in> set (workers_at w)" using notify_one(2,3) by (metis nth_mem)
    ultimately show ?thesis using notify_one assms(2) by (auto simp: batch_inv_def dest: in_set_update)
  next
    case (notify_space i)
    have "looking w \<subseteq> looking w'" using notify_space by (auto simp: looking_def nth_list_update)
    then have "card (looking w) \<le> card (looking w')" by (simp add: card_mono)
    moreover have "p \<in> set (workers_at w)" if "p \<in> set ((workers_at w)[i := At_lock])" "p \<noteq> At_lock" for p
      using in_set_update [OF notify_space(1) that(1)] that(2) by simp
    ultimately show ?thesis using notify_space assms(2) by (fastforce simp: batch_inv_def)
  next
    case (stop_batch)
    then show ?thesis using assms(2) by (auto simp: batch_inv_def notified_image)
  qed (use looking_same [of w' w] assms(2) in \<open>auto simp: batch_inv_def dest: start_effect\<close>)
qed

text \<open>Once a worker has ended, at most the batch that was being packed is left in the batch queue.\<close>

definition exit_inv :: "system \<Rightarrow> bool" where
  "exit_inv s \<longleftrightarrow> ((\<exists>x \<in> set (workers s). w_pc x = W_exit) \<longrightarrow>
     shutdown s \<and> length (batch_queue s) \<le> 1 \<and> (has_room (dpc s) \<longrightarrow> batch_queue s = []))"

lemma exit_inv_step:
  assumes "perform opts a s = Some s'" "exit_inv s" "batches_wf s"
  shows "exit_inv s'"
  using assms(1)
proof (cases rule: perform_elim)
  case (start_up n stats mem)
  with start_effect [OF start_up(3)] show ?thesis by (auto simp: exit_inv_def)
next
  case (w_run i env d h b r ctx' st s1)
  have "b \<noteq> []" using worker_at [OF assms(3) w_run(2)] w_run(3) by simp
  from execute_jobs_system [OF this w_run(5)] w_run(2,6) assms(2) show ?thesis
    by (auto simp: exit_inv_def after_run_workers run_pc_def split: exec_result.splits dest!: workers_update)
qed (use assms(2) in \<open>auto simp: exit_inv_def submit_push_def submit_count_def Let_def fail_batch_def requeue_def
    reserve_batch_def reserve_bytes_def publish_batch_def count_completed_def release_bytes_def
    workers_set_worker dest!: workers_update\<close>)

lemma reach_exit_inv: "reach opts cap jobs s \<Longrightarrow> exit_inv s"
proof (induction rule: reach.induct)
  case (reach_step jobs s a s')
  with exit_inv_step reach_batches_wf show ?case by blast
qed (simp add: exit_inv_def)

lemma wait_reach_inv:
  assumes "wait_reach opts cap jobs w"
  shows "mutex_inv w \<and> space_inv opts w \<and> batch_inv w"
  using assms
proof (induction rule: wait_reach.induct)
  case (wait_step jobs w a w')
  from wait_reach_system [OF wait_step.hyps(1)]
  have "batches_wf (sys w)" "depth_inv opts (sys w)" by (simp_all add: reach_batches_wf reach_depth)
  with wait_step mutex_inv_step space_inv_step batch_inv_step show ?case by blast
qed (simp add: new_waits_def mutex_inv_def space_inv_def batch_inv_def)

lemma wait_reach_frame: "wait_reach opts cap jobs w \<Longrightarrow> batches_wf (sys w) \<and> mutex_inv w"
  using wait_reach_inv wait_reach_system reach_batches_wf by blast

subsection \<open>No notification is lost while the scheduler runs\<close>

text \<open>
  C8.  The notification of a published batch is never lost: while a worker sleeps, there are at
  most as many queued batches as workers that will test the queue before they can sleep, plus one
  when the dispatcher has still to notify; and that notification wakes the sleeping worker, or
  another one that sleeps.
\<close>

theorem batch_notification_not_lost:
  assumes "wait_reach opts cap jobs w" "k < length (workers_at w)" "workers_at w ! k = Asleep"
  shows "length (batch_queue (sys w)) \<le> (if disp_at w = At_notify then 1 else 0) + card (looking w) \<and>
    (disp_at w = At_notify \<and> \<not> aborted (sys w) \<longrightarrow>
       wait_perform opts (Notify_worker k) w = Some (worker_to k At_lock (w\<lparr>disp_at := At_lock\<rparr>)))"
proof -
  have "Asleep \<in> set (workers_at w)" using assms(2,3) by (metis nth_mem)
  with wait_reach_inv [OF assms(1)] assms(2,3) show ?thesis
    by (simp add: batch_inv_def wait_perform_def notify_worker_def)
qed

text \<open>A worker that neither sleeps nor has ended takes its next step when it can have the mutex.\<close>

lemma worker_move_enabled:
  assumes "\<not> aborted (sys w)" "i < length (workers (sys w))" "w_pc (workers (sys w) ! i) \<noteq> W_exit"
    "\<And>b. w_pc (workers (sys w) ! i) \<noteq> W_crashed b" "workers_at w ! i \<notin> {Asleep, At_notify}"
    "mutex w = Unlocked \<or> workers_at w ! i \<noteq> At_lock"
  shows "wait_perform opts (Move (Work i env d h)) w \<noteq> None"
proof (cases "w_pc (workers (sys w) ! i) = W_wait")
  case True
  with assms show ?thesis
    by (cases "workers_at w ! i")
      (auto simp: wait_perform_def move_def worker_move_def batch_wait_def split: option.splits)
next
  case False
  have "perform opts (Work i env d h) (sys w) \<noteq> None"
    by (rule worker_enabled) (use assms False in auto)
  with False assms show ?thesis by (auto simp: wait_perform_def move_def worker_move_def perform_def)
qed

lemma someone_awake:
  assumes "wait_reach opts cap jobs w" "disp_at w = Asleep" "0 < sint (num_workers opts)"
    "At_notify \<notin> set (workers_at w)"
  shows "\<exists>i < length (workers (sys w)). w_pc (workers (sys w) ! i) \<noteq> W_exit \<and> workers_at w ! i \<noteq> Asleep"
proof (rule ccontr)
  assume "\<not> ?thesis"
  then have none: "\<And>i. i < length (workers (sys w)) \<Longrightarrow> w_pc (workers (sys w) ! i) = W_exit \<or> workers_at w ! i = Asleep"
    by blast
  note inv = wait_reach_inv [OF assms(1)] and r = wait_reach_system [OF assms(1)]
  have full: "2 \<le> length (batch_queue (sys w))"
    using inv assms(2,4) max_queue_depth_ge [of opts] by (auto simp: space_inv_def)
  have "dpc (sys w) = D_space" using inv assms(2) by (auto simp: mutex_inv_def)
  then have "0 < length (workers (sys w))" using reach_lifecycle [OF r] assms(3)
    by (auto simp: lifecycle_def all_joined_def)
  moreover have asl: "workers_at w ! i = Asleep" if "i < length (workers (sys w))" for i
    using none [OF that] reach_exit_inv [OF r] full that by (auto simp: exit_inv_def)
  moreover have "length (workers_at w) = length (workers (sys w))" using inv by (simp add: mutex_inv_def)
  ultimately have "Asleep \<in> set (workers_at w)" by (metis nth_mem)
  moreover have "looking w = {}" by (auto simp: looking_def asl)
  moreover note inv assms(2) full
  ultimately show False by (simp add: batch_inv_def)
qed

text \<open>
  C9.  The dispatcher is never stranded in its wait for room, not even when it misses the
  notification of \<open>stop\<close>: whenever it sleeps there (and no exception has ended the process), some
  worker is about to wake it or can take a step, whatever the environment answers.
\<close>

theorem dispatcher_always_rescued:
  assumes "wait_reach opts cap jobs w" "disp_at w = Asleep" "0 < sint (num_workers opts)" "\<not> aborted (sys w)"
  shows "\<exists>i < length (workers (sys w)). wait_perform opts (Notify_dispatcher i) w \<noteq> None \<or>
    (\<forall>env d h. wait_perform opts (Move (Work i env d h)) w \<noteq> None)"
proof -
  note inv = wait_reach_inv [OF assms(1)] and r = wait_reach_system [OF assms(1)]
  have len: "length (workers_at w) = length (workers (sys w))" using inv by (simp add: mutex_inv_def)
  have crash: "w_pc (workers (sys w) ! i) \<noteq> W_crashed b" if "i < length (workers (sys w))" for i b
    using reach_lifecycle [OF r] assms(4) that by (auto simp: lifecycle_def)
  show ?thesis
  proof (cases "At_notify \<in> set (workers_at w)")
    case True
    then obtain i where "i < length (workers (sys w))" "workers_at w ! i = At_notify"
      using len by (auto simp: in_set_conv_nth)
    then show ?thesis using len assms(4) by (auto simp: wait_perform_def notify_dispatcher_def)
  next
    case False
    have nn: "workers_at w ! i \<noteq> At_notify" if "i < length (workers (sys w))" for i
      using False len that by (metis nth_mem)
    show ?thesis
    proof (cases "mutex w")
      case Unlocked
      from someone_awake [OF assms(1-3) False] obtain i where i: "i < length (workers (sys w))"
        "w_pc (workers (sys w) ! i) \<noteq> W_exit" "workers_at w ! i \<noteq> Asleep" by blast
      with worker_move_enabled [OF assms(4) i(1,2) crash [OF i(1)]] nn [OF i(1)] Unlocked show ?thesis by blast
    next
      case Held_by_dispatcher
      then show ?thesis using inv assms(2) by (simp add: mutex_inv_def)
    next
      case (Held_by_worker i)
      then have i: "i < length (workers (sys w))" "workers_at w ! i = At_test \<or> workers_at w ! i = At_sleep"
        using inv by (auto simp: mutex_inv_def)
      then have "w_pc (workers (sys w) ! i) = W_wait" using inv by (auto simp: mutex_inv_def)
      with worker_move_enabled [OF assms(4) i(1) _ crash [OF i(1)]] i show ?thesis by auto
    qed
  qed
qed

subsection \<open>Runs\<close>

text \<open>Runs of several steps.\<close>

fun wait_run :: "Options \<Rightarrow> wait_action list \<Rightarrow> waits \<Rightarrow> waits option" where
  "wait_run opts [] w = Some w"
| "wait_run opts (a # as) w =
     (case wait_perform opts a w of None \<Rightarrow> None | Some w' \<Rightarrow> wait_run opts as w')"

fun wait_log :: "Options \<Rightarrow> wait_action list \<Rightarrow> waits \<Rightarrow> InferenceJob list" where
  "wait_log opts [] w = []"
| "wait_log opts (a # as) w =
     wait_submitted a w @ (case wait_perform opts a w of None \<Rightarrow> [] | Some w' \<Rightarrow> wait_log opts as w')"

lemma wait_reach_run:
  "wait_reach opts cap jobs w \<Longrightarrow> list_all (wait_within opts cap) as \<Longrightarrow> wait_run opts as w = Some w' \<Longrightarrow>
   wait_reach opts cap (jobs @ wait_log opts as w) w'"
proof (induction as arbitrary: jobs w)
  case (Cons a as)
  from Cons.prems(3) obtain w1 where w1: "wait_perform opts a w = Some w1" "wait_run opts as w1 = Some w'"
    by (auto split: option.splits)
  have "wait_reach opts cap (jobs @ wait_submitted a w) w1"
    by (rule wait_step [OF Cons.prems(1) _ w1(1)]) (use Cons.prems(2) in simp)
  from Cons.IH [OF this _ w1(2)] Cons.prems(2) w1(1) show ?case by simp
qed simp

text \<open>A property that every step of a kind keeps holds after a run of such steps.\<close>

lemma wait_run_keeps:
  assumes "wait_run opts as w = Some w'" "wait_reach opts cap jobs w" "P w" "list_all (wait_within opts cap) as"
    "list_all Q as"
    and step: "\<And>jobs w a w'. wait_reach opts cap jobs w \<Longrightarrow> P w \<Longrightarrow> Q a \<Longrightarrow>
      wait_perform opts a w = Some w' \<Longrightarrow> P w'"
  shows "P w'"
  using assms(1-5)
proof (induction as arbitrary: jobs w)
  case (Cons a as)
  from Cons.prems(1) obtain w1 where w1: "wait_perform opts a w = Some w1" "wait_run opts as w1 = Some w'"
    by (auto split: option.splits)
  have "wait_reach opts cap (jobs @ wait_submitted a w) w1"
    by (rule wait_step [OF Cons.prems(2) _ w1(1)]) (use Cons.prems(4) in simp)
  moreover have "P w1" by (rule step [OF Cons.prems(2,3) _ w1(1)]) (use Cons.prems(5) in simp)
  ultimately show ?case using Cons.IH [OF w1(2)] Cons.prems(4,5) by simp
qed simp

subsection \<open>The waits are those of the atomic model\<close>

text \<open>The steps of the threads that wait and their notifications: no caller is involved.\<close>

fun wait_only :: "wait_action \<Rightarrow> bool" where
  "wait_only (Move (Dispatch now stats)) = True"
| "wait_only (Move (Work i env d h)) = True"
| "wait_only (Notify_worker k) = True"
| "wait_only (Notify_dispatcher i) = True"
| "wait_only _ = False"

text \<open>At most \<open>n\<close> such steps lead from \<open>w\<close> to a state with \<open>P\<close>.\<close>

definition completes :: "Options \<Rightarrow> nat \<Rightarrow> waits \<Rightarrow> (waits \<Rightarrow> bool) \<Rightarrow> bool" where
  "completes opts n w P \<longleftrightarrow>
     (\<exists>as w'. length as \<le> n \<and> list_all wait_only as \<and> wait_run opts as w = Some w' \<and> P w')"

lemma completes_now: "P w \<Longrightarrow> completes opts n w P"
  unfolding completes_def by (intro exI [of _ "[]"]) simp

lemma completes_step:
  assumes "wait_only a" "wait_perform opts a w = Some w1" "completes opts n w1 P"
  shows "completes opts (Suc n) w P"
proof -
  from assms(3) obtain as w' where "length as \<le> n" "list_all wait_only as" "wait_run opts as w1 = Some w'" "P w'"
    unfolding completes_def by blast
  then show ?thesis
    unfolding completes_def using assms(1,2) by (intro exI [of _ "a # as"]) auto
qed

lemma completes_more: "completes opts m w P \<Longrightarrow> m \<le> n \<Longrightarrow> completes opts n w P"
  unfolding completes_def by (meson le_trans)

text \<open>A state of a scheduler that is not being stopped, with the invariants that hold of every state.\<close>

definition running :: "Options \<Rightarrow> waits \<Rightarrow> bool" where
  "running opts w \<longleftrightarrow> mutex_inv w \<and> space_inv opts w \<and> batch_inv w \<and> batches_wf (sys w) \<and>
     depth_inv opts (sys w) \<and> \<not> shutdown (sys w) \<and> \<not> aborted (sys w)"

lemma running_step:
  assumes "running opts w" "wait_perform opts a w = Some w'" "shutdown (sys w') = shutdown (sys w)"
    "aborted (sys w') = aborted (sys w)"
  shows "running opts w'"
proof -
  have sys: "batches_wf (sys w') \<and> depth_inv opts (sys w')"
    using wait_step_refines [OF assms(2)] assms(1) batches_wf_step depth_step
    unfolding running_def by metis
  with assms mutex_inv_step [OF assms(2)] space_inv_step [OF assms(2)] batch_inv_step [OF assms(2)] show ?thesis
    by (simp add: running_def)
qed

abbreviation work_move :: "nat \<Rightarrow> wait_action" where
  "work_move i \<equiv> Move (Work i (sample_env None) sample_heap sample_heap)"

abbreviation dispatch_move :: wait_action where
  "dispatch_move \<equiv> Move (Dispatch 0 no_stats)"

text \<open>The single steps of the two waits.\<close>

lemma worker_steps:
  assumes "\<not> aborted (sys w)" "i < length (workers (sys w))" "w_pc (workers (sys w) ! i) = W_wait"
  shows "workers_at w ! i = At_lock \<Longrightarrow> mutex w = Unlocked \<Longrightarrow>
      wait_perform opts (work_move i) w = Some (worker_to i At_test (w\<lparr>mutex := Held_by_worker i\<rparr>))"
    and "workers_at w ! i = At_test \<Longrightarrow> \<not> shutdown (sys w) \<Longrightarrow> batch_queue (sys w) = [] \<Longrightarrow>
      wait_perform opts (work_move i) w = Some (worker_to i At_sleep w)"
    and "workers_at w ! i = At_test \<Longrightarrow> batch_queue (sys w) = b # rest \<Longrightarrow>
      wait_perform opts (work_move i) w =
        Some (worker_to i At_notify (w\<lparr>sys := set_worker i (W_exec b) (sys w\<lparr>batch_queue := rest\<rparr>), mutex := Unlocked\<rparr>))"
    and "workers_at w ! i = At_sleep \<Longrightarrow>
      wait_perform opts (work_move i) w = Some (worker_to i Asleep (w\<lparr>mutex := Unlocked\<rparr>))"
  using assms
  by (simp_all add: wait_perform_def move_def worker_move_def batch_wait_def take_batch_def workers_set_worker)

lemma dispatcher_steps:
  assumes "\<not> aborted (sys w)" "dpc (sys w) = D_space"
  shows "disp_at w = At_lock \<Longrightarrow> mutex w = Unlocked \<Longrightarrow>
      wait_perform opts dispatch_move w = Some (w\<lparr>mutex := Held_by_dispatcher, disp_at := At_test\<rparr>)"
    and "disp_at w = At_test \<Longrightarrow> wait_space opts (sys w) = None \<Longrightarrow>
      wait_perform opts dispatch_move w = Some (w\<lparr>disp_at := At_sleep\<rparr>)"
    and "disp_at w = At_test \<Longrightarrow> wait_space opts (sys w) = Some s \<Longrightarrow>
      wait_perform opts dispatch_move w = Some (w\<lparr>sys := s, mutex := Unlocked, disp_at := At_lock\<rparr>)"
    and "disp_at w = At_sleep \<Longrightarrow> wait_perform opts dispatch_move w = Some (w\<lparr>mutex := Unlocked, disp_at := Asleep\<rparr>)"
  using assms by (simp_all add: wait_perform_def move_def dispatcher_move_def space_wait_def)

lemma dispatcher_notifies:
  assumes "\<not> aborted (sys w)" "disp_at w = At_notify"
  shows "\<exists>k w1. wait_perform opts (Notify_worker k) w = Some w1 \<and> disp_at w1 = At_lock \<and> sys w1 = sys w \<and>
    mutex w1 = mutex w \<and> (Asleep \<in> set (workers_at w) \<longrightarrow>
      k < length (workers_at w) \<and> workers_at w ! k = Asleep \<and> workers_at w1 = (workers_at w)[k := At_lock])"
proof (cases "Asleep \<in> set (workers_at w)")
  case True
  then obtain k where "k < length (workers_at w)" "workers_at w ! k = Asleep" by (auto simp: in_set_conv_nth)
  with assms True show ?thesis
    by (intro exI [of _ k] exI [of _ "worker_to k At_lock (w\<lparr>disp_at := At_lock\<rparr>)"])
      (simp add: wait_perform_def notify_worker_def)
next
  case False
  with assms show ?thesis
    by (intro exI [of _ 0] exI [of _ "w\<lparr>disp_at := At_lock\<rparr>"]) (simp add: wait_perform_def notify_worker_def)
qed

text \<open>Whoever holds the mutex gives it back within two steps; a worker that does may take a batch, and
  the dispatcher may find room.\<close>

lemma mutex_released:
  assumes "running opts w" "mutex w \<noteq> Unlocked"
    and goes: "\<And>w'. running opts w' \<Longrightarrow> mutex w' = Unlocked \<Longrightarrow> sys w' = sys w \<Longrightarrow> completes opts n w' P"
    and room: "\<And>w' s. running opts w' \<Longrightarrow> mutex w' = Unlocked \<Longrightarrow> mutex w = Held_by_dispatcher \<Longrightarrow> dpc (sys w) = D_space \<Longrightarrow>
      wait_space opts (sys w) = Some s \<Longrightarrow> sys w' = s \<Longrightarrow> completes opts n w' P"
    and take: "\<And>w' i b rest. running opts w' \<Longrightarrow> mutex w' = Unlocked \<Longrightarrow> i < length (workers (sys w)) \<Longrightarrow>
      w_pc (workers (sys w) ! i) = W_wait \<Longrightarrow> batch_queue (sys w) = b # rest \<Longrightarrow>
      sys w' = set_worker i (W_exec b) (sys w\<lparr>batch_queue := rest\<rparr>) \<Longrightarrow> completes opts n w' P"
  shows "completes opts (Suc (Suc n)) w P"
proof -
  have ab: "\<not> aborted (sys w)" and sd: "\<not> shutdown (sys w)" and inv: "mutex_inv w" using assms(1) by (simp_all add: running_def)
  have len: "length (workers_at w) = length (workers (sys w))" by (rule mutex_inv_length [OF inv])
  show ?thesis
  proof (cases "mutex w")
    case Held_by_dispatcher
    then have at: "disp_at w = At_test \<or> disp_at w = At_sleep" and d: "dpc (sys w) = D_space"
      using inv by (auto simp: mutex_inv_def)
    have asleep: "completes opts (Suc n) v P" if "running opts v" "disp_at v = At_sleep" "sys v = sys w" for v
    proof -
      have s: "wait_perform opts dispatch_move v = Some (v\<lparr>mutex := Unlocked, disp_at := Asleep\<rparr>)"
        using dispatcher_steps(4) [of v] that ab d by simp
      show ?thesis
        by (rule completes_step [OF _ s]) (use that running_step [OF that(1) s] in \<open>auto intro!: goes\<close>)
    qed
    from at show ?thesis
    proof
      assume t: "disp_at w = At_test"
      show ?thesis
      proof (cases "wait_space opts (sys w)")
        case None
        note s = dispatcher_steps(2) [OF ab d t None]
        show ?thesis
          by (rule completes_step [OF _ s], simp, rule asleep) (use running_step [OF assms(1) s] in simp_all)
      next
        case (Some s')
        note s = dispatcher_steps(3) [OF ab d t Some]
        have "shutdown s' = shutdown (sys w)" "aborted s' = aborted (sys w)"
          using Some by (auto simp: wait_space_def split: if_splits)
        then have "completes opts n (w\<lparr>sys := s', mutex := Unlocked, disp_at := At_lock\<rparr>) P"
          by (intro room [OF _ _ Held_by_dispatcher d Some]) (use running_step [OF assms(1) s] in simp_all)
        from completes_step [OF _ s this] show ?thesis by (auto elim: completes_more)
      qed
    next
      assume "disp_at w = At_sleep"
      from asleep [OF assms(1) this] show ?thesis by (auto elim: completes_more)
    qed
  next
    case (Held_by_worker i)
    then have i: "i < length (workers (sys w))" and at: "workers_at w ! i = At_test \<or> workers_at w ! i = At_sleep"
      using inv by (auto simp: mutex_inv_def)
    then have pc: "w_pc (workers (sys w) ! i) = W_wait" using inv by (auto simp: mutex_inv_def)
    have asleep: "completes opts (Suc n) v P" if "running opts v" "workers_at v ! i = At_sleep" "sys v = sys w" for v
    proof -
      have s: "wait_perform opts (work_move i) v = Some (worker_to i Asleep (v\<lparr>mutex := Unlocked\<rparr>))"
        using worker_steps(4) [of v i] that ab i pc by simp
      show ?thesis
        by (rule completes_step [OF _ s]) (use that running_step [OF that(1) s] in \<open>auto intro!: goes\<close>)
    qed
    from at show ?thesis
    proof
      assume t: "workers_at w ! i = At_test"
      show ?thesis
      proof (cases "batch_queue (sys w)")
        case Nil
        note s = worker_steps(2) [OF ab i pc t sd Nil]
        show ?thesis
          by (rule completes_step [OF _ s], simp, rule asleep) (use running_step [OF assms(1) s] i len in simp_all)
      next
        case (Cons b rest)
        note s = worker_steps(3) [OF ab i pc t Cons]
        have "completes opts n (worker_to i At_notify (w\<lparr>sys := set_worker i (W_exec b) (sys w\<lparr>batch_queue := rest\<rparr>), mutex := Unlocked\<rparr>)) P"
          by (rule take [OF _ _ i pc Cons]) (use running_step [OF assms(1) s] in simp_all)
        from completes_step [OF _ s this] show ?thesis by (auto elim: completes_more)
      qed
    next
      assume "workers_at w ! i = At_sleep"
      from asleep [OF assms(1) this] show ?thesis by (auto elim: completes_more)
    qed
  qed (use assms(2) in simp)
qed

text \<open>The dispatcher finds room.\<close>

lemma space_wait_completes:
  assumes "running opts w" "dpc (sys w) = D_space" "wait_space opts (sys w) \<noteq> None"
  shows "completes opts 5 w (\<lambda>w'. dpc (sys w') = D_queue)"
proof -
  let ?P = "\<lambda>w'. dpc (sys w') = D_queue"
  have room: "wait_space opts (sys v) = Some ((sys v)\<lparr>dpc := D_queue\<rparr>)"
    if "running opts v" "length (batch_queue (sys v)) < unat (max_queue_depth opts)" for v
  proof -
    have "unat (max_queue_depth opts) < 2 ^ 64" using unsigned_less [of "max_queue_depth opts"] by simp
    then have "vector_size (batch_queue (sys v)) < max_queue_depth opts"
      using that(2) by (simp add: word_less_nat_alt unsigned_of_nat take_bit_nat_eq_self)
    with that(1) show ?thesis by (simp add: wait_space_def running_def)
  qed
  have locked: "completes opts 2 v ?P"
    if "running opts v" "mutex v = Unlocked" "dpc (sys v) = D_space" "disp_at v = At_lock"
      "length (batch_queue (sys v)) < unat (max_queue_depth opts)" for v
  proof -
    have ab: "\<not> aborted (sys v)" using that(1) by (simp add: running_def)
    let ?v = "v\<lparr>mutex := Held_by_dispatcher, disp_at := At_test\<rparr>"
    have 1: "wait_perform opts dispatch_move v = Some ?v" by (rule dispatcher_steps(1) [OF ab that(3,4,2)])
    have 2: "wait_perform opts dispatch_move ?v =
        Some (?v\<lparr>sys := (sys v)\<lparr>dpc := D_queue\<rparr>, mutex := Unlocked, disp_at := At_lock\<rparr>)"
      by (rule dispatcher_steps(3)) (use ab that room [OF that(1,5)] in simp_all)
    have "completes opts (Suc 1) v ?P"
      by (rule completes_step [OF _ 1], simp, rule completes_more [OF completes_step [OF _ 2 completes_now, of _ 0]]) simp_all
    then show ?thesis by (simp add: numeral_2_eq_2)
  qed
  have free: "completes opts 3 v ?P"
    if v: "running opts v" "mutex v = Unlocked" "dpc (sys v) = D_space"
      "length (batch_queue (sys v)) < unat (max_queue_depth opts)" for v
  proof -
    have ab: "\<not> aborted (sys v)" using v(1) by (simp add: running_def)
    consider "disp_at v = At_lock" | "disp_at v = Asleep" | "disp_at v = At_notify"
      using v(1,2) by (cases "disp_at v") (auto simp: running_def mutex_inv_def)
    then show ?thesis
    proof cases
      case 1
      from locked [OF v(1-3) 1 v(4)] show ?thesis by (rule completes_more) simp
    next
      case 2
      then obtain i where i: "i < length (workers_at v)" "workers_at v ! i = At_notify"
        using v(1,4) by (auto simp: running_def space_inv_def in_set_conv_nth)
      let ?v = "worker_to i At_lock (v\<lparr>disp_at := At_lock\<rparr>)"
      have s: "wait_perform opts (Notify_dispatcher i) v = Some ?v"
        using ab i 2 by (simp add: wait_perform_def notify_dispatcher_def notified_def)
      have "completes opts 2 ?v ?P"
        by (rule locked) (use running_step [OF v(1) s] v(2-4) in simp_all)
      from completes_step [OF _ s this] show ?thesis by simp
    next
      case 3
      from dispatcher_notifies [OF ab 3, of opts] obtain k v1 where s: "wait_perform opts (Notify_worker k) v = Some v1"
        "disp_at v1 = At_lock" "sys v1 = sys v" "mutex v1 = mutex v" by blast
      have "completes opts 2 v1 ?P"
        by (rule locked) (use running_step [OF v(1) s(1)] v(2-4) s(2-4) in simp_all)
      from completes_step [OF _ s(1) this] show ?thesis by simp
    qed
  qed
  have len: "length (batch_queue (sys w)) < unat (max_queue_depth opts)"
  proof -
    have "unat (max_queue_depth opts) < 2 ^ 64" using unsigned_less [of "max_queue_depth opts"] by simp
    moreover have "length (batch_queue (sys w)) \<le> unat (max_queue_depth opts)"
      using assms(1) by (simp add: running_def depth_inv_def)
    ultimately show ?thesis using assms(1,3)
      by (auto simp: wait_space_def running_def word_less_nat_alt unsigned_of_nat take_bit_nat_eq_self split: if_splits)
  qed
  show ?thesis
  proof (cases "mutex w = Unlocked")
    case True
    from free [OF assms(1) True assms(2) len] show ?thesis by (rule completes_more) simp
  next
    case False
    have "completes opts (Suc (Suc 3)) w ?P"
    proof (rule mutex_released [OF assms(1) False])
      fix w' :: waits and s assume "wait_space opts (sys w) = Some s" "sys w' = s"
      with room [OF assms(1) len] show "completes opts 3 w' ?P" by (auto intro: completes_now)
    qed (use free assms(2) len in simp_all)
    then show ?thesis by (simp add: eval_nat_numeral)
  qed
qed

text \<open>A waiting worker takes the first batch.\<close>

lemma batch_wait_completes:
  assumes "running opts w" "batch_queue (sys w) = b # rest" "i0 < length (workers (sys w))" "w_pc (workers (sys w) ! i0) = W_wait"
  shows "completes opts 5 w (\<lambda>w'. batch_queue (sys w') = rest \<and>
    (\<exists>i < length (workers (sys w)). w_pc (workers (sys w) ! i) = W_wait \<and> w_pc (workers (sys w') ! i) = W_exec b))"
    (is "completes opts 5 w ?P")
proof -
  have fin: "\<exists>k < length (workers (sys w)). w_pc (workers (sys w) ! k) = W_wait \<and>
      w_pc (workers (set_worker i (W_exec b) s) ! k) = W_exec b"
    if "i < length (workers (sys w))" "w_pc (workers (sys w) ! i) = W_wait" "workers s = workers (sys w)" for i s
    using that by (auto simp: workers_set_worker)
  have locked: "completes opts 2 v ?P"
    if v: "running opts v" "mutex v = Unlocked" "workers (sys v) = workers (sys w)" "batch_queue (sys v) = b # rest"
      "i < length (workers (sys w))" "w_pc (workers (sys w) ! i) = W_wait" "workers_at v ! i = At_lock" for v i
  proof -
    have ab: "\<not> aborted (sys v)" and len: "length (workers_at v) = length (workers (sys w))"
      using v(1,3) by (simp_all add: running_def mutex_inv_def)
    let ?v = "worker_to i At_test (v\<lparr>mutex := Held_by_worker i\<rparr>)"
    have 1: "wait_perform opts (work_move i) v = Some ?v" by (rule worker_steps(1)) (use ab v in simp_all)
    have 2: "wait_perform opts (work_move i) ?v = Some (worker_to i At_notify
        (?v\<lparr>sys := set_worker i (W_exec b) (sys ?v\<lparr>batch_queue := rest\<rparr>), mutex := Unlocked\<rparr>))"
      by (rule worker_steps(3)) (use ab v len in simp_all)
    have "completes opts (Suc 1) v ?P"
      by (rule completes_step [OF _ 1], simp, rule completes_more [OF completes_step [OF _ 2 completes_now, of _ 0]])
        (use fin [OF v(5,6), of "sys v\<lparr>batch_queue := rest\<rparr>"] v(3) in simp_all)
    then show ?thesis by (simp add: numeral_2_eq_2)
  qed
  have free: "completes opts 3 v ?P"
    if v: "running opts v" "mutex v = Unlocked" "workers (sys v) = workers (sys w)" "batch_queue (sys v) = b # rest" for v
  proof -
    have ab: "\<not> aborted (sys v)" and len: "length (workers_at v) = length (workers (sys w))"
      and inv: "mutex_inv v" "batch_inv v" using v(1,3) by (simp_all add: running_def mutex_inv_def)
    show ?thesis
    proof (cases "\<exists>i < length (workers (sys w)). w_pc (workers (sys w) ! i) = W_wait \<and> workers_at v ! i = At_lock")
      case True
      then obtain i where "i < length (workers (sys w))" "w_pc (workers (sys w) ! i) = W_wait" "workers_at v ! i = At_lock"
        by blast
      from locked [OF v this] show ?thesis by (rule completes_more) simp
    next
      case no: False
      have at: "workers_at v ! i0 = Asleep \<or> workers_at v ! i0 = At_notify"
        using no assms(3,4) inv(1) v(2,3) by (cases "workers_at v ! i0") (auto simp: mutex_inv_def)
      show ?thesis
      proof (cases "workers_at v ! i0")
        case Asleep
        then have sl: "Asleep \<in> set (workers_at v)" using assms(3) len by (metis nth_mem)
        have "looking v = {}"
          using no inv(1) v(2,3) by (auto simp: looking_def mutex_inv_def)
        with inv(2) sl v(4) have d: "disp_at v = At_notify" by (auto simp: batch_inv_def split: if_splits)
        from dispatcher_notifies [OF ab d, of opts] sl obtain k v1 where s: "wait_perform opts (Notify_worker k) v = Some v1"
          "sys v1 = sys v" "mutex v1 = mutex v" "k < length (workers_at v)" "workers_at v ! k = Asleep"
          "workers_at v1 = (workers_at v)[k := At_lock]" by blast
        have pc: "w_pc (workers (sys w) ! k) = W_wait"
        proof (rule ccontr)
          assume "w_pc (workers (sys w) ! k) \<noteq> W_wait"
          then have "workers_at v ! k = At_lock \<or> workers_at v ! k = At_notify"
            using inv(1) v(3) s(4) len by (auto simp: mutex_inv_def)
          with s(5) show False by simp
        qed
        have "completes opts 2 v1 ?P"
          by (rule locked [where i = k]) (use running_step [OF v(1) s(1)] v s len pc in simp_all)
        from completes_step [OF _ s(1) this] show ?thesis by simp
      next
        case At_notify
        let ?v = "worker_to i0 At_lock (v\<lparr>disp_at := notified (disp_at v)\<rparr>)"
        have s: "wait_perform opts (Notify_dispatcher i0) v = Some ?v"
          using ab At_notify assms(3) len by (simp add: wait_perform_def notify_dispatcher_def)
        have "completes opts 2 ?v ?P"
          by (rule locked [where i = i0]) (use running_step [OF v(1) s] v(2-4) assms(3,4) len in simp_all)
        from completes_step [OF _ s this] show ?thesis by simp
      qed (use at in simp_all)
    qed
  qed
  show ?thesis
  proof (cases "mutex w = Unlocked")
    case True
    from free [OF assms(1) True refl assms(2)] show ?thesis by (rule completes_more) simp
  next
    case False
    have "completes opts (Suc (Suc 3)) w ?P"
    proof (rule mutex_released [OF assms(1) False])
      fix w' :: waits and s assume "running opts w'" "mutex w' = Unlocked" "wait_space opts (sys w) = Some s" "sys w' = s"
      then show "completes opts 3 w' ?P"
        using wait_space_effect [of opts "sys w" s] assms(2) by (intro free) auto
    next
      fix w' :: waits and i b' rest' assume "i < length (workers (sys w))" "w_pc (workers (sys w) ! i) = W_wait"
        "batch_queue (sys w) = b' # rest'" "sys w' = set_worker i (W_exec b') (sys w\<lparr>batch_queue := rest'\<rparr>)"
      then have "?P w'" using fin [of i "sys w\<lparr>batch_queue := rest'\<rparr>"] assms(2) by simp
      then show "completes opts 3 w' ?P" by (rule completes_now)
    qed (use free assms(2) in simp_all)
    then show ?thesis by (simp add: eval_nat_numeral)
  qed
qed

lemma one_holder:
  assumes "mutex_inv w" "i < length (workers_at w)" "holds (workers_at w ! i)"
  shows "mutex w = Held_by_worker i" "\<not> holds (disp_at w)"
proof -
  show "mutex w = Held_by_worker i" using assms by (auto simp: mutex_inv_def holds_def)
  then show "\<not> holds (disp_at w)" using assms(1) by (auto simp: mutex_inv_def holds_def)
qed

text \<open>
  C7.  Locks, tests, sleeps and notifications implement the atomic waits of \<open>Scheduler\<close>, in both
  directions.  In every state that they reach, the threads and the shared state are in a state that
  \<open>reach\<close> has for the same submitted jobs and budgets, and at most one thread is between its lock
  and its unlock of \<open>batch_mutex_\<close>.  And while the scheduler is not being stopped, a wait that the
  atomic model lets pass is not blocked: when there is room for a batch, at most five steps of the
  threads and their notifications take the dispatcher out of its wait, wherever it is in it; when a
  batch is queued and some worker waits, at most five give the first batch to a waiting worker.
\<close>

theorem batch_waits_refine_scheduler:
  assumes "wait_reach opts cap jobs w"
  shows "reach opts cap jobs (sys w) \<and>
    (\<forall>i j. i < length (workers_at w) \<and> j < length (workers_at w) \<and> holds (workers_at w ! i) \<and>
       (holds (workers_at w ! j) \<or> holds (disp_at w)) \<longrightarrow> i = j \<and> \<not> holds (disp_at w)) \<and>
    (\<not> shutdown (sys w) \<and> \<not> aborted (sys w) \<longrightarrow>
      (dpc (sys w) = D_space \<and> wait_space opts (sys w) \<noteq> None \<longrightarrow>
         completes opts 5 w (\<lambda>w'. dpc (sys w') = D_queue)) \<and>
      (\<forall>b rest. batch_queue (sys w) = b # rest \<and> (\<exists>x \<in> set (workers (sys w)). w_pc x = W_wait) \<longrightarrow>
         completes opts 5 w (\<lambda>w'. batch_queue (sys w') = rest \<and> (\<exists>i < length (workers (sys w)).
           w_pc (workers (sys w) ! i) = W_wait \<and> w_pc (workers (sys w') ! i) = W_exec b))))"
proof -
  note inv = wait_reach_inv [OF assms] and r = wait_reach_system [OF assms]
  have run: "running opts w" if "\<not> shutdown (sys w)" "\<not> aborted (sys w)"
    using inv reach_batches_wf [OF r] reach_depth [OF r] that by (simp add: running_def)
  have "i = j \<and> \<not> holds (disp_at w)"
    if "i < length (workers_at w)" "j < length (workers_at w)" "holds (workers_at w ! i)" "holds (workers_at w ! j) \<or> holds (disp_at w)" for i j
    using one_holder [of w i] one_holder [of w j] inv that by auto
  with r run space_wait_completes batch_wait_completes show ?thesis by (auto simp: in_set_conv_nth)
qed

subsection \<open>Stop and the workers\<close>

text \<open>After the notification of \<open>stop\<close>, with no worker between its test and its sleep.\<close>

definition is_start :: "wait_action \<Rightarrow> bool" where
  "is_start a \<longleftrightarrow> (\<exists>ndev stats mem_info. a = Move (Start ndev stats mem_info))"

definition workers_told :: "waits \<Rightarrow> bool" where
  "workers_told w \<longleftrightarrow> shutdown (sys w) \<and> stop_at w \<noteq> S_flagged \<and> (stop_at w = S_idle \<longrightarrow> \<not> started (sys w)) \<and>
     At_sleep \<notin> set (workers_at w) \<and> Asleep \<notin> set (workers_at w)"

lemma workers_told_step:
  assumes "wait_perform opts a w = Some w'" "workers_told w" "\<not> is_start a" "batches_wf (sys w)" "mutex_inv w"
  shows "workers_told w'"
proof -
  have upd: "y = x \<or> y \<in> set (workers_at w)"
    if "y \<in> set ((workers_at w)[i := x])" "i < length (workers (sys w)) \<or> i < length (workers_at w)" for x y i
    using in_set_update [OF _ that(1)] that(2) assms(5) by (simp add: mutex_inv_def)
  show ?thesis
    using assms(1)
  proof (cases rule: wait_perform_elim)
    case (dispatch now stats)
    then show ?thesis
    proof (cases rule: dispatcher_move_elim)
      case (pass s)
      with wait_space_effect [OF pass(3)] assms(2) show ?thesis by (simp add: workers_told_def)
    next
      case (other s)
      with dispatch_effect [OF other(3,1,2)] assms(2) show ?thesis by (simp add: workers_told_def)
    qed (use assms(2) in \<open>simp_all add: workers_told_def publish_batch_def\<close>)
  next
    case (work i env d h)
    then show ?thesis
    proof (cases rule: worker_move_elim)
      case sleep
      then have "At_sleep \<in> set (workers_at w)" using mutex_inv_length [OF assms(5)] by (metis nth_mem)
      with assms(2) show ?thesis by (simp add: workers_told_def)
    next
      case (other s)
      with work_effect [OF other(4,2) assms(4)] assms(2) show ?thesis by (simp add: workers_told_def)
    qed (use assms(2) in \<open>auto simp: workers_told_def dest!: upd\<close>)
  qed (use assms(2,3) in \<open>auto simp: workers_told_def is_start_def notified_image dest!: upd\<close>)
qed

text \<open>
  If no worker is between its test and its sleep at the moment in which \<open>stop\<close> notifies
  \<open>batch_cv_\<close>, the notification reaches every worker: in every later state, until the scheduler is
  started again, no worker sleeps, and a worker that has not ended can take its next step unless
  it waits for the mutex or has a notification of its own to do.
\<close>

theorem stop_notification_reaches_workers:
  assumes "wait_reach opts cap jobs w" "shutdown (sys w)" "At_sleep \<notin> set (workers_at w)"
    and "wait_perform opts Stop_notify_batch w = Some w1"
    and "wait_run opts as w1 = Some w'" "list_all (wait_within opts cap) as" "list_all (\<lambda>a. \<not> is_start a) as"
  shows "Asleep \<notin> set (workers_at w') \<and> shutdown (sys w') \<and>
    (\<forall>i < length (workers (sys w')). \<not> aborted (sys w') \<longrightarrow>
       w_pc (workers (sys w') ! i) = W_exit \<or> workers_at w' ! i = At_notify \<or>
       (workers_at w' ! i = At_lock \<and> mutex w' \<noteq> Unlocked) \<or>
       (\<forall>env d h. wait_perform opts (Move (Work i env d h)) w' \<noteq> None))"
proof -
  have r1: "wait_reach opts cap (jobs @ wait_submitted Stop_notify_batch w) w1"
    by (rule wait_step [OF assms(1) _ assms(4)]) simp
  have "workers_told w1"
    using assms(2-4) by (auto simp: workers_told_def wait_perform_def stop_notify_batch_def notified_image split: if_splits)
  then have told: "workers_told w'"
    by (rule wait_run_keeps [OF assms(5) r1 _ assms(6,7)])
      (use workers_told_step wait_reach_frame in blast)
  have r: "wait_reach opts cap ((jobs @ wait_submitted Stop_notify_batch w) @ wait_log opts as w1) w'"
    by (rule wait_reach_run [OF r1 assms(6,5)])
  note inv = wait_reach_inv [OF r] and lc = reach_lifecycle [OF wait_reach_system [OF r]]
  have "w_pc (workers (sys w') ! i) = W_exit \<or> workers_at w' ! i = At_notify \<or>
       (workers_at w' ! i = At_lock \<and> mutex w' \<noteq> Unlocked) \<or>
       (\<forall>env d h. wait_perform opts (Move (Work i env d h)) w' \<noteq> None)"
    if "i < length (workers (sys w'))" "\<not> aborted (sys w')" for i
  proof -
    have "workers_at w' ! i \<in> set (workers_at w')" using inv that(1) mutex_inv_length [of w'] by simp
    then have "workers_at w' ! i \<noteq> Asleep" using told by (auto simp: workers_told_def)
    moreover have "\<And>b. w_pc (workers (sys w') ! i) \<noteq> W_crashed b" using lc that by (auto simp: lifecycle_def)
    ultimately show ?thesis using worker_move_enabled [OF that(2,1)] by blast
  qed
  with told show ?thesis by (simp add: workers_told_def)
qed

text \<open>A worker that sleeps when the dispatcher has ended and \<open>stop\<close> is joining stays asleep.\<close>

definition hung :: "nat \<Rightarrow> waits \<Rightarrow> bool" where
  "hung i w \<longleftrightarrow> started (sys w) \<and> dpc (sys w) = D_exit \<and> stop_at w = S_joining \<and>
     i < length (workers (sys w)) \<and> w_pc (workers (sys w) ! i) = W_wait \<and> workers_at w ! i = Asleep"

lemma hung_step:
  assumes "wait_perform opts a w = Some w'" "hung i w" "batches_wf (sys w)" "mutex_inv w"
  shows "hung i w'"
  using assms(1)
proof (cases rule: wait_perform_elim)
  case (start_up n stats mem s)
  with assms(2) show ?thesis by (auto simp: hung_def start_def)
next
  case join
  with assms(2) all_joined_start [of "sys w" i] show ?thesis by (auto simp: hung_def)
next
  case (dispatch now stats)
  then show ?thesis
  proof (cases rule: dispatcher_move_elim)
    case (other s)
    with dispatch_effect [OF other(3,1,2)] assms(2) show ?thesis by (simp add: hung_def)
  qed (use assms(2) in \<open>simp_all add: hung_def\<close>)
next
  case (work j env d h)
  then show ?thesis
  proof (cases rule: worker_move_elim)
    case (other s)
    with work_effect [OF other(4,2) assms(3)] assms(2) show ?thesis by (auto simp: hung_def nth_list_update)
  qed (use assms(2,4) in \<open>auto simp: hung_def nth_list_update mutex_inv_def workers_set_worker\<close>)
qed (use assms(2,4) in \<open>auto simp: hung_def nth_list_update mutex_inv_def\<close>)

subsection \<open>Concrete runs\<close>

text \<open>The worker finds no batch; before it sleeps, \<open>stop\<close> sets the flag and notifies; then the
  worker sleeps and the dispatcher ends.\<close>

definition hang_run :: "wait_action list" where
  "hang_run = [Move (Start 1 run_stats None), Move work, Move work, Move StopFlag, Stop_notify_batch,
     Stop_notify_space, Move work, Move dispatch, Move dispatch]"

text \<open>The worker sleeps; a job is submitted, packed and published.\<close>

definition publish_run :: "wait_action list" where
  "publish_run = map Move ([Start 1 run_stats None, work, work, work, SubmitPush 5 small_job, SubmitCount] @
     replicate 8 dispatch)"

text \<open>Two batches are published while the worker has not looked yet; then the dispatcher sleeps.\<close>

definition full_run :: "wait_action list" where
  "full_run = map Move ([Start 1 run_stats None, SubmitPush 5 small_job] @ replicate 8 dispatch) @
     [Notify_worker 0] @ map Move (SubmitPush 6 small_job # replicate 8 dispatch) @ [Notify_worker 0] @
     map Move (replicate 3 dispatch)"

definition stop_run :: "wait_action list" where
  "stop_run = map Move [Start 1 run_stats None, StopFlag]"

lemma run_ends:
  "wait_run run_opts hang_run new_waits \<noteq> None" "wait_run run_opts publish_run new_waits \<noteq> None"
  "wait_run run_opts full_run new_waits \<noteq> None" "wait_run run_opts stop_run new_waits \<noteq> None"
  by code_simp+

definition end_of :: "wait_action list \<Rightarrow> waits" where
  "end_of as = the (wait_run run_opts as new_waits)"

lemma wait_within_1000: "wait_within run_opts 1000 a"
  using budgets_1000 by (cases a) auto

lemma all_within_1000: "list_all (wait_within run_opts 1000) as"
  using wait_within_1000 by (simp add: list_all_iff)

lemma end_of_reach:
  "wait_run run_opts as new_waits \<noteq> None \<Longrightarrow> wait_reach run_opts 1000 (wait_log run_opts as new_waits) (end_of as)"
  using wait_reach_run [OF wait_init all_within_1000, of as "end_of as"] by (auto simp: end_of_def)

lemma end_facts:
  "hung 0 (end_of hang_run)"
  "workers_at (end_of publish_run) = [Asleep]" "disp_at (end_of publish_run) = At_notify"
  "\<not> aborted (sys (end_of publish_run))"
  "disp_at (end_of full_run) = Asleep" "\<not> aborted (sys (end_of full_run))" "length (workers (sys (end_of full_run))) = 1"
  "shutdown (sys (end_of stop_run))" "workers_at (end_of stop_run) = [At_lock]" "stop_at (end_of stop_run) = S_flagged"
  "\<not> aborted (sys (end_of stop_run))"
  by code_simp+

text \<open>
  C38.  \<open>stop\<close> can hang forever.  It sets \<open>shutdown_\<close> without \<open>batch_mutex_\<close>, so its notification
  of \<open>batch_cv_\<close> can come after a worker has found its predicate false and before it sleeps.  Here
  that happens: the dispatcher has ended, so nobody will notify the worker again, and in every
  state that any later steps reach (submissions included) the worker sleeps and \<open>stop\<close> joins it.
\<close>

theorem stop_can_hang_on_a_worker:
  "wait_run run_opts hang_run new_waits = Some (end_of hang_run) \<and>
   (\<forall>as w'. wait_run run_opts as (end_of hang_run) = Some w' \<longrightarrow>
      stop_at w' = S_joining \<and> dpc (sys w') = D_exit \<and> workers_at w' ! 0 = Asleep)"
proof (intro conjI allI impI)
  show "wait_run run_opts hang_run new_waits = Some (end_of hang_run)"
    using run_ends(1) by (auto simp: end_of_def)
  fix as w' assume "wait_run run_opts as (end_of hang_run) = Some w'"
  from this end_of_reach [OF run_ends(1)] end_facts(1) all_within_1000
  have "hung 0 w'"
    by (rule wait_run_keeps [where Q = "\<lambda>_. True"])
      (use hung_step wait_reach_frame in \<open>blast | simp add: list_all_iff\<close>)+
  then show "stop_at w' = S_joining" "dpc (sys w') = D_exit" "workers_at w' ! 0 = Asleep"
    by (simp_all add: hung_def)
qed

subsection \<open>Witnesses\<close>

theorem batch_waits_refine_scheduler_witness:
  "reach run_opts 1000 (wait_log run_opts publish_run new_waits) (sys (end_of publish_run)) \<and>
   completes run_opts 5 (end_of publish_run) (\<lambda>w'. dpc (sys w') = D_queue)"
proof -
  have "wait_space run_opts (sys (end_of publish_run)) \<noteq> None" "dpc (sys (end_of publish_run)) = D_space"
    "\<not> shutdown (sys (end_of publish_run))"
    by code_simp+
  with batch_waits_refine_scheduler [OF end_of_reach [OF run_ends(2)]] end_facts(4) show ?thesis by blast
qed

theorem batch_notification_not_lost_witness:
  "wait_perform run_opts (Notify_worker 0) (end_of publish_run) =
     Some (worker_to 0 At_lock ((end_of publish_run)\<lparr>disp_at := At_lock\<rparr>))"
  using batch_notification_not_lost [OF end_of_reach [OF run_ends(2)], of 0] end_facts(2-4) by simp

theorem dispatcher_always_rescued_witness:
  "\<exists>a. (a = Notify_dispatcher 0 \<or> (\<exists>env d h. a = Move (Work 0 env d h))) \<and>
     wait_perform run_opts a (end_of full_run) \<noteq> None"
proof -
  have "0 < sint (num_workers run_opts)" by (simp add: run_opts_def default_options_def)
  from dispatcher_always_rescued [OF end_of_reach [OF run_ends(3)] end_facts(5) this end_facts(6)]
  show ?thesis by (simp only: end_facts(7) less_one) blast
qed

theorem stop_notification_reaches_workers_witness:
  "Asleep \<notin> set (workers_at ((end_of stop_run)\<lparr>stop_at := S_batch_told\<rparr>))"
proof -
  let ?w = "(end_of stop_run)\<lparr>stop_at := S_batch_told\<rparr>"
  have "wait_perform run_opts Stop_notify_batch (end_of stop_run) = Some ?w"
    using end_facts(9-11) by (simp add: wait_perform_def stop_notify_batch_def notified_def)
  from stop_notification_reaches_workers [OF end_of_reach [OF run_ends(4)] end_facts(8) _ this, of "[]" ?w]
  show ?thesis using end_facts(9) by simp
qed

theorem stop_can_hang_on_a_worker_witness: "stop_at (end_of hang_run) = S_joining"
proof -
  have "wait_run run_opts [] (end_of hang_run) = Some (end_of hang_run)" by simp
  with stop_can_hang_on_a_worker show ?thesis by blast
qed

end
