(* ===== verification/Starvation.thy ===== *)
theory Starvation
  imports Scheduler
begin

section \<open>Large jobs under a stream of small ones (scheduler.cpp)\<close>

text \<open>
  Aging decides the order in which one call of \<open>pack_jobs\<close> looks at its candidates
  (\<open>pack_jobs_takes_aged\<close>).  The budget of that call is what the batches in flight leave,
  and nothing is held back for a job that does not fit.  This theory composes the dispatcher and
  a worker into the rounds of a run in which a small job is always in flight: every small job is
  served, and a large job that was accepted before them stays in the queue for ever.
  The lemmas \<open>dispatch_pass\<close> and \<open>worker_pass\<close> give the effect of one turn of the
  dispatcher's loop and of one turn of a worker's loop.
\<close>

subsection \<open>One turn of the dispatcher\<close>

lemma no_oversized:
  assumes "\<forall>j \<in> set js. bytes_required j \<le> max_job_bytes opts s"
  shows "reject_oversized opts js s = (js, s)"
proof -
  have "filter (\<lambda>j. \<not> bytes_required j > max_job_bytes opts s) js = js"
    "filter (\<lambda>j. bytes_required j > max_job_bytes opts s) js = []"
    using assms by (auto simp: filter_id_conv filter_empty_conv not_less)
  then show ?thesis by (simp add: reject_oversized_def split_oversized_filter Let_def)
qed

lemma reach_quiet:
  "reach opts cap jobs s \<Longrightarrow> budget_within opts cap a \<Longrightarrow> perform opts a s = Some s' \<Longrightarrow>
   submitted_by a s = [] \<Longrightarrow> reach opts cap jobs s'"
  using reach_step [of opts cap jobs s a s'] by simp

text \<open>The dispatcher finds room and candidates, packs, reserves and publishes: seven steps.\<close>

lemma dispatch_pass:
  assumes r: "reach opts cap jobs s" and cap: "budget_within opts cap (Dispatch now stats)"
    and pc: "dpc s = D_space" and room: "vector_size (batch_queue s) < max_queue_depth opts"
    and run: "\<not> shutdown s" "\<not> aborted s" "\<not> gpu_absent s"
    and drain: "drain_queue (queue s) = (cands, [])" "queue s \<noteq> []"
    and fit: "\<forall>j \<in> set cands. bytes_required j \<le> max_job_bytes opts s"
    and pack: "pack_jobs now cands (budget_bytes opts stats s) (opt_max_batch opts) = (True, sel, rem)"
      "sel \<noteq> []"
  shows "reach opts cap jobs (s\<lparr>queue := push_all [] rem, reserved := reserved s + batch_bytes sel,
    batch_queue := batch_queue s @ [sel], dpc := D_space\<rparr>)"
proof -
  note step = reach_quiet [where a = "Dispatch now stats", OF _ cap]
  note defs = perform_def dispatcher_step_def
  have 1: "reach opts cap jobs (s\<lparr>dpc := D_queue\<rparr>)"
    by (rule step [OF r]) (simp_all add: defs pc room run wait_space_def)
  have 2: "reach opts cap jobs (s\<lparr>queue := [], dpc := D_have cands\<rparr>)"
    by (rule step [OF 1]) (simp_all add: defs run drain drain_candidates_def)
  have m: "max_job_bytes opts (s\<lparr>queue := [], dpc := D_have cands\<rparr>) = max_job_bytes opts s"
    by (simp add: max_job_bytes_def)
  have 3: "reach opts cap jobs (s\<lparr>queue := [], dpc := D_pack cands\<rparr>)"
    by (rule step [OF 2]) (use no_oversized [of cands opts "s\<lparr>queue := [], dpc := D_have cands\<rparr>"] fit m
      in \<open>simp_all add: defs run filter_candidates_def\<close>)
  have b: "budget_bytes opts stats (s\<lparr>queue := [], dpc := D_pack cands\<rparr>) = budget_bytes opts stats s"
    by (simp add: budget_bytes_def split: option.split)
  have 4: "reach opts cap jobs (s\<lparr>queue := [], dpc := D_packed sel rem\<rparr>)"
    by (rule step [OF 3]) (simp_all add: defs run pack_candidates_def b pack)
  have 5: "reach opts cap jobs (s\<lparr>queue := push_all [] rem, dpc := D_reserve sel\<rparr>)"
    by (rule step [OF 4]) (simp_all add: defs run requeue_def pack)
  have 6: "reach opts cap jobs (s\<lparr>queue := push_all [] rem, reserved := reserved s + batch_bytes sel,
      dpc := D_publish sel\<rparr>)"
    by (rule step [OF 5]) (simp_all add: defs run reserve_batch_def reserve_bytes_def)
  show ?thesis
    by (rule step [OF 6]) (simp_all add: defs run publish_batch_def)
qed

subsection \<open>One turn of a worker\<close>

text \<open>It runs its batch, counts it, releases its bytes and takes the next one: four steps.\<close>

lemma worker_pass:
  assumes r: "reach opts cap jobs s"
    and i: "i < length (workers s)" and pc: "w_pc (workers s ! i) = W_exec b"
    and run: "\<not> aborted s" "\<not> gpu_absent s" and q: "batch_queue s = nextb # rest"
    and ok: "serves env f al" "b \<noteq> []" "elems_a (hd b) \<noteq> 0" "alloc_calls (d :: heap) = 0"
    and res: "batch_bytes b \<le> reserved s"
  obtains s' where "reach opts cap jobs s'" "length (workers s') = length (workers s)"
    "w_pc (workers s' ! i) = W_exec nextb" "batch_queue s' = rest"
    "metrics s' = metrics s @ reports env b" "reserved s' = reserved s - batch_bytes b"
    "queue s' = queue s" "next_seq s' = next_seq s" "started s' = started s" "shutdown s' = shutdown s"
    "gpu_absent s' = gpu_absent s" "total_mem_bytes s' = total_mem_bytes s" "dpc s' = dpc s"
    "counting s' = counting s" "\<not> aborted s'"
proof -
  have quiet: "budget_within opts cap (Work i env d h)" "submitted_by (Work i env d h) x = []" for h x
    by (simp_all add: budget_within_def)
  note step = reach_quiet [where a = "Work i env d d", OF _ quiet(1) _ quiet(2)]
  obtain r1 ctx' st s1 where e: "execute_jobs env opts (w_ctx (workers s ! i)) b d d s = (r1, ctx', st, s1)"
    by (metis prod_cases4)
  have r1: "r1 = Published (length b)" by (rule execute_jobs_serves [OF ok(1-4) e])
  note f = execute_jobs_system [OF ok(2) e]
  from execute_jobs_result [OF ok(2) e] r1
  have m: "metrics s1 = metrics s @ reports env b" "total_mem_bytes s1 = total_mem_bytes s"
    by (simp_all add: batch_frame_def)
  let ?s1 = "after_run i b r1 ctx' s1"
  let ?s2 = "set_worker i (W_release b) (count_completed (length b) ?s1)"
  let ?s3 = "set_worker i W_wait (release_bytes (batch_bytes b) ?s2)"
  let ?s4 = "set_worker i (W_exec nextb) (?s3\<lparr>batch_queue := rest\<rparr>)"
  have w1: "workers ?s1 = (workers s)[i := \<lparr>w_ctx = ctx', w_pc = W_count (length b) b\<rparr>]"
    using i f by (simp add: after_run_workers run_pc_def r1)
  have w2: "workers ?s2 = (workers s)[i := \<lparr>w_ctx = ctx', w_pc = W_release b\<rparr>]"
    using i w1 by (simp add: workers_set_worker count_completed_def)
  have w3: "workers ?s3 = (workers s)[i := \<lparr>w_ctx = ctx', w_pc = W_wait\<rparr>]"
    using i w2 by (simp add: workers_set_worker release_bytes_def)
  have w4: "workers ?s4 = (workers s)[i := \<lparr>w_ctx = ctx', w_pc = W_exec nextb\<rparr>]"
    using i w3 by (simp add: workers_set_worker)
  have 1: "reach opts cap jobs ?s1"
  proof (rule step [OF r])
    show "perform opts (Work i env d d) s = Some ?s1"
      using i pc run e by (simp add: perform_def worker_step_def run_batch_def r1 after_run_def Let_def)
  qed
  have 2: "reach opts cap jobs ?s2"
    by (rule step [OF 1]) (use i w1 run f in \<open>simp add: perform_def worker_step_def\<close>)
  have 3: "reach opts cap jobs ?s3"
    by (rule step [OF 2]) (use i w2 run f in \<open>simp add: perform_def worker_step_def count_completed_def\<close>)
  have 4: "reach opts cap jobs ?s4"
    by (rule step [OF 3])
      (use i w3 run f q in \<open>simp add: perform_def worker_step_def take_batch_def count_completed_def release_bytes_def\<close>)
  have tot: "total_mem_bytes ?s1 = total_mem_bytes s1" by (simp add: after_run_def)
  show thesis
    by (rule that [OF 4])
      (use i w4 f m q run leD [OF res] tot in \<open>simp_all add: count_completed_def release_bytes_def\<close>)
qed

subsection \<open>A round\<close>

text \<open>The budget \<open>B\<close> that the dispatcher sees has room for two small jobs, or for the large one
  alone, and both pass the oversize check of a device with \<open>stats_total\<close> bytes.\<close>

definition crowded :: "Options \<Rightarrow> GpuStats \<Rightarrow> size_t \<Rightarrow> InferenceJob \<Rightarrow> InferenceJob \<Rightarrow> bool" where
  "crowded opts stats B small big \<longleftrightarrow> budget_base opts stats = Some B \<and> unat B < 2 ^ 63 \<and>
     2 * need small \<le> unat B \<and> need big \<le> unat B \<and> unat B < need big + need small \<and>
     unat (safety_margin_bytes opts) + unat B \<le> unat (stats_total stats)"

lemma crowded_fits:
  assumes "crowded opts stats B small big" "total_mem_bytes s = stats_total stats" "need j \<le> unat B"
  shows "bytes_required j \<le> max_job_bytes opts s"
proof -
  let ?t = "stats_total stats"
  have "0 < unat B" "unat (safety_margin_bytes opts) + unat B \<le> unat ?t"
    using assms(1) by (auto simp: crowded_def)
  then have "?t \<noteq> 0" "safety_margin_bytes opts < ?t" "unat (?t - safety_margin_bytes opts) \<ge> unat B"
    by (auto simp: word_less_nat_alt unat_sub word_le_nat_alt)
  with assms show ?thesis by (simp add: max_job_bytes_def word_le_nat_alt)
qed

lemma crowded_budget:
  assumes "crowded opts stats B small big" "reserved s = r" "unat r \<le> unat B"
  shows "unat (budget_bytes opts stats s) = unat B - unat r"
  using assms by (simp add: unat_budget_bytes crowded_def)

lemma pack_one:
  assumes "unat b < 2 ^ 63" "need x \<le> unat b"
  shows "pack_jobs now [x] b mb = (True, [x], [])"
proof -
  obtain ok sel rem where p: "pack_jobs now [x] b mb = (ok, sel, rem)" by (metis prod_cases3)
  from pack_jobs_greedy [OF p assms(1)] assms(2) p show ?thesis by (auto simp: under_cap_def)
qed

text \<open>Whatever order the comparator gives two candidates, the one that fits is taken.\<close>

lemma pack_small:
  assumes "unat b < 2 ^ 63" "need x \<le> unat b" "unat b < need y" "mset cands = {#x, y#}"
  shows "pack_jobs now cands b mb = (True, [x], [y])"
proof -
  obtain ok sel rem where p: "pack_jobs now cands b mb = (ok, sel, rem)" by (metis prod_cases3)
  have "mset (stable_sort (pack_less now) cands) = {#x, y#}" using assms(4) by simp
  then have "stable_sort (pack_less now) cands = [x, y] \<or> stable_sort (pack_less now) cands = [y, x]"
    by (cases "stable_sort (pack_less now) cands" rule: remdups_adj.cases)
      (auto simp: add_eq_conv_ex add_mset_eq_single)
  with pack_jobs_greedy [OF p assms(1)] assms(2,3) p show ?thesis by (auto simp: under_cap_def)
qed

lemma stamp_bytes [simp]:
  "bytes_required (stamp t q j) = bytes_required j" "elems_a (stamp t q j) = elems_a j"
  by (simp_all add: stamp_def bytes_required_def elems_a_def)

lemma batch_bytes_single [simp]: "batch_bytes [j] = bytes_required j"
  by (simp add: batch_bytes_def)

text \<open>The state between two rounds: the large job waits, the job \<open>x\<close> is on worker 0.\<close>

definition starving :: "InferenceJob \<Rightarrow> InferenceJob \<Rightarrow> system \<Rightarrow> bool" where
  "starving big x s \<longleftrightarrow> queue s = [big] \<and> batch_queue s = [] \<and> dpc s = D_space \<and> \<not> shutdown s \<and>
     \<not> aborted s \<and> \<not> gpu_absent s \<and> workers s \<noteq> [] \<and> w_pc (workers s ! 0) = W_exec [x] \<and>
     reserved s = bytes_required x"

text \<open>A caller submits: the push and the counter.\<close>

lemma submit_pass:
  assumes "reach opts cap jobs s" "\<not> aborted s"
  shows "reach opts cap (jobs @ [stamp t (next_seq s) job])
    (s\<lparr>next_seq := next_seq s + 1, queue := pq_push JobPriorityCompare (queue s) (stamp t (next_seq s) job),
       submitted := submitted s + 1\<rparr>)"
proof -
  let ?s1 = "(fst (submit_push t job s))\<lparr>counting := Suc (counting s)\<rparr>"
  have 1: "reach opts cap (jobs @ [stamp t (next_seq s) job]) ?s1"
    using reach_step [OF assms(1), of "SubmitPush t job" ?s1] assms(2)
    by (simp add: perform_def budget_within_def)
  show ?thesis
    by (rule reach_quiet [where a = SubmitCount, OF 1])
      (use assms(2) in \<open>simp_all add: perform_def budget_within_def submit_push_def submit_count_def Let_def\<close>)
qed

lemma queue_has_room: "0 < max_queue_depth opts"
  by (simp add: max_queue_depth_def less_max_iff_disj)

text \<open>In a round a small job is submitted, packed and published, and worker 0 finishes the one it
  has and takes the new one; the large job does not fit next to it.\<close>

lemma starving_round:
  assumes r: "reach opts (unat B) jobs s" and st: "starving big x s"
    and total: "total_mem_bytes s = stats_total stats"
    and crowded: "crowded opts stats B small big" and x: "bytes_required x = bytes_required small" "elems_a x \<noteq> 0"
    and ok: "serves env f al"
  obtains s' where "reach opts (unat B) (jobs @ [stamp t (next_seq s) small]) s'"
    "starving big (stamp t (next_seq s) small) s'" "total_mem_bytes s' = stats_total stats"
    "next_seq s' = next_seq s + 1" "metrics s' = metrics s @ reports env [x]"
proof -
  let ?x = "stamp t (next_seq s) small"
  let ?s1 = "s\<lparr>next_seq := next_seq s + 1, queue := pq_push JobPriorityCompare (queue s) ?x,
       submitted := submitted s + 1\<rparr>"
  note s = st [unfolded starving_def]
  have cr: "budget_base opts stats = Some B" "unat B < 2 ^ 63" "2 * need small \<le> unat B" "need big \<le> unat B"
    "unat B < need big + need small"
    using crowded by (simp_all add: crowded_def)
  have 1: "reach opts (unat B) (jobs @ [?x]) ?s1"
    by (rule submit_pass [OF r]) (use s in simp)
  obtain cands q where d: "drain_queue (queue ?s1) = (cands, q)" by fastforce
  have c: "drain_queue (queue ?s1) = (cands, [])" "mset cands = {#?x, big#}"
    using drain_queue_mset [OF d] d s by (simp_all add: pq.elems_push)
  have "bytes_required j \<le> max_job_bytes opts ?s1" if "j \<in> set cands" for j
  proof (rule crowded_fits [OF crowded])
    have "j = ?x \<or> j = big" using that c(2) by (metis empty_iff insert_iff set_mset_add_mset_insert set_mset_empty set_mset_mset)
    with cr show "need j \<le> unat B" by auto
  qed (simp add: total)
  then have fit: "\<forall>j \<in> set cands. bytes_required j \<le> max_job_bytes opts ?s1" by blast
  have b: "unat (budget_bytes opts stats ?s1) = unat B - need small"
    by (rule crowded_budget [OF crowded]) (use s x cr in simp_all)
  have pack: "pack_jobs t cands (budget_bytes opts stats ?s1) (opt_max_batch opts) = (True, [?x], [big])"
    by (rule pack_small) (use b cr c in auto)
  let ?s2 = "?s1\<lparr>queue := push_all [] [big], reserved := reserved ?s1 + batch_bytes [?x],
    batch_queue := batch_queue ?s1 @ [[?x]], dpc := D_space\<rparr>"
  have 2: "reach opts (unat B) (jobs @ [?x]) ?s2"
    by (rule dispatch_pass [OF 1 _ _ _ _ _ _ c(1) _ fit pack])
      (use s in \<open>simp_all add: budget_within_def cr queue_has_room pq_push_def\<close>)
  have room: "batch_bytes [x] \<le> reserved ?s2"
  proof -
    have "unat (bytes_required small) + unat (bytes_required small) < 2 ^ LENGTH(64)" using cr by simp
    then have "unat (bytes_required small + bytes_required small) = need small + need small"
      by (rule unat_add_no_wrap)
    with s x show ?thesis by (simp add: word_le_nat_alt)
  qed
  obtain s3 where s3: "reach opts (unat B) (jobs @ [?x]) s3" "length (workers s3) = length (workers ?s2)"
    "w_pc (workers s3 ! 0) = W_exec [?x]" "batch_queue s3 = []"
    "metrics s3 = metrics ?s2 @ reports env [x]" "reserved s3 = reserved ?s2 - batch_bytes [x]"
    "queue s3 = queue ?s2" "next_seq s3 = next_seq ?s2" "shutdown s3 = shutdown ?s2"
    "gpu_absent s3 = gpu_absent ?s2" "total_mem_bytes s3 = total_mem_bytes ?s2" "dpc s3 = dpc ?s2"
    "\<not> aborted s3"
    by (rule worker_pass [OF 2, of 0 "[x]" "[?x]" "[]" env f al sample_heap])
      (use s x ok room sample_facts(4) in simp_all)
  have "workers s3 \<noteq> []" using s s3(2) by (cases "workers s3") simp_all
  then show thesis
    by (intro that [OF s3(1)]) (use s s3 x total in \<open>simp_all add: starving_def pq_push_def\<close>)
qed

subsection \<open>Every round\<close>

abbreviation small_jobs :: "(nat \<Rightarrow> time_point) \<Rightarrow> u64 \<Rightarrow> InferenceJob \<Rightarrow> nat \<Rightarrow> InferenceJob list" where
  "small_jobs t q small n \<equiv> map (\<lambda>i. stamp (t i) (q + word_of_nat i) small) [0..<n]"

lemma starving_rounds:
  assumes r: "reach opts (unat B) jobs s" and st: "starving big x s"
    and total: "total_mem_bytes s = stats_total stats"
    and crowded: "crowded opts stats B small big" and x: "bytes_required x = bytes_required small" "elems_a x \<noteq> 0"
    and small: "elems_a small \<noteq> 0" and ok: "serves env f al"
  shows "\<exists>s' y. reach opts (unat B) (jobs @ small_jobs t (next_seq s) small n) s' \<and> starving big y s' \<and>
    bytes_required y = bytes_required small \<and> elems_a y \<noteq> 0 \<and> total_mem_bytes s' = stats_total stats \<and>
    next_seq s' = next_seq s + word_of_nat n \<and> length (metrics s') = length (metrics s) + n \<and>
    (list_all JobMetrics.ok (metrics s) \<longrightarrow> list_all JobMetrics.ok (metrics s'))"
proof (induction n)
  case 0
  show ?case by (intro exI [of _ s] exI [of _ x]) (use assms in simp)
next
  case (Suc n)
  then obtain s1 y where s1: "reach opts (unat B) (jobs @ small_jobs t (next_seq s) small n) s1"
    "starving big y s1" "total_mem_bytes s1 = stats_total stats" "bytes_required y = bytes_required small"
    "elems_a y \<noteq> 0" "next_seq s1 = next_seq s + word_of_nat n"
    "length (metrics s1) = length (metrics s) + n"
    "list_all JobMetrics.ok (metrics s) \<longrightarrow> list_all JobMetrics.ok (metrics s1)" by blast
  let ?z = "stamp (t n) (next_seq s1) small"
  obtain s2 where s2: "reach opts (unat B) ((jobs @ small_jobs t (next_seq s) small n) @ [?z]) s2"
    "starving big ?z s2" "total_mem_bytes s2 = stats_total stats"
    "next_seq s2 = next_seq s1 + 1" "metrics s2 = metrics s1 @ reports env [y]"
    by (rule starving_round [OF s1(1-3) crowded s1(4,5) ok])
  show ?case
    by (intro exI [of _ s2] exI [of _ ?z])
      (use s1 s2 small in \<open>simp add: reports_def done_metrics_def add_ac\<close>)
qed

text \<open>The start: a small job goes to worker 0, then the large one is submitted.\<close>

lemma starving_start:
  assumes crowded: "crowded opts stats B small big" and workers: "0 < sint (num_workers opts)"
  obtains s where "reach opts (unat B) [stamp t 0 small, stamp t 1 big] s"
    "starving (stamp t 1 big) (stamp t 0 small) s" "total_mem_bytes s = stats_total stats"
    "next_seq s = 2" "metrics s = []"
proof -
  let ?a = "stamp t 0 small"
  have cr: "budget_base opts stats = Some B" "unat B < 2 ^ 63" "2 * need small \<le> unat B" "need big \<le> unat B"
    "unat B < need big + need small" "unat (safety_margin_bytes opts) + unat B \<le> unat (stats_total stats)"
    using crowded by (simp_all add: crowded_def)
  have tot: "stats_total stats \<noteq> 0" using cr(3-6) by auto
  note new = new_system_def new_sched_def sched.extend_def system.fields_def pq_empty_def
  let ?ws = "replicate (nat (sint (num_workers opts))) \<lparr>w_ctx = fresh_ctx, w_pc = W_wait\<rparr>"
  let ?s1 = "new_system\<lparr>started := True, total_mem_bytes := stats_total stats, dpc := D_space, workers := ?ws\<rparr>"
  have 1: "reach opts (unat B) [] ?s1"
    by (rule reach_quiet [where a = "Start 1 stats None", OF reach_init])
      (use workers tot in \<open>simp_all add: perform_def start_def budget_within_def new\<close>)
  let ?s2 = "?s1\<lparr>next_seq := 1, queue := [?a], submitted := 1\<rparr>"
  have 2: "reach opts (unat B) [?a] ?s2"
    using submit_pass [OF 1, of t small] by (simp add: new pq_push_def)
  have drain: "drain_queue (queue ?s2) = ([?a], [])" by (simp add: drain_queue_def pq_top_def pq_pop_def)
  have fit: "bytes_required ?a \<le> max_job_bytes opts ?s2"
    by (rule crowded_fits [OF crowded]) (use cr in simp_all)
  have b: "unat (budget_bytes opts stats ?s2) = unat B - unat (0 :: size_t)"
    by (rule crowded_budget [OF crowded]) (simp_all add: new)
  have pack: "pack_jobs t [?a] (budget_bytes opts stats ?s2) (opt_max_batch opts) = (True, [?a], [])"
    by (rule pack_one) (use b cr in auto)
  let ?s3 = "?s2\<lparr>queue := push_all [] [], reserved := reserved ?s2 + batch_bytes [?a],
    batch_queue := batch_queue ?s2 @ [[?a]], dpc := D_space\<rparr>"
  have 3: "reach opts (unat B) [?a] ?s3"
    by (rule dispatch_pass [OF 2 _ _ _ _ _ _ drain _ _ pack])
      (use fit in \<open>simp_all add: budget_within_def cr queue_has_room new\<close>)
  let ?s4 = "set_worker 0 (W_exec [?a]) (?s3\<lparr>batch_queue := []\<rparr>)"
  have ws: "0 < length ?ws" "?ws ! 0 = \<lparr>w_ctx = fresh_ctx, w_pc = W_wait\<rparr>" using workers by simp_all
  have 4: "reach opts (unat B) [?a] ?s4"
    by (rule reach_quiet [where a = "Work 0 (sample_env None) sample_heap sample_heap", OF 3])
      (use ws in \<open>simp_all add: perform_def budget_within_def worker_step_def take_batch_def new\<close>)
  let ?s5 = "?s4\<lparr>next_seq := 2, queue := [stamp t 1 big], submitted := 2\<rparr>"
  have 5: "reach opts (unat B) ([?a] @ [stamp t 1 big]) ?s5"
    using submit_pass [OF 4, of t big] by (simp add: new pq_push_def set_worker_def)
  show thesis
    by (rule that [of ?s5]) (use 5 ws in \<open>simp_all add: starving_def new set_worker_def\<close>)
qed

text \<open>
  C25.  A large job can wait for ever under a stream of small ones, although it was accepted before
  them and ages.  When the budget has room for the large job alone but not next to a small one, then
  for every number \<open>n\<close> and whatever the clock shows at each submission there is a run with \<open>n\<close>
  small jobs submitted after the large one, all served successfully but the last, which is in
  flight, while the large job is still queued.
\<close>

theorem large_job_can_starve:
  assumes "crowded opts stats B small big" "0 < sint (num_workers opts)" "elems_a small \<noteq> 0"
    and "serves env f al"
  shows "\<exists>s. reach opts (unat B) ([stamp t0 0 small, stamp t0 1 big] @ small_jobs t 2 small n) s \<and>
    queue s = [stamp t0 1 big] \<and> length (metrics s) = n \<and> list_all JobMetrics.ok (metrics s)"
proof -
  obtain s where s: "reach opts (unat B) [stamp t0 0 small, stamp t0 1 big] s"
    "starving (stamp t0 1 big) (stamp t0 0 small) s" "total_mem_bytes s = stats_total stats"
    "next_seq s = 2" "metrics s = []"
    by (rule starving_start [OF assms(1,2)])
  have "crowded opts stats B small (stamp t0 1 big)" using assms(1) by (simp add: crowded_def)
  from starving_rounds [OF s(1-3) this _ _ assms(3,4), of t n] s(4,5) assms(3) show ?thesis
    by (auto simp: starving_def)
qed

text \<open>A job of 1000 bytes on a budget of 1000 bytes, and jobs of 12 bytes.\<close>

definition full_job :: InferenceJob where
  "full_job = default_job\<lparr>job_id := 2, job_m := 1, job_n := 62, job_k := 1, job_batch := 2\<rparr>"

definition t4_stats :: GpuStats where
  "t4_stats = \<lparr>stats_total = 2 ^ 34, stats_free = 2 ^ 33, stats_util = 0\<rparr>"

theorem large_job_can_starve_witness:
  "\<exists>s. reach run_opts 1000 ([stamp 5 0 small_job, stamp 5 1 full_job] @
      small_jobs (\<lambda>i. 3600000000000 * int i) 2 small_job 100000) s \<and>
    queue s = [stamp 5 1 full_job] \<and> length (metrics s) = 100000"
proof -
  have c: "crowded run_opts t4_stats 1000 small_job full_job"
    by (simp add: crowded_def budget_base_def run_opts_def default_options_def t4_stats_def full_job_def
        small_job_def default_job_def bytes_required_def size_of_int_def)
  have "serves (sample_env None) 3 grow_alloc"
    by (simp add: serves_def sample_facts grow_alloc_ok)
  moreover have "elems_a small_job \<noteq> 0" by code_simp
  moreover have "0 < sint (num_workers run_opts)" by (simp add: run_opts_def default_options_def)
  ultimately show ?thesis
    using large_job_can_starve [OF c, of "sample_env None" 3 grow_alloc 5 "\<lambda>i. 3600000000000 * int i" 100000]
    by auto
qed

end
