(* ===== verification/CommandLine.thy ===== *)
theory CommandLine
  imports Prelude "HOL-Library.Char_ord"
begin

section \<open>Numbers and options on the command line (main.cpp, bench/*.cpp)\<close>

text \<open>
  The four programs of the repository read their options with the same helpers: \<open>parse_int\<close>,
  \<open>parse_u64\<close>, \<open>option_value\<close> and a loop over \<open>argv\<close>.  Strings are lists of characters,
  an exception is \<open>Inl\<close> of its message.  \<open>stoi\<close>, \<open>stoull\<close> and \<open>to_string\<close> are the
  functions of the standard library for base 10.
\<close>

subsection \<open>Decimal numbers\<close>

definition is_space :: "char \<Rightarrow> bool" where
  "is_space c \<longleftrightarrow> (let n = of_char c :: nat in n = 32 \<or> (9 \<le> n \<and> n \<le> 13))"

definition is_digit :: "char \<Rightarrow> bool" where
  "is_digit c \<longleftrightarrow> (let n = of_char c :: nat in 48 \<le> n \<and> n \<le> 57)"

definition digits_value :: "string \<Rightarrow> nat" where
  "digits_value s = foldl (\<lambda>n c. 10 * n + (of_char c - 48)) 0 s"

text \<open>White space, an optional sign and digits: the sign, the magnitude and the number of
  characters read.\<close>

definition scan_number :: "string \<Rightarrow> (bool \<times> nat \<times> nat) option" where
  "scan_number s =
     (let s1 = dropWhile is_space s;
          neg = (s1 \<noteq> [] \<and> hd s1 = CHR ''-'');
          s2 = (if s1 \<noteq> [] \<and> (hd s1 = CHR ''-'' \<or> hd s1 = CHR ''+'') then tl s1 else s1);
          ds = takeWhile is_digit s2
      in if ds = [] then None
         else Some (neg, digits_value ds, length s - length s2 + length ds))"

text \<open>\<open>None\<close> is an exception (\<open>invalid_argument\<close> or \<open>out_of_range\<close>); the second component
  is what \<open>pos\<close> is set to.\<close>

definition stoi :: "string \<Rightarrow> (i32 \<times> nat) option" where
  "stoi s =
     (case scan_number s of None \<Rightarrow> None
      | Some (neg, m, pos) \<Rightarrow>
          let v = (if neg then - int m else int m)
          in if - (2 ^ 31) \<le> v \<and> v < 2 ^ 31 then Some (word_of_int v, pos) else None)"

definition stoull :: "string \<Rightarrow> (u64 \<times> nat) option" where
  "stoull s =
     (case scan_number s of None \<Rightarrow> None
      | Some (neg, m, pos) \<Rightarrow>
          if m < 2 ^ 64 then Some (if neg then - word_of_nat m else word_of_nat m, pos) else None)"

fun show_nat :: "nat \<Rightarrow> string" where
  "show_nat n = (if n < 10 then [char_of (48 + n)] else show_nat (n div 10) @ [char_of (48 + n mod 10)])"

definition to_string :: "i32 \<Rightarrow> string" where
  "to_string v = (if sint v < 0 then CHR ''-'' # show_nat (nat (- sint v)) else show_nat (nat (sint v)))"

subsection \<open>Floating-point values\<close>

text \<open>A \<open>double\<close>: a finite one is its exact value.\<close>

datatype double = Fin rat | PosInf | NegInf | NaN

fun below_zero :: "double \<Rightarrow> bool" where
  "below_zero (Fin q) = (q < 0)"
| "below_zero NegInf = True"
| "below_zero _ = False"

subsection \<open>Options\<close>

definition invalid_integer :: "string \<Rightarrow> string \<Rightarrow> string" where
  "invalid_integer name val = ''invalid integer for '' @ name @ '': '' @ val"

definition parse_int :: "string \<Rightarrow> string \<Rightarrow> string + i32" where
  "parse_int name val =
     (case stoi val of None \<Rightarrow> Inl (invalid_integer name val)
      | Some (v, pos) \<Rightarrow> if pos \<noteq> length val then Inl (invalid_integer name val) else Inr v)"

definition parse_u64 :: "string \<Rightarrow> string \<Rightarrow> string + u64" where
  "parse_u64 name val =
     (case stoull val of None \<Rightarrow> Inl (invalid_integer name val)
      | Some (v, pos) \<Rightarrow> if pos \<noteq> length val then Inl (invalid_integer name val) else Inr v)"

text \<open>\<open>arg == name || arg.rfind(name + "=", 0) == 0\<close>\<close>

fun starts_with :: "string \<Rightarrow> string \<Rightarrow> bool" where
  "starts_with [] arg = True"
| "starts_with (c # prefix) [] = False"
| "starts_with (c # prefix) (d # arg) = (c = d \<and> starts_with prefix arg)"

definition is_option :: "string \<Rightarrow> string \<Rightarrow> bool" where
  "is_option name arg \<longleftrightarrow> arg = name \<or> starts_with (name @ ''='') arg"

text \<open>The value of an option and how many of the following arguments it uses (\<open>++i\<close>).\<close>

definition option_value :: "string \<Rightarrow> string \<Rightarrow> string list \<Rightarrow> string + (string \<times> nat)" where
  "option_value name arg rest =
     (if starts_with (name @ ''='') arg then Inr (drop (length (name @ ''='')) arg, 0)
      else case rest of v # _ \<Rightarrow> Inr (v, 1) | [] \<Rightarrow> Inl (''missing value for '' @ name))"

text \<open>An option with a value that a parser reads and an update stores.\<close>

definition with_value :: "(string \<Rightarrow> string \<Rightarrow> string + 'v) \<Rightarrow> string \<Rightarrow> string \<Rightarrow> string list
    \<Rightarrow> ('v \<Rightarrow> 's) \<Rightarrow> string + ('s \<times> nat)" where
  "with_value parse name arg rest upd =
     (case option_value name arg rest of Inl e \<Rightarrow> Inl e
      | Inr (s, used) \<Rightarrow> (case parse name s of Inl e \<Rightarrow> Inl e | Inr v \<Rightarrow> Inr (upd v, used)))"

definition parse_string :: "string \<Rightarrow> string \<Rightarrow> string + string" where
  "parse_string name val = Inr val"

text \<open>The loop \<open>for (int i = 1; i < argc; ++i)\<close> over the arguments after the program's name.\<close>

fun parse_loop :: "(string \<Rightarrow> string list \<Rightarrow> 's \<Rightarrow> string + ('s \<times> nat)) \<Rightarrow> string list \<Rightarrow> 's \<Rightarrow> string + 's" where
  "parse_loop one [] st = Inr st"
| "parse_loop one (arg # rest) st =
     (case one arg rest st of Inl e \<Rightarrow> Inl e | Inr (st', used) \<Rightarrow> parse_loop one (drop used rest) st')"

subsection \<open>Printing and reading\<close>

declare show_nat.simps [simp del]

lemma of_char_digit: "d < 10 \<Longrightarrow> of_char (char_of (48 + d :: nat) :: char) = 48 + d"
  by (simp add: of_char_of)

lemma show_nat_digits: "show_nat n \<noteq> [] \<and> list_all is_digit (show_nat n)"
proof (induction n rule: show_nat.induct)
  case (1 n)
  show ?case
  proof (cases "n < 10")
    case True
    then have "show_nat n = [char_of (48 + n)]" by (subst show_nat.simps) simp
    then show ?thesis using True by (simp add: is_digit_def of_char_digit del: of_char_of)
  next
    case False
    then have "show_nat n = show_nat (n div 10) @ [char_of (48 + n mod 10)]"
      by (subst show_nat.simps) simp
    then show ?thesis using 1 [OF False] by (simp add: is_digit_def of_char_digit del: of_char_of)
  qed
qed

lemma digits_value_snoc: "digits_value (s @ [c]) = 10 * digits_value s + (of_char c - 48)"
  by (simp add: digits_value_def)

lemma digits_value_show: "digits_value (show_nat n) = n"
proof (induction n rule: show_nat.induct)
  case (1 n)
  show ?case
  proof (cases "n < 10")
    case True
    then show ?thesis by (subst show_nat.simps) (simp add: digits_value_def of_char_digit del: of_char_of)
  next
    case False
    have "n mod 10 < 10" by simp
    with False 1 show ?thesis
      by (subst show_nat.simps) (simp add: digits_value_snoc of_char_digit del: of_char_of)
  qed
qed

lemma digit_not_special: "is_digit c \<Longrightarrow> \<not> is_space c \<and> c \<noteq> CHR ''-'' \<and> c \<noteq> CHR ''+'' \<and> c \<noteq> CHR ''x''"
  by (auto simp: is_digit_def is_space_def Let_def)

lemma takeWhile_digits: "list_all is_digit ds \<Longrightarrow> (rest = [] \<or> \<not> is_digit (hd rest)) \<Longrightarrow>
    takeWhile is_digit (ds @ rest) = ds"
  by (induction ds) (cases rest; auto)+

lemma scan_show_nat:
  assumes "rest = [] \<or> \<not> is_digit (hd rest)"
  shows "scan_number (show_nat n @ rest) = Some (False, n, length (show_nat n))"
proof -
  obtain c cs where s: "show_nat n = c # cs" using show_nat_digits [of n] by (cases "show_nat n") auto
  then have c: "is_digit c" using show_nat_digits [of n] by simp
  have "takeWhile is_digit (show_nat n @ rest) = show_nat n"
    by (rule takeWhile_digits) (use show_nat_digits assms in auto)
  then show ?thesis
    using digit_not_special [OF c] digits_value_show [of n] by (simp add: scan_number_def s Let_def)
qed

lemma scan_show_neg:
  assumes "rest = [] \<or> \<not> is_digit (hd rest)"
  shows "scan_number (CHR ''-'' # show_nat n @ rest) = Some (True, n, Suc (length (show_nat n)))"
proof -
  have "takeWhile is_digit (show_nat n @ rest) = show_nat n"
    by (rule takeWhile_digits) (use show_nat_digits assms in auto)
  moreover have "\<not> is_space (CHR ''-'')" by (simp add: is_space_def)
  ultimately show ?thesis
    using show_nat_digits [of n] by (simp add: scan_number_def digits_value_show Let_def)
qed

text \<open>Reading what \<open>to_string\<close> prints, with anything after it that is not a digit.\<close>

lemma stoi_to_string:
  assumes "rest = [] \<or> \<not> is_digit (hd rest)"
  shows "stoi (to_string v @ rest) = Some (v, length (to_string v))"
proof -
  have b: "- (2 ^ 31) \<le> sint v" "sint v < 2 ^ 31" using sint_ge [of v] sint_lt [of v] by simp_all
  show ?thesis
  proof (cases "sint v < 0")
    case True
    then show ?thesis using scan_show_neg [OF assms, of "nat (- sint v)"] b
      by (simp add: stoi_def to_string_def)
  next
    case False
    then show ?thesis using scan_show_nat [OF assms, of "nat (sint v)"] b
      by (simp add: stoi_def to_string_def)
  qed
qed

subsection \<open>Facts for the programs\<close>

lemma starts_with_take: "starts_with p s \<longleftrightarrow> take (length p) s = p"
  by (induction p s rule: starts_with.induct) auto

lemma name_no_prefix: "\<not> starts_with (name @ ''='') name"
proof
  assume "starts_with (name @ ''='') name"
  then have "length (name @ ''='') \<le> length name"
    unfolding starts_with_take by (metis length_take min.cobounded1)
  then show False by simp
qed

lemma starts_with_append [simp]: "starts_with p (p @ v)"
  by (induction p) simp_all

lemma option_value_joined: "option_value name ((name @ ''='') @ v) rest = Inr (v, 0)"
  unfolding option_value_def by (simp only: starts_with_append if_True append_eq_conv_conj [THEN iffD1, OF refl]) simp

lemma option_value_apart: "option_value name name (v # rest) = Inr (v, 1)"
  using name_no_prefix [of name] by (simp add: option_value_def)

text \<open>Names of options have no \<open>=\<close>, so an argument that spells one of them matches no other.\<close>

definition joined :: "string \<Rightarrow> string \<Rightarrow> string \<Rightarrow> bool" where
  "joined name v arg \<longleftrightarrow> CHR ''='' \<notin> set name \<and> arg = name @ CHR ''='' # v"

lemma starts_with_split:
  assumes "CHR ''='' \<notin> set s" "CHR ''='' \<notin> set name"
  shows "starts_with (s @ ''='') (name @ CHR ''='' # v) \<longleftrightarrow> name = s"
  using assms
proof (induction s arbitrary: name)
  case Nil
  then show ?case by (cases name) auto
next
  case (Cons c s)
  then show ?case by (cases name) auto
qed

lemma starts_with_no_eq: "CHR ''='' \<notin> set name \<Longrightarrow> \<not> starts_with (s @ ''='') name"
proof (induction s arbitrary: name)
  case Nil
  then show ?case by (cases name) auto
next
  case (Cons c s)
  then show ?case by (cases name) auto
qed

lemma joined_is_option: "joined name v arg \<Longrightarrow> CHR ''='' \<notin> set s \<Longrightarrow> is_option s arg \<longleftrightarrow> name = s"
  by (auto simp: joined_def is_option_def starts_with_split)

lemma joined_no_flag: "joined name v arg \<Longrightarrow> CHR ''='' \<notin> set s \<Longrightarrow> arg \<noteq> s"
  by (auto simp: joined_def)

lemma is_option_name: "CHR ''='' \<notin> set name \<Longrightarrow> is_option s name \<longleftrightarrow> name = s"
  by (auto simp: is_option_def starts_with_no_eq)

text \<open>Both spellings of an option with a value do the same.\<close>

lemma parse_loop_joined:
  assumes "joined name v arg"
  shows "(case with_value parse name arg post upd of Inl e \<Rightarrow> Inl e
      | Inr (st', used) \<Rightarrow> parse_loop one (drop used post) st') =
    (case parse name v of Inl e \<Rightarrow> Inl e | Inr x \<Rightarrow> parse_loop one post (upd x))"
proof -
  have "option_value name arg post = Inr (v, 0)"
    using assms option_value_joined [of name v post] by (simp add: joined_def)
  then show ?thesis by (simp add: with_value_def split: sum.split)
qed

lemma parse_loop_apart:
  "(case with_value parse name name (v # post) upd of Inl e \<Rightarrow> Inl e
      | Inr (st', used) \<Rightarrow> parse_loop one (drop used (v # post)) st') =
    (case parse name v of Inl e \<Rightarrow> Inl e | Inr x \<Rightarrow> parse_loop one post (upd x))"
  by (simp add: with_value_def option_value_apart split: sum.split)

lemmas spelling_rules = joined_is_option joined_no_flag is_option_name parse_loop_joined parse_loop_apart

lemma parse_loop_invariant:
  assumes step: "\<And>arg rest st st' used. P st \<Longrightarrow> one arg rest st = Inr (st', used) \<Longrightarrow> P st'"
    and "P st" "parse_loop one args st = Inr st'"
  shows "P st'"
  using assms(2,3)
proof (induction "length args" arbitrary: args st rule: less_induct)
  case less
  show ?case
  proof (cases args)
    case Nil
    with less show ?thesis by simp
  next
    case (Cons arg rest)
    with less.prems obtain st1 used where o: "one arg rest st = Inr (st1, used)"
      and r: "parse_loop one (drop used rest) st1 = Inr st'" by (auto split: sum.splits)
    have "length (drop used rest) < length args" using Cons by simp
    from less.hyps [OF this step [OF less.prems(1) o] r] show ?thesis .
  qed
qed

text \<open>A step that succeeds does not look past the arguments it uses: more arguments after
  them change nothing.\<close>

definition local_step :: "(string \<Rightarrow> string list \<Rightarrow> 's \<Rightarrow> string + ('s \<times> nat)) \<Rightarrow> bool" where
  "local_step one \<longleftrightarrow> (\<forall>arg rest more st st' used. one arg rest st = Inr (st', used) \<longrightarrow>
     used \<le> length rest \<and> one arg (rest @ more) st = Inr (st', used))"

lemma local_value: "local_step (\<lambda>arg rest st. with_value parse name arg rest (upd arg st))"
  by (auto simp: local_step_def with_value_def option_value_def split: sum.splits list.splits if_splits)

lemma local_flag: "local_step (\<lambda>arg rest st. Inr (upd st, 0))"
  and local_error: "local_step (\<lambda>arg rest st. Inl (msg arg))"
  by (auto simp: local_step_def)

lemma local_if: "local_step yes \<Longrightarrow> local_step no \<Longrightarrow>
    local_step (\<lambda>arg rest st. if c arg then yes arg rest st else no arg rest st)"
  by (auto simp: local_step_def)

lemmas local_rules = local_if local_value local_flag local_error

text \<open>What every program's loop relies on of its step: it is local.\<close>

locale option_parser =
  fixes one :: "string \<Rightarrow> string list \<Rightarrow> 's \<Rightarrow> string + ('s \<times> nat)"
  assumes local: "local_step one"
begin

lemma parse_loop_append:
  "parse_loop one pre st = Inr st' \<Longrightarrow> parse_loop one (pre @ post) st = parse_loop one post st'"
proof (induction "length pre" arbitrary: pre st rule: less_induct)
  case less
  show ?case
  proof (cases pre)
    case Nil
    with less show ?thesis by simp
  next
    case (Cons arg rest)
    with less.prems obtain st1 used where o: "one arg rest st = Inr (st1, used)"
      and r: "parse_loop one (drop used rest) st1 = Inr st'" by (auto split: sum.splits)
    have u: "used \<le> length rest" "one arg (rest @ post) st = Inr (st1, used)"
      using local o unfolding local_step_def by blast+
    have "length (drop used rest) < length pre" using Cons by simp
    from less.hyps [OF this r] show ?thesis using Cons u by simp
  qed
qed

text \<open>Two ways of writing an option that agree at the front agree behind any arguments that
  parse.\<close>

lemma same_behind:
  assumes "parse_loop one pre st = Inr st'" "parse_loop one xs st' = parse_loop one ys st'"
  shows "parse_loop one (pre @ xs) st = parse_loop one (pre @ ys) st"
  using assms parse_loop_append by simp

end

subsection \<open>Lines and fields\<close>

text \<open>\<open>std::getline\<close>: the characters up to the delimiter and the rest; \<open>None\<close> at the end.\<close>

definition getline :: "char \<Rightarrow> string \<Rightarrow> (string \<times> string) option" where
  "getline delim s =
     (if s = [] then None else Some (takeWhile (\<lambda>c. c \<noteq> delim) s, tl (dropWhile (\<lambda>c. c \<noteq> delim) s)))"

text \<open>The loop that fills \<open>tok\<close>: \<open>None\<close> is the \<open>return false\<close> on a short line.\<close>

fun tokens :: "nat \<Rightarrow> string \<Rightarrow> string list option" where
  "tokens 0 s = Some []"
| "tokens (Suc n) s =
     (case getline (CHR '','') s of None \<Rightarrow> None | Some (t, s') \<Rightarrow> map_option ((#) t) (tokens n s'))"

text \<open>The fields of a row and the lines of a text.\<close>

fun join_fields :: "string list \<Rightarrow> string" where
  "join_fields [] = []"
| "join_fields [f] = f"
| "join_fields (f # fs) = f @ CHR '','' # join_fields fs"

lemma getline_shorter: "getline d s = Some (line, rest) \<Longrightarrow> length rest < length s"
proof -
  assume g: "getline d s = Some (line, rest)"
  have "length (dropWhile (\<lambda>c. c \<noteq> d) s) \<le> length s" by (rule length_dropWhile_le)
  with g show ?thesis by (cases s) (auto simp: getline_def split: if_splits)
qed

function lines_of :: "string \<Rightarrow> string list" where
  "lines_of s = (case getline (CHR 0x0A) s of None \<Rightarrow> [] | Some (line, rest) \<Rightarrow> line # lines_of rest)"
  by pat_completeness auto

termination lines_of
  by (relation "measure length") (auto dest: getline_shorter)

declare lines_of.simps [simp del]

lemma getline_line: "d \<notin> set f \<Longrightarrow> getline d (f @ d # r) = Some (f, r)"
  by (induction f) (auto simp: getline_def)

lemma getline_end: "d \<notin> set f \<Longrightarrow> f \<noteq> [] \<Longrightarrow> getline d f = Some (f, [])"
proof -
  assume d: "d \<notin> set f" "f \<noteq> []"
  have t: "takeWhile (\<lambda>c. c \<noteq> d) f = f" and w: "dropWhile (\<lambda>c. c \<noteq> d) f = []"
    using d(1) by (auto simp: takeWhile_eq_all_conv dropWhile_eq_Nil_conv)
  show ?thesis unfolding getline_def t w using d(2) by simp
qed

lemma tokens_join:
  "list_all (\<lambda>f. CHR '','' \<notin> set f) fs \<Longrightarrow> last fs \<noteq> [] \<Longrightarrow> fs \<noteq> [] \<Longrightarrow> tokens (length fs) (join_fields fs) = Some fs"
  by (induction fs rule: join_fields.induct) (auto simp: getline_line getline_end)

lemma digits_plain:
  assumes "list_all is_digit s"
  shows "CHR '','' \<notin> set s" "CHR 0x0A \<notin> set s" "CHR ''#'' \<notin> set s" "CHR ''i'' \<notin> set s"
  using assms by (auto simp: is_digit_def list_all_iff Let_def)

lemma to_string_plain:
  "CHR '','' \<notin> set (to_string v) \<and> CHR 0x0A \<notin> set (to_string v) \<and> to_string v \<noteq> []"
  using show_nat_digits digits_plain by (auto simp: to_string_def)

lemma join_no_newline:
  "list_all (\<lambda>f. CHR 0x0A \<notin> set f) fs \<Longrightarrow> CHR 0x0A \<notin> set (join_fields fs)"
  by (induction fs rule: join_fields.induct) auto

lemma parse_u64_show: "parse_u64 name (show_nat (unat v)) = Inr v"
  using scan_show_nat [of "[]" "unat v"] unsigned_less [of v]
  by (simp add: parse_u64_def stoull_def)

lemma to_string_back: "parse_int name (to_string v) = Inr v"
  using stoi_to_string [of "[]" v] by (simp add: parse_int_def)

lemma lines_of_lines:
  "list_all (\<lambda>l. CHR 0x0A \<notin> set l) ls \<Longrightarrow> lines_of (concat (map (\<lambda>l. l @ [CHR 0x0A]) ls)) = ls"
proof (induction ls)
  case Nil
  show ?case by (subst lines_of.simps) (simp add: getline_def)
next
  case (Cons l ls)
  then show ?case by (subst lines_of.simps) (simp add: getline_line)
qed

text \<open>
  \<open>parse_u64\<close> accepts negative numbers and wraps them: \<open>-1\<close> is read as the largest
  \<open>std::uint64_t\<close>, so \<open>--jobs=-1\<close> asks for \<open>2 ^ 64 - 1\<close> jobs.
\<close>

theorem parse_u64_wraps_negative: "parse_u64 name ''-1'' = Inr (- 1)"
proof -
  have "stoull ''-1'' = Some (- 1, 2)"
    by (simp add: stoull_def scan_number_def is_space_def is_digit_def digits_value_def Let_def)
  then show ?thesis by (simp add: parse_u64_def)
qed

end
