(* ===== verification/Stats.thy ===== *)
theory Stats
  imports Scheduler CommandLine
begin

section \<open>Latency percentiles and the metrics page (http_server.cpp, print_summary, py_module.cpp)\<close>

text \<open>
  The same percentile is written three times in the code; here it is one definition over exact
  rational milliseconds (the code rounds to \<open>double\<close>).  \<open>metrics_page\<close> is the handler of
  \<open>GET /metrics\<close> up to the formatting of its text, \<open>print_summary\<close> what that
  function prints, \<open>dump_metrics_csv\<close> the text of the metrics file.
\<close>

definition percentile :: "rat list \<Rightarrow> rat \<Rightarrow> rat" where
  "percentile v p =
     (if v = [] then 0
      else let sorted_v = sort v; rank = nat \<lceil>p / 100 * of_nat (length v)\<rceil>
           in sorted_v ! (max 1 rank - 1))"

text \<open>The loop that separates the latencies of successful jobs from the failures.\<close>

fun split_metrics :: "JobMetrics list \<Rightarrow> rat list \<times> u64" where
  "split_metrics [] = ([], 0)"
| "split_metrics (m # ms) =
     (let (e2e, failed) = split_metrics ms
      in if ok m then (e2e_ms m # e2e, failed) else (e2e, failed + 1))"

record page =
  p_queued :: u64
  p_in_flight :: u64
  p_submitted :: u64
  p_completed :: u64
  p_failed :: u64
  p_p95 :: rat
  p_utilization :: rat

definition dispatched :: "u64 \<Rightarrow> u64 \<Rightarrow> u64 \<Rightarrow> u64" where
  "dispatched sub com q = (if sub \<ge> com + q then sub - com - q else 0)"

text \<open>The handler of \<open>GET /metrics\<close> reads \<open>submitted()\<close>, \<open>completed()\<close>, \<open>queued()\<close> and
  \<open>metrics()\<close> one after the other, each in the state the scheduler is in at that moment;
  \<open>metrics_page\<close> is the page when nothing moves in between.\<close>

definition metrics_handler ::
    "'a sched_scheme \<Rightarrow> 'a sched_scheme \<Rightarrow> 'a sched_scheme \<Rightarrow> 'a sched_scheme \<Rightarrow> GpuMonitor \<Rightarrow> page" where
  "metrics_handler s1 s2 s3 s4 mon =
     (let (e2e, failed) = split_metrics (metrics s4)
      in \<lparr>p_queued = queued s3, p_in_flight = dispatched (submitted s1) (completed s2) (queued s3),
          p_submitted = submitted s1, p_completed = completed s2, p_failed = failed,
          p_p95 = percentile e2e 95, p_utilization = mean_utilization mon\<rparr>)"

definition metrics_page :: "'a sched_scheme \<Rightarrow> GpuMonitor \<Rightarrow> page" where
  "metrics_page s mon = metrics_handler s s s s mon"

text \<open>The status server: its routes, and the thread that listens.  \<open>bound\<close> is the answer of
  \<open>bind_to_port\<close>; assigning to a thread that is still joinable ends the program (\<open>None\<close>).\<close>

datatype response = Ok_text | Metrics_text page | Not_found

definition http_get :: "string \<Rightarrow> page \<Rightarrow> response" where
  "http_get path page = (if path = ''/healthz'' then Ok_text
     else if path = ''/metrics'' then Metrics_text page else Not_found)"

record HttpStatusServer =
  listening :: bool
  thread_joinable :: bool

definition http_start :: "bool \<Rightarrow> HttpStatusServer \<Rightarrow> (bool \<times> HttpStatusServer) option" where
  "http_start bound s =
     (if \<not> bound then Some (False, s)
      else if thread_joinable s then None else Some (True, \<lparr>listening = True, thread_joinable = True\<rparr>))"

definition http_stop :: "HttpStatusServer \<Rightarrow> HttpStatusServer" where
  "http_stop s = (if thread_joinable s then \<lparr>listening = False, thread_joinable = False\<rparr> else s)"

record summary =
  s_submitted :: u64
  s_completed :: u64
  s_failed :: u64
  s_rejected :: u64
  s_retries :: u64
  s_oom :: u64
  s_throughput :: rat
  s_p50 :: rat
  s_p95 :: rat
  s_p99 :: rat
  s_utilization :: rat

definition throughput :: "u64 \<Rightarrow> rat \<Rightarrow> rat" where
  "throughput com wall = (if wall > 0 then of_nat (unat com) / wall else 0)"

definition print_summary :: "'a sched_scheme \<Rightarrow> GpuMonitor \<Rightarrow> rat \<Rightarrow> summary" where
  "print_summary s mon wall =
     (let (e2e, failed) = split_metrics (metrics s)
      in \<lparr>s_submitted = submitted s, s_completed = completed s, s_failed = failed,
          s_rejected = rejected_jobs s, s_retries = alloc_retries s, s_oom = oom_failures s,
          s_throughput = throughput (completed s) wall, s_p50 = percentile e2e 50,
          s_p95 = percentile e2e 95, s_p99 = percentile e2e 99,
          s_utilization = mean_utilization mon\<rparr>)"

text \<open>The text that \<open>dump_metrics_csv\<close> writes; \<open>show_ms\<close> prints a \<open>double\<close>.\<close>

definition metrics_fields :: "(rat \<Rightarrow> string) \<Rightarrow> JobMetrics \<Rightarrow> string list" where
  "metrics_fields show_ms m = [show_nat (unat (m_job_id m)), show_nat (unat (m_seq m)), to_string (m_priority m),
     show_ms (queue_wait_ms m), show_ms (exec_ms m), show_ms (e2e_ms m), if ok m then ''1'' else ''0'']"

definition dump_metrics_csv :: "(rat \<Rightarrow> string) \<Rightarrow> 'a sched_scheme \<Rightarrow> string" where
  "dump_metrics_csv show_ms s =
     ''job_id,seq,priority,queue_wait_ms,exec_ms,e2e_ms,ok'' @ [CHR 0x0A] @
     concat (map (\<lambda>m. join_fields (metrics_fields show_ms m) @ [CHR 0x0A]) (metrics s))"

subsection \<open>Percentiles\<close>

lemma split_metrics_eq:
  "split_metrics ms = (map e2e_ms (filter ok ms), word_of_nat (length (filter (\<lambda>m. \<not> ok m) ms)))"
  by (induction ms) (auto simp: add.commute)

lemma rank_bounds:
  fixes p :: rat
  assumes "0 < p" "p \<le> 100" "0 < n"
  shows "0 < \<lceil>p / 100 * of_nat n\<rceil>" "\<lceil>p / 100 * of_nat n\<rceil> \<le> int n"
proof -
  show "0 < \<lceil>p / 100 * of_nat n\<rceil>" using assms by simp
  have "p / 100 * of_nat n \<le> 1 * of_nat n" using assms by (intro mult_right_mono) simp_all
  then show "\<lceil>p / 100 * of_nat n\<rceil> \<le> int n" by (simp add: ceiling_le_iff)
qed

lemma sorted_count_le:
  "sorted xs \<Longrightarrow> i < length xs \<Longrightarrow> Suc i \<le> length (filter (\<lambda>x. x \<le> xs ! i) xs)"
proof -
  assume s: "sorted xs" "i < length xs"
  have "\<forall>x \<in> set (take (Suc i) xs). x \<le> xs ! i"
    using s by (auto simp: in_set_conv_nth sorted_iff_nth_mono)
  then have "filter (\<lambda>x. x \<le> xs ! i) (take (Suc i) xs) = take (Suc i) xs" by (simp add: filter_id_conv)
  then have "length (filter (\<lambda>x. x \<le> xs ! i) (take (Suc i) xs @ drop (Suc i) xs)) \<ge> Suc i"
    using s(2) by (simp only: filter_append length_append length_take)
  then show ?thesis by simp
qed

lemma sorted_count_less:
  assumes "sorted xs" "i < length xs" "y < xs ! i"
  shows "length (filter (\<lambda>x. x \<le> y) xs) \<le> i"
proof -
  have "\<forall>x \<in> set (drop i xs). xs ! i \<le> x"
    using assms(1,2) by (auto simp: in_set_conv_nth sorted_iff_nth_mono)
  then have "filter (\<lambda>x. x \<le> y) (drop i xs) = []" using assms(3) by (auto simp: filter_empty_conv)
  then have "filter (\<lambda>x. x \<le> y) (take i xs @ drop i xs) = filter (\<lambda>x. x \<le> y) (take i xs)"
    by (simp only: filter_append) simp
  then have "length (filter (\<lambda>x. x \<le> y) xs) = length (filter (\<lambda>x. x \<le> y) (take i xs))" by simp
  also have "\<dots> \<le> length (take i xs)" by (rule length_filter_le)
  also have "\<dots> \<le> i" by simp
  finally show ?thesis .
qed

text \<open>
  C35.  \<open>percentile\<close>, in exact arithmetic, is the nearest-rank percentile: for a non-empty list and \<open>0 < p \<le> 100\<close> it is
  one of the values, at least \<open>p\<close> percent of the values are at most it, and fewer than \<open>p\<close>
  percent are at most any smaller value; for an empty list it is 0.
\<close>

theorem percentile_nearest_rank:
  assumes "0 < p" "p \<le> 100"
  shows "percentile [] p = 0 \<and> (v \<noteq> [] \<longrightarrow> percentile v p \<in> set v \<and>
    p / 100 * of_nat (length v) \<le> of_nat (length (filter (\<lambda>x. x \<le> percentile v p) v)) \<and>
    (\<forall>y < percentile v p. of_nat (length (filter (\<lambda>x. x \<le> y) v)) < p / 100 * of_nat (length v)))"
proof (intro conjI impI allI)
  assume v: "v \<noteq> []"
  let ?n = "length v" and ?r = "nat \<lceil>p / 100 * of_nat (length v)\<rceil>"
  have n: "0 < ?n" using v by simp
  have r: "1 \<le> ?r" "?r \<le> ?n" using rank_bounds [OF assms n] by linarith+
  have val: "percentile v p = sort v ! (?r - 1)" using v r by (simp add: percentile_def Let_def max_def)
  have i: "?r - 1 < length (sort v)" using r by simp
  have count: "length (filter P (sort v)) = length (filter P v)" for P
    by (metis mset_filter mset_sort size_mset)
  show "percentile v p \<in> set v" using nth_mem [OF i] val by simp
  have "?r \<le> length (filter (\<lambda>x. x \<le> percentile v p) v)"
    using sorted_count_le [OF sorted_sort i] r(1) by (simp add: val count)
  then have "(of_nat ?r :: rat) \<le> of_nat (length (filter (\<lambda>x. x \<le> percentile v p) v))" by simp
  moreover have "p / 100 * of_nat ?n \<le> of_nat ?r"
  proof -
    have "0 \<le> \<lceil>p / 100 * of_nat ?n\<rceil>" using r(1) by linarith
    then have "of_nat ?r = (of_int \<lceil>p / 100 * of_nat ?n\<rceil> :: rat)" by (rule of_nat_nat)
    then show ?thesis using le_of_int_ceiling [of "p / 100 * of_nat ?n"] by (simp only:)
  qed
  ultimately show "p / 100 * of_nat (length v) \<le> of_nat (length (filter (\<lambda>x. x \<le> percentile v p) v))"
    by linarith
  fix y assume "y < percentile v p"
  then have "length (filter (\<lambda>x. x \<le> y) v) \<le> ?r - 1"
    using sorted_count_less [OF sorted_sort i] by (simp add: val count)
  then have "int (length (filter (\<lambda>x. x \<le> y) v)) < \<lceil>p / 100 * of_nat ?n\<rceil>" using r(1) by linarith
  then show "of_nat (length (filter (\<lambda>x. x \<le> y) v)) < p / 100 * of_nat (length v)"
    by (simp add: less_ceiling_iff)
qed (simp add: percentile_def)

theorem percentile_nearest_rank_witness: "percentile [5, 1, 4, 2, 3] 50 = 3"
proof -
  let ?v = "percentile [5, 1, 4, 2, 3] 50"
  have p: "?v \<in> {5, 1, 4, 2, 3}" "5 / 2 \<le> rat_of_nat (length (filter (\<lambda>x. x \<le> ?v) [5, 1, 4, 2, 3]))"
    "\<And>y. y < ?v \<Longrightarrow> rat_of_nat (length (filter (\<lambda>x. x \<le> y) [5, 1, 4, 2, 3])) < 5 / 2"
    using percentile_nearest_rank [of 50 "[5, 1, 4, 2, 3]"] by simp_all
  have "?v \<le> 3" using p(3) [of 3] by (cases "3 < ?v") simp_all
  with p(1,2) show ?thesis by (elim insertE emptyE) simp_all
qed

text \<open>
  The numbers of the metrics page: \<open>gbis_failed_jobs_total\<close> counts the failed reports, and
  when no call of \<open>submit\<close> is pending \<open>gbis_in_flight_jobs\<close> is the number of jobs that are
  neither queued nor counted as completed.  This includes the jobs that the dispatcher holds and
  those of batches that wait for a worker, not only the \<open>Jobs currently executing on the GPU\<close>
  of the help text.
\<close>

theorem metrics_page_in_flight:
  assumes "reach opts cap jobs s" "length jobs < 2 ^ 64" "counting s = 0"
  shows "unat (p_in_flight (metrics_page s mon)) + length (queue s) = size (in_flight s) + wsum uncounted s \<and>
    unat (p_failed (metrics_page s mon)) = length (filter (\<lambda>m. \<not> ok m) (metrics s))"
proof -
  note numbers = reach_numbers [OF assms]
  note sub = numbers(1) and com = numbers(2) and le = numbers(3) and size = numbers(4)
  have q: "unat (queued s) = length (queue s)" "length (queue s) + length (metrics s) \<le> length jobs"
    using numbers by simp_all
  have sum: "unat (completed s + queued s) = unat (completed s) + unat (queued s)"
    using q com size assms(2) by (intro unat_add_no_wrap) simp
  then have le2: "completed s + queued s \<le> submitted s" using q com size sub by (simp add: word_le_nat_alt)
  have "p_in_flight (metrics_page s mon) = submitted s - (completed s + queued s)"
    using le2 by (simp add: metrics_page_def metrics_handler_def dispatched_def split_metrics_eq diff_diff_eq)
  then have "unat (p_in_flight (metrics_page s mon)) = unat (submitted s) - unat (completed s + queued s)"
    using le2 by (simp add: unat_sub)
  moreover have "length (filter (\<lambda>m. \<not> ok m) (metrics s)) < 2 ^ 64"
    using size assms(2) length_filter_le [of "\<lambda>m. \<not> ok m" "metrics s"] by linarith
  ultimately show ?thesis using sum com sub q size le
    by (simp add: metrics_page_def metrics_handler_def split_metrics_eq unsigned_of_nat take_bit_nat_eq_self)
qed

definition idle_monitor :: GpuMonitor where
  "idle_monitor = \<lparr>impl_device = False, nvml_available = False, gpu_present = True, sampling = False,
     sampler_joinable = False, util_sum = 0, util_count = 0\<rparr>"

theorem metrics_page_in_flight_witness:
  "unat (p_in_flight (metrics_page served idle_monitor)) + length (queue served) =
   size (in_flight served) + wsum uncounted served"
  using metrics_page_in_flight [OF served_reach _ served_facts(3), of idle_monitor] by simp

text \<open>Along a run the number of counted reports only grows.\<close>

lemma counted_run:
  "reach opts cap jobs s \<Longrightarrow> list_all (budget_within opts cap) as \<Longrightarrow> perform_all opts as s = Some s' \<Longrightarrow>
   length (metrics s) + wsum uncounted s' \<le> length (metrics s') + wsum uncounted s"
proof (induction as arbitrary: jobs s)
  case (Cons a as)
  from Cons.prems(3) obtain s1 where s1: "perform opts a s = Some s1" "perform_all opts as s1 = Some s'"
    by (auto split: option.splits)
  have b: "budget_within opts cap a" "list_all (budget_within opts cap) as" using Cons.prems(2) by simp_all
  from counted_grows [OF reach_batches_wf [OF Cons.prems(1)] s1(1)]
    Cons.IH [OF reach_step [OF Cons.prems(1) b(1) s1(1)] b(2) s1(2)]
  show ?case by linarith
qed simp

lemma unat_of_nat_small: "n < 2 ^ 64 \<Longrightarrow> unat (word_of_nat n :: u64) = n"
  by (simp add: unsigned_of_nat take_bit_nat_eq_self)

lemma length_log: "length (log_of opts as s) \<le> length as"
proof (induction as arbitrary: s)
  case (Cons a as)
  have "length (submitted_by a s) \<le> 1" by (cases a) simp_all
  with Cons show ?case by (auto split: option.split intro: le_trans add_mono)
qed simp

text \<open>The numbers of one state, with calls of \<open>submit\<close> pending.\<close>

lemma reach_counts:
  assumes "reach opts cap jobs s" "length jobs < 2 ^ 64"
  shows "unat (submitted s) = length jobs - counting s" "unat (completed s) + wsum uncounted s = length (metrics s)"
    "size (in_flight s) + length (metrics s) = length jobs" "unat (queued s) \<le> size (in_flight s)"
proof -
  note c = reach_counters [OF assms(1), unfolded counters_def]
  show size: "size (in_flight s) + length (metrics s) = length jobs"
    using arg_cong [OF reach_conserves [OF assms(1)], of size] by simp
  have "submitted s = word_of_nat (length jobs) - word_of_nat (counting s)" using c by (simp add: eq_diff_eq)
  then have "submitted s = word_of_nat (length jobs - counting s)" using c by simp
  with assms(2) show "unat (submitted s) = length jobs - counting s"
    by (simp add: unsigned_of_nat take_bit_nat_eq_self)
  have le: "wsum uncounted s \<le> length (metrics s)" by (rule reach_uncounted_le [OF assms(1)])
  have "completed s = word_of_nat (length (metrics s)) - word_of_nat (wsum uncounted s)"
    using c by (simp add: eq_diff_eq)
  then have "completed s = word_of_nat (length (metrics s) - wsum uncounted s)" using le by simp
  moreover have "unat (word_of_nat (length (metrics s) - wsum uncounted s) :: u64) = length (metrics s) - wsum uncounted s"
    using size assms(2) by (intro unat_of_nat_small) simp
  ultimately show "unat (completed s) + wsum uncounted s = length (metrics s)" using le by simp
  have "length (queue s) \<le> size (in_flight s)" by (simp add: in_flight_def)
  with size assms(2) show "unat (queued s) \<le> size (in_flight s)"
    by (simp add: queued_def unsigned_of_nat take_bit_nat_eq_self)
qed

text \<open>
  What a page says while the scheduler runs on between the four reads: every job it counts as
  completed is among the reports whose failures and latencies it shows, its jobs in flight are at
  most those that were unfinished or uncounted when the handler began, and unless it shows none its
  numbers add up to the submitted jobs.
\<close>

theorem metrics_page_torn:
  assumes r1: "reach opts cap jobs s1"
    and runs: "perform_all opts as s1 = Some s2" "perform_all opts bs s2 = Some s3" "perform_all opts cs s3 = Some s4"
    and budgets: "list_all (budget_within opts cap) (as @ bs @ cs)"
    and small: "length jobs + length as + length bs < 2 ^ 64"
  shows "unat (p_completed (metrics_handler s1 s2 s3 s4 mon)) \<le> length (metrics s4) \<and>
    unat (p_in_flight (metrics_handler s1 s2 s3 s4 mon)) \<le> size (in_flight s1) + wsum uncounted s1 \<and>
    (p_in_flight (metrics_handler s1 s2 s3 s4 mon) = 0 \<or>
     p_in_flight (metrics_handler s1 s2 s3 s4 mon) + p_queued (metrics_handler s1 s2 s3 s4 mon) +
       p_completed (metrics_handler s1 s2 s3 s4 mon) = p_submitted (metrics_handler s1 s2 s3 s4 mon))"
proof -
  have b: "list_all (budget_within opts cap) as" "list_all (budget_within opts cap) bs" "list_all (budget_within opts cap) cs"
    using budgets by simp_all
  let ?j2 = "jobs @ log_of opts as s1" let ?j3 = "?j2 @ log_of opts bs s2"
  note r2 = reach_run [OF r1 b(1) runs(1)]
  note r3 = reach_run [OF r2 b(2) runs(2)]
  have small': "length jobs < 2 ^ 64" "length ?j2 < 2 ^ 64" "length ?j3 < 2 ^ 64"
    using small length_log [of opts as s1] length_log [of opts bs s2] by simp_all
  note n1 = reach_counts [OF r1 small'(1)] and n2 = reach_counts [OF r2 small'(2)] and n3 = reach_counts [OF r3 small'(3)]
  note g = counted_run [OF r1 b(1) runs(1)] counted_run [OF r2 b(2) runs(2)] counted_run [OF r3 b(3) runs(3)]
  have "unat (completed s2) \<le> length (metrics s4)" using n2(2) g(2,3) by linarith
  moreover have sum: "unat (completed s2 + queued s3) = unat (completed s2) + unat (queued s3)"
    using n2(2) n3(2,3,4) g(2) small'(3) by (intro unat_add_no_wrap) simp
  have "unat (p_in_flight (metrics_handler s1 s2 s3 s4 mon)) \<le> size (in_flight s1) + wsum uncounted s1 \<and>
    (p_in_flight (metrics_handler s1 s2 s3 s4 mon) = 0 \<or>
     p_in_flight (metrics_handler s1 s2 s3 s4 mon) + queued s3 + completed s2 = submitted s1)"
  proof (cases "completed s2 + queued s3 \<le> submitted s1")
    case True
    have p: "p_in_flight (metrics_handler s1 s2 s3 s4 mon) = submitted s1 - (completed s2 + queued s3)"
      using True by (simp add: metrics_handler_def dispatched_def split_metrics_eq diff_diff_eq)
    then have "unat (p_in_flight (metrics_handler s1 s2 s3 s4 mon)) = unat (submitted s1) - unat (completed s2 + queued s3)"
      using True by (simp add: unat_sub)
    with p sum n1 n2(2) g(1) show ?thesis by (intro conjI disjI2) (linarith, simp add: algebra_simps)
  next
    case False
    then show ?thesis by (simp add: metrics_handler_def dispatched_def split_metrics_eq)
  qed
  ultimately show ?thesis by (simp add: metrics_handler_def split_metrics_eq)
qed

theorem metrics_page_torn_witness:
  "unat (p_in_flight (metrics_handler waiting (waiting\<lparr>shutdown := True\<rparr>) (waiting\<lparr>shutdown := True\<rparr>)
     (waiting\<lparr>shutdown := True\<rparr>) idle_monitor)) \<le> size (in_flight waiting) + wsum uncounted waiting"
proof -
  have "perform_all run_opts [StopFlag] waiting = Some (waiting\<lparr>shutdown := True\<rparr>)"
    using waiting_facts by (simp add: perform_def stop_flag_def)
  from metrics_page_torn [OF waiting_reach this, of "[]" _ "[]"] show ?thesis by (simp add: budgets_1000)
qed

text \<open>A server that is stopped can be started again and leaves no thread to its destructor; a second
  start of a running one ends the program.\<close>

lemma http_lifecycle:
  "http_start bound (http_stop s) \<noteq> None" "\<not> thread_joinable (http_stop s)"
  "http_start True s = Some (True, s') \<Longrightarrow> http_start True s' = None"
  by (auto simp: http_start_def http_stop_def split: if_splits)

subsection \<open>The metrics file\<close>

text \<open>
  The file that \<open>stop\<close> writes can be read back: it has the header line and one line per
  report in their order, and cutting a line at its commas gives the fields of the report, from
  which its job id, sequence number, priority and outcome are recovered exactly.  The printer of
  the times is assumed to print neither commas nor line breaks.
\<close>

theorem metrics_csv_roundtrip:
  assumes "\<And>t. CHR '','' \<notin> set (show_ms t) \<and> CHR 0x0A \<notin> set (show_ms t)"
  shows "\<exists>rows. lines_of (dump_metrics_csv show_ms s) = ''job_id,seq,priority,queue_wait_ms,exec_ms,e2e_ms,ok'' # rows \<and>
    map (tokens 7) rows = map (\<lambda>m. Some (metrics_fields show_ms m)) (metrics s) \<and>
    (\<forall>m. parse_u64 name (metrics_fields show_ms m ! 0) = Inr (m_job_id m) \<and>
      parse_u64 name (metrics_fields show_ms m ! 1) = Inr (m_seq m) \<and>
      parse_int name (metrics_fields show_ms m ! 2) = Inr (m_priority m) \<and>
      (metrics_fields show_ms m ! 6 = ''1'' \<longleftrightarrow> ok m))"
proof -
  let ?row = "\<lambda>m. join_fields (metrics_fields show_ms m)"
  have plain: "list_all (\<lambda>f. CHR '','' \<notin> set f) (metrics_fields show_ms m)"
    "list_all (\<lambda>f. CHR 0x0A \<notin> set f) (metrics_fields show_ms m)" for m
    using assms show_nat_digits digits_plain to_string_plain by (auto simp: metrics_fields_def)
  have "tokens (length (metrics_fields show_ms m)) (?row m) = Some (metrics_fields show_ms m)" for m
    by (rule tokens_join [OF plain(1)]) (simp_all add: metrics_fields_def)
  then have tok: "tokens 7 (?row m) = Some (metrics_fields show_ms m)" for m
    by (simp add: metrics_fields_def numeral_eq_Suc)
  let ?h = "''job_id,seq,priority,queue_wait_ms,exec_ms,e2e_ms,ok''"
  have "lines_of (concat (map (\<lambda>l. l @ [CHR 0x0A]) (?h # map ?row (metrics s)))) = ?h # map ?row (metrics s)"
    by (rule lines_of_lines) (simp add: list_all_iff join_no_newline [OF plain(2)])
  then have "lines_of (dump_metrics_csv show_ms s) = ?h # map ?row (metrics s)"
    by (simp add: dump_metrics_csv_def comp_def)
  moreover have "map (tokens 7) (map ?row (metrics s)) = map (\<lambda>m. Some (metrics_fields show_ms m)) (metrics s)"
    by (simp add: tok)
  moreover have "parse_u64 name (metrics_fields show_ms m ! 0) = Inr (m_job_id m) \<and>
      parse_u64 name (metrics_fields show_ms m ! 1) = Inr (m_seq m) \<and>
      parse_int name (metrics_fields show_ms m ! 2) = Inr (m_priority m) \<and>
      (metrics_fields show_ms m ! 6 = ''1'' \<longleftrightarrow> ok m)" for m
    by (simp add: metrics_fields_def parse_u64_show to_string_back)
  ultimately show ?thesis by blast
qed

theorem metrics_csv_roundtrip_witness:
  "length (lines_of (dump_metrics_csv (\<lambda>t. ''0'') (fail_batch [default_job] new_sched))) = 2"
proof -
  have "map (tokens 7) rows = map (\<lambda>m. Some (metrics_fields (\<lambda>t. ''0'') m)) (metrics (fail_batch [default_job] new_sched)) \<Longrightarrow>
      length rows = 1" for rows
    by (drule arg_cong [where f = length]) (simp add: fail_batch_def new_sched_def)
  with metrics_csv_roundtrip [of "\<lambda>t. ''0''" "fail_batch [default_job] new_sched"] show ?thesis by fastforce
qed

end
