(* ===== verification/Lifecycle.thy ===== *)
theory Lifecycle
  imports Stats
begin

section \<open>The life of a scheduler: its threads, start, stop and the destructor (scheduler.cpp)\<close>

text \<open>
  \<open>Scheduler\<close> starts and joins the threads in one step each.  Here \<open>BatchScheduler\<close> has the
  \<open>std::thread\<close> objects of the code: the dispatcher's, the vector of the workers' (which a restart
  extends) and the sampler's.  Making a thread can fail (\<open>std::system_error\<close>), which leaves
  \<open>start\<close> with an exception in the middle; assigning to or destroying a joinable thread ends the
  program (\<open>Terminated\<close>).  \<open>lc_reach\<close> are the states that any calls of one caller and any steps of
  the threads lead to.  Without failures it refines \<open>reach\<close>.
\<close>

record BatchScheduler =
  sys :: system
  monitor :: GpuMonitor
  dispatcher_joinable :: bool
  worker_handles :: "bool list" \<comment> \<open>\<open>workers_\<close>, whether each is joinable\<close>
  start_time :: time_point
  wall_seconds :: rat
  attempts :: nat \<comment> \<open>threads asked for\<close>
  created :: nat
  joined :: nat

text \<open>The constructor: the monitor is built, no thread runs.\<close>

definition make_scheduler :: "driver \<Rightarrow> BatchScheduler" where
  "make_scheduler drv = \<lparr>sys = new_system, monitor = monitor_init drv, dispatcher_joinable = False,
     worker_handles = [], start_time = 0, wall_seconds = 0, attempts = 0, created = 0, joined = 0\<rparr>"

datatype call_result = Returned | Threw | Terminated

text \<open>\<open>std::thread(f)\<close>: \<open>spawn n\<close> is the answer of the system to the \<open>n\<close>-th request.\<close>

definition make_thread :: "(nat \<Rightarrow> bool) \<Rightarrow> BatchScheduler \<Rightarrow> bool \<times> BatchScheduler" where
  "make_thread spawn b =
     (if spawn (attempts b) then (True, b\<lparr>attempts := Suc (attempts b), created := Suc (created b)\<rparr>)
      else (False, b\<lparr>attempts := Suc (attempts b)\<rparr>))"

subsection \<open>start\<close>

text \<open>Up to the sampler: the flags, the number of devices, the total memory.\<close>

definition start_flags :: "nat \<Rightarrow> GpuStats \<Rightarrow> (size_t \<times> size_t) option \<Rightarrow> time_point \<Rightarrow> BatchScheduler \<Rightarrow> BatchScheduler" where
  "start_flags ndev stats mem_info now b =
     b\<lparr>sys := (sys b)\<lparr>started := True, shutdown := False, gpu_absent := (ndev = 0),
         total_mem_bytes := (if stats_total stats = 0
           then (case mem_info of Some (_, total_bytes) \<Rightarrow> total_bytes | None \<Rightarrow> 0) else stats_total stats),
         workers := []\<rparr>,
       start_time := now\<rparr>"

text \<open>\<open>monitor_.start_sampling\<close>: \<open>sampling_\<close> is set before the thread is made.\<close>

definition start_sampler :: "(nat \<Rightarrow> bool) \<Rightarrow> BatchScheduler \<Rightarrow> call_result \<times> BatchScheduler" where
  "start_sampler spawn b =
     (case start_sampling (monitor b) of (mon, wanted) \<Rightarrow>
        if \<not> wanted then (Returned, b\<lparr>monitor := mon\<rparr>)
        else (case make_thread spawn b of
                (False, b') \<Rightarrow> (Threw, b'\<lparr>monitor := mon\<lparr>sampler_joinable := sampler_joinable (monitor b)\<rparr>\<rparr>)
              | (True, b') \<Rightarrow>
                  (if sampler_joinable (monitor b) then Terminated else Returned, b'\<lparr>monitor := mon\<rparr>)))"

definition start_dispatcher :: "(nat \<Rightarrow> bool) \<Rightarrow> BatchScheduler \<Rightarrow> call_result \<times> BatchScheduler" where
  "start_dispatcher spawn b =
     (case make_thread spawn b of
        (False, b') \<Rightarrow> (Threw, b')
      | (True, b') \<Rightarrow>
          (if dispatcher_joinable b then Terminated else Returned,
           b'\<lparr>dispatcher_joinable := True, sys := (sys b')\<lparr>dpc := D_space\<rparr>\<rparr>))"

text \<open>The loop over \<open>emplace_back\<close>, after the \<open>reserve\<close>.\<close>

fun start_workers :: "(nat \<Rightarrow> bool) \<Rightarrow> nat \<Rightarrow> BatchScheduler \<Rightarrow> call_result \<times> BatchScheduler" where
  "start_workers spawn 0 b = (Returned, b)"
| "start_workers spawn (Suc n) b =
     (case make_thread spawn b of
        (False, b') \<Rightarrow> (Threw, b')
      | (True, b') \<Rightarrow> start_workers spawn n
          (b'\<lparr>worker_handles := worker_handles b' @ [True],
              sys := (sys b')\<lparr>workers := workers (sys b') @ [\<lparr>w_ctx = fresh_ctx, w_pc = W_wait\<rparr>]\<rparr>\<rparr>))"

text \<open>\<open>reserve\<close> of a negative \<open>num_workers\<close> is a request for almost \<open>2 ^ 64\<close> elements and throws
  \<open>std::length_error\<close>.\<close>

definition start_call :: "Options \<Rightarrow> (nat \<Rightarrow> bool) \<Rightarrow> nat \<Rightarrow> GpuStats \<Rightarrow> (size_t \<times> size_t) option \<Rightarrow> time_point
    \<Rightarrow> BatchScheduler \<Rightarrow> call_result \<times> BatchScheduler" where
  "start_call opts spawn ndev stats mem_info now b =
     (if started (sys b) then (Returned, b)
      else case start_sampler spawn (start_flags ndev stats mem_info now b) of
             (Returned, b1) \<Rightarrow>
               (case start_dispatcher spawn b1 of
                  (Returned, b2) \<Rightarrow>
                    (if sint (num_workers opts) < 0 then (Threw, b2)
                     else start_workers spawn (nat (sint (num_workers opts))) b2)
                | r \<Rightarrow> r)
           | r \<Rightarrow> r)"

subsection \<open>stop and the destructor\<close>

text \<open>\<open>stop\<close> to the notifications, and from its joins on; a join of a thread that has not ended
  waits, so the second part is enabled when every thread has ended.\<close>

definition stop_begin :: "BatchScheduler \<Rightarrow> BatchScheduler" where
  "stop_begin b = (case stop_flag (sys b) of None \<Rightarrow> b | Some s \<Rightarrow> b\<lparr>sys := s\<rparr>)"

definition joinables :: "BatchScheduler \<Rightarrow> nat" where
  "joinables b = (if dispatcher_joinable b then 1 else 0) + length (filter id (worker_handles b)) +
     (if sampler_joinable (monitor b) then 1 else 0)"

definition join_all :: "BatchScheduler \<Rightarrow> BatchScheduler" where
  "join_all b = b\<lparr>dispatcher_joinable := False, worker_handles := map (\<lambda>_. False) (worker_handles b),
     monitor := stop_sampling (monitor b), joined := joined b + joinables b\<rparr>"

text \<open>\<open>InferenceJob::Clock\<close> counts nanoseconds; \<open>wall_seconds_\<close> is the time since \<open>start\<close>.\<close>

definition stop_end :: "time_point \<Rightarrow> BatchScheduler \<Rightarrow> BatchScheduler option" where
  "stop_end now b =
     map_option (\<lambda>s. (join_all b)\<lparr>sys := s, wall_seconds := of_int (now - start_time b) / 1000000000\<rparr>)
       (stop_join (sys b))"

text \<open>The last lines of \<open>stop\<close>: the metrics file if a path is given, and the summary.\<close>

definition stop_report :: "(rat \<Rightarrow> string) \<Rightarrow> string \<Rightarrow> BatchScheduler \<Rightarrow> string option \<times> summary" where
  "stop_report show_ms metrics_csv b =
     (if metrics_csv \<noteq> [] then Some (dump_metrics_csv show_ms (sys b)) else None,
      print_summary (sys b) (monitor b) (wall_seconds b))"

text \<open>The members are destroyed after \<open>~BatchScheduler\<close> has called \<open>stop\<close>: a joinable thread ends the
  program; the monitor joins its own.\<close>

definition destroy_members :: "BatchScheduler \<Rightarrow> call_result \<times> BatchScheduler" where
  "destroy_members b =
     (if dispatcher_joinable b \<or> True \<in> set (worker_handles b) then (Terminated, b)
      else (Returned, b\<lparr>monitor := stop_sampling (monitor b),
              joined := joined b + (if sampler_joinable (monitor b) then 1 else 0)\<rparr>))"

subsection \<open>Any calls and any threads\<close>

text \<open>Steps of the dispatcher, the workers and the submitters.\<close>

fun lc_thread :: "action \<Rightarrow> bool" where
  "lc_thread (Start n stats mem) = False"
| "lc_thread StopFlag = False"
| "lc_thread StopJoin = False"
| "lc_thread _ = True"

datatype lc_action = CallStart nat GpuStats "(size_t \<times> size_t) option" time_point | StopBegin
  | StopEnd time_point | ThreadStep action

text \<open>The calls of \<open>start\<close> and \<open>stop\<close> come from one thread, so no call of \<open>start\<close> falls between the
  two parts of \<open>stop\<close>; a call of \<open>start\<close> is one step.  How it ends is the first component.\<close>

fun lc_perform :: "Options \<Rightarrow> (nat \<Rightarrow> bool) \<Rightarrow> lc_action \<Rightarrow> BatchScheduler \<Rightarrow> (call_result \<times> BatchScheduler) option" where
  "lc_perform opts spawn (CallStart ndev stats mem_info now) b =
     (if started (sys b) \<and> shutdown (sys b) then None else Some (start_call opts spawn ndev stats mem_info now b))"
| "lc_perform opts spawn StopBegin b = Some (Returned, stop_begin b)"
| "lc_perform opts spawn (StopEnd now) b = map_option (Pair Returned) (stop_end now b)"
| "lc_perform opts spawn (ThreadStep a) b =
     (if lc_thread a then map_option (\<lambda>s. (Returned, b\<lparr>sys := s\<rparr>)) (perform opts a (sys b)) else None)"

fun lc_submitted :: "lc_action \<Rightarrow> BatchScheduler \<Rightarrow> InferenceJob list" where
  "lc_submitted (ThreadStep a) b = submitted_by a (sys b)"
| "lc_submitted _ b = []"

fun lc_within :: "Options \<Rightarrow> nat \<Rightarrow> lc_action \<Rightarrow> bool" where
  "lc_within opts cap (ThreadStep a) = budget_within opts cap a"
| "lc_within opts cap _ = True"

inductive lc_reach :: "Options \<Rightarrow> (nat \<Rightarrow> bool) \<Rightarrow> driver \<Rightarrow> nat \<Rightarrow> InferenceJob list \<Rightarrow> call_result \<Rightarrow> BatchScheduler \<Rightarrow> bool"
  for opts spawn drv cap where
  lc_make: "lc_reach opts spawn drv cap [] Returned (make_scheduler drv)"
| lc_next: "lc_reach opts spawn drv cap jobs r b \<Longrightarrow> r \<noteq> Terminated \<Longrightarrow> \<not> aborted (sys b) \<Longrightarrow> lc_within opts cap a \<Longrightarrow>
    lc_perform opts spawn a b = Some (r', b') \<Longrightarrow> lc_reach opts spawn drv cap (jobs @ lc_submitted a b) r' b'"

subsection \<open>Every thread is joined\<close>

definition lc_inv :: "BatchScheduler \<Rightarrow> bool" where
  "lc_inv b \<longleftrightarrow> created b = joined b + joinables b \<and> (sampler_joinable (monitor b) \<longrightarrow> sampling (monitor b)) \<and>
     (\<not> started (sys b) \<longrightarrow> joinables b = 0 \<and> \<not> sampling (monitor b))"

lemma lc_inv_sys: "lc_inv b \<Longrightarrow> started s \<or> started s = started (sys b) \<Longrightarrow> lc_inv (b\<lparr>sys := s\<rparr>)"
  by (auto simp: lc_inv_def joinables_def)

lemma start_sampler_inv:
  assumes "lc_inv b" "started (sys b)"
  shows "lc_inv (snd (start_sampler spawn b))" "fst (start_sampler spawn b) \<noteq> Terminated"
    "started (sys (snd (start_sampler spawn b)))"
    "dispatcher_joinable (snd (start_sampler spawn b)) = dispatcher_joinable b"
  using assms
  by (auto simp: start_sampler_def start_sampling_def make_thread_def lc_inv_def joinables_def)

lemma start_dispatcher_inv:
  assumes "lc_inv b" "started (sys b)" "\<not> dispatcher_joinable b"
  shows "lc_inv (snd (start_dispatcher spawn b))" "fst (start_dispatcher spawn b) \<noteq> Terminated"
    "started (sys (snd (start_dispatcher spawn b)))"
  using assms
  by (auto simp: start_dispatcher_def make_thread_def lc_inv_def joinables_def)

lemma start_workers_inv:
  "lc_inv b \<Longrightarrow> started (sys b) \<Longrightarrow>
   lc_inv (snd (start_workers spawn n b)) \<and> fst (start_workers spawn n b) \<noteq> Terminated \<and> started (sys (snd (start_workers spawn n b)))"
proof (induction n arbitrary: b)
  case (Suc n)
  let ?b = "b\<lparr>attempts := Suc (attempts b), created := Suc (created b), worker_handles := worker_handles b @ [True],
      sys := (sys b)\<lparr>workers := workers (sys b) @ [\<lparr>w_ctx = fresh_ctx, w_pc = W_wait\<rparr>]\<rparr>\<rparr>"
  have "lc_inv ?b" "started (sys ?b)" using Suc.prems by (auto simp: lc_inv_def joinables_def)
  with Suc.IH [of ?b] Suc.prems show ?case
    by (simp add: make_thread_def) (simp add: lc_inv_def joinables_def)
qed simp

lemma start_call_inv:
  assumes "lc_inv b"
  shows "lc_inv (snd (start_call opts spawn ndev stats mem now b)) \<and>
    fst (start_call opts spawn ndev stats mem now b) \<noteq> Terminated"
proof (cases "started (sys b)")
  case False
  let ?b0 = "start_flags ndev stats mem now b"
  let ?b1 = "snd (start_sampler spawn ?b0)"
  let ?b2 = "snd (start_dispatcher spawn ?b1)"
  have "lc_inv ?b0" "started (sys ?b0)" "\<not> dispatcher_joinable ?b0"
    using assms False by (auto simp: lc_inv_def start_flags_def joinables_def split: if_splits)
  note i1 = start_sampler_inv [OF this(1,2), of spawn] and nd = this(3)
  have "\<not> dispatcher_joinable ?b1" using i1(4) nd by simp
  note i2 = start_dispatcher_inv [OF i1(1,3) this, of spawn]
  show ?thesis
    using False i1 i2 start_workers_inv [OF i2(1,3), of spawn]
    by (auto simp: start_call_def split: prod.split call_result.split)
qed (use assms in \<open>simp add: start_call_def\<close>)

lemma joinables_joined: "joinables ((join_all b)\<lparr>sys := s, wall_seconds := w\<rparr>) = 0"
  by (simp add: join_all_def joinables_def stop_sampling_def filter_empty_conv)

lemma join_all_inv: "lc_inv b \<Longrightarrow> lc_inv ((join_all b)\<lparr>sys := s, wall_seconds := w\<rparr>)"
  using joinables_joined by (simp add: lc_inv_def) (simp add: join_all_def stop_sampling_def)

lemma thread_step_started:
  assumes "perform opts a s = Some s'" "lc_thread a" "batches_wf s"
  shows "started s' = started s"
  using assms(1)
proof (cases rule: perform_elim)
  case (w_run i env d h b r ctx' st s1)
  have "b \<noteq> []" using worker_at [OF assms(3) w_run(2)] w_run(3) by simp
  from execute_jobs_system [OF this w_run(5)] w_run show ?thesis by (simp add: after_run_def)
qed (use assms(2) in \<open>auto simp: submit_push_def Let_def submit_count_def fail_batch_def requeue_def reserve_batch_def
    reserve_bytes_def publish_batch_def count_completed_def release_bytes_def\<close>)

lemma batches_wf_worker: "batches_wf s \<Longrightarrow> batches_wf (s\<lparr>workers := workers s @ [\<lparr>w_ctx = c, w_pc = W_wait\<rparr>]\<rparr>)"
  by (auto simp: batches_wf_def)

lemma start_sys_wf: "batches_wf (sys b) \<Longrightarrow> batches_wf (sys (snd (start_call opts spawn ndev stats mem now b)))"
proof -
  have w: "batches_wf (sys c) \<Longrightarrow> batches_wf (sys (snd (start_workers spawn n c)))" for n c
  proof (induction n arbitrary: c)
    case (Suc n)
    then show ?case by (simp add: make_thread_def batches_wf_worker)
  qed simp
  have d: "batches_wf (sys c) \<Longrightarrow> batches_wf (sys (snd (start_dispatcher spawn c)))" for c
    by (simp add: start_dispatcher_def make_thread_def batches_wf_def)
  have s: "batches_wf (sys c) \<Longrightarrow> batches_wf (sys (snd (start_sampler spawn c)))" for c
    by (simp add: start_sampler_def start_sampling_def make_thread_def)
  assume "batches_wf (sys b)"
  then have "batches_wf (sys (start_flags ndev stats mem now b))" by (simp add: start_flags_def batches_wf_def)
  with w d s show ?thesis using \<open>batches_wf (sys b)\<close>
    by (fastforce simp: start_call_def split: prod.split call_result.split)
qed

lemma lc_step_inv:
  assumes "lc_inv b \<and> batches_wf (sys b)" "lc_perform opts spawn a b = Some (r, b')"
  shows "lc_inv b' \<and> batches_wf (sys b') \<and> r \<noteq> Terminated"
proof (cases a)
  case (CallStart ndev stats mem now)
  with assms start_call_inv start_sys_wf show ?thesis by (metis lc_perform.simps(1) option.inject option.distinct(1) fst_conv snd_conv)
next
  case StopBegin
  with assms show ?thesis
    by (auto simp: stop_begin_def stop_flag_def batches_wf_def split: if_splits intro: lc_inv_sys)
next
  case (StopEnd now)
  with assms show ?thesis
    by (auto simp: stop_end_def stop_join_def batches_wf_def split: if_splits intro: join_all_inv)
next
  case (ThreadStep t)
  with assms(2) obtain s where t: "lc_thread t" "perform opts t (sys b) = Some s" "b' = b\<lparr>sys := s\<rparr>" "r = Returned"
    by (auto split: if_splits)
  with assms(1) thread_step_started [OF t(2,1)] batches_wf_step [OF _ t(2)] lc_inv_sys [of b s] show ?thesis by auto
qed

lemma lc_reach_inv: "lc_reach opts spawn drv cap jobs r b \<Longrightarrow> lc_inv b \<and> batches_wf (sys b) \<and> r \<noteq> Terminated"
proof (induction rule: lc_reach.induct)
  case lc_make
  show ?case by (simp add: lc_inv_def joinables_def make_scheduler_def batches_wf_def monitor_init_def Let_def)
next
  case (lc_next jobs r b a r' b')
  then show ?case using lc_step_inv by blast
qed

text \<open>
  C16.  No thread of a scheduler is lost and no thread object ends the program: whatever sequence of
  \<open>start\<close>, \<open>stop\<close>, submissions and thread steps one caller and the threads go through, and whichever
  requests for threads the system refuses (so that \<open>start\<close> leaves with an exception halfway), no
  call assigns to a joinable thread, every thread that was made is joined or still joinable, and
  whenever the scheduler is not started every thread has been joined once, the sampler has been
  switched off, and the destructor passes.
\<close>

theorem lifecycle_joins_every_thread:
  assumes "lc_reach opts spawn drv cap jobs r b"
  shows "r \<noteq> Terminated \<and> created b = joined b + joinables b \<and>
    (\<not> started (sys b) \<longrightarrow> joined b = created b \<and> \<not> sampling (monitor b) \<and> fst (destroy_members b) = Returned)"
  using lc_reach_inv [OF assms]
  by (auto simp: lc_inv_def joinables_def destroy_members_def filter_empty_conv split: if_splits)

subsection \<open>Refinement of the scheduler\<close>

lemma start_workers_made:
  "\<forall>n. spawn n \<Longrightarrow> fst (start_workers spawn n b) = Returned \<and>
   sys (snd (start_workers spawn n b)) =
     (sys b)\<lparr>workers := workers (sys b) @ replicate n \<lparr>w_ctx = fresh_ctx, w_pc = W_wait\<rparr>\<rparr> \<and>
   worker_handles (snd (start_workers spawn n b)) = worker_handles b @ replicate n True"
  by (induction n arbitrary: b) (simp_all add: make_thread_def)

lemma start_call_made:
  assumes "\<forall>n. spawn n" "0 \<le> sint (num_workers opts)" "lc_inv b" "\<not> started (sys b)"
  shows "fst (start_call opts spawn ndev stats mem now b) = Returned"
    "start opts ndev stats mem (sys b) = Some (sys (snd (start_call opts spawn ndev stats mem now b)))"
    "worker_handles (snd (start_call opts spawn ndev stats mem now b)) =
       worker_handles b @ replicate (nat (sint (num_workers opts))) True"
proof -
  let ?b0 = "start_flags ndev stats mem now b"
  let ?b1 = "snd (start_sampler spawn ?b0)" and ?b2 = "snd (start_dispatcher spawn (snd (start_sampler spawn ?b0)))"
  have nd: "\<not> dispatcher_joinable b" "\<not> sampling (monitor b)" "\<not> sampler_joinable (monitor b)"
    using assms(3,4) by (auto simp: lc_inv_def joinables_def split: if_splits)
  have s1: "fst (start_sampler spawn ?b0) = Returned" "sys ?b1 = sys ?b0" "worker_handles ?b1 = worker_handles b"
    "\<not> dispatcher_joinable ?b1"
    using assms(1) nd by (simp_all add: start_sampler_def start_sampling_def make_thread_def start_flags_def)
  have s2: "fst (start_dispatcher spawn ?b1) = Returned" "sys ?b2 = (sys ?b0)\<lparr>dpc := D_space\<rparr>" "worker_handles ?b2 = worker_handles b"
    using assms(1) s1 by (simp_all add: start_dispatcher_def make_thread_def)
  have call: "start_call opts spawn ndev stats mem now b = start_workers spawn (nat (sint (num_workers opts))) ?b2"
    using s1(1) s2(1) assms(2,4)
    by (cases "start_sampler spawn ?b0"; cases "start_dispatcher spawn ?b1") (simp add: start_call_def)
  note w = start_workers_made [OF assms(1), of "nat (sint (num_workers opts))" ?b2]
  show "fst (start_call opts spawn ndev stats mem now b) = Returned"
    "worker_handles (snd (start_call opts spawn ndev stats mem now b)) =
       worker_handles b @ replicate (nat (sint (num_workers opts))) True"
    using w s2(3) by (simp_all add: call)
  show "start opts ndev stats mem (sys b) = Some (sys (snd (start_call opts spawn ndev stats mem now b)))"
    using w s2(2) assms(2,4) by (simp add: call start_def start_flags_def)
qed

lemma lifecycle_reach:
  assumes "lc_reach opts spawn drv cap jobs r b" "\<forall>n. spawn n" "0 \<le> sint (num_workers opts)"
  shows "reach opts cap jobs (sys b) \<and> r = Returned"
  using assms(1)
proof (induction rule: lc_reach.induct)
  case lc_make
  show ?case by (simp add: make_scheduler_def reach_init)
next
  case (lc_next jobs r b a r' b')
  note reach = lc_next.IH [THEN conjunct1] and step = lc_next(5)
  have act: "reach opts cap (jobs @ submitted_by t (sys b)) (sys b')"
    if "perform opts t (sys b) = Some (sys b')" "budget_within opts cap t" for t
    by (rule reach_step [OF reach that(2,1)])
  have perf: "perform opts t (sys b) = (case t of Start n s m \<Rightarrow> start opts n s m (sys b) | StopFlag \<Rightarrow> stop_flag (sys b)
      | StopJoin \<Rightarrow> stop_join (sys b) | _ \<Rightarrow> perform opts t (sys b))" for t
    using lc_next(3) by (simp add: perform_def split: action.split)
  show ?case
  proof (cases a)
    case (CallStart ndev stats mem now)
    show ?thesis
    proof (cases "started (sys b)")
      case False
      note m = start_call_made [OF assms(2,3) lc_reach_inv [OF lc_next(1), THEN conjunct1] False, of ndev stats mem now]
      have "b' = snd (start_call opts spawn ndev stats mem now b)" "r' = Returned"
        using step CallStart False m(1) by auto
      with act [of "Start ndev stats mem"] perf [of "Start ndev stats mem"] m(2) CallStart show ?thesis
        by (simp add: budget_within_def)
    qed (use step CallStart reach in \<open>auto simp: start_call_def split: if_splits\<close>)
  next
    case StopBegin
    with step act [of StopFlag] perf [of StopFlag] reach show ?thesis
      by (auto simp: stop_begin_def budget_within_def split: option.splits)
  next
    case (StopEnd now)
    with step act [of StopJoin] perf [of StopJoin] show ?thesis
      by (auto simp: stop_end_def budget_within_def)
  next
    case (ThreadStep t)
    with step act [of t] lc_next(4) show ?thesis by (auto split: if_splits)
  qed
qed

lemma lifecycle_matches:
  assumes "lc_inv b" "\<forall>n. spawn n" "0 \<le> sint (num_workers opts)" "perform opts a (sys b) = Some s"
  shows "\<exists>c b'. lc_perform opts spawn c b = Some (Returned, b') \<and> sys b' = s \<and> lc_submitted c b = submitted_by a (sys b)"
proof -
  have ab: "\<not> aborted (sys b)" using assms(4) by (simp add: perform_def split: if_splits)
  show ?thesis
  proof (cases a)
    case (Start ndev stats mem)
    then have s: "start opts ndev stats mem (sys b) = Some s" "\<not> started (sys b)"
      using assms(4) ab start_not_started by (auto simp: perform_def)
    note m = start_call_made [OF assms(2,3,1) s(2), of ndev stats mem 0]
    show ?thesis
      by (rule exI [of _ "CallStart ndev stats mem 0"], rule exI [of _ "snd (start_call opts spawn ndev stats mem 0 b)"])
        (use m s Start in \<open>simp add: prod_eq_iff\<close>)
  next
    case StopFlag
    then show ?thesis using assms(4) ab
      by (intro exI [of _ StopBegin] exI [of _ "b\<lparr>sys := s\<rparr>"]) (simp add: perform_def stop_begin_def)
  next
    case StopJoin
    then have "stop_join (sys b) = Some s" using assms(4) ab by (simp add: perform_def)
    with StopJoin show ?thesis by (intro exI [of _ "StopEnd 0"]) (simp add: stop_end_def)
  qed (use assms(4) in \<open>auto intro!: exI [of _ "ThreadStep a"]\<close>)
qed

text \<open>
  C17.  When the system grants every thread and the number of workers is not negative, the object
  with its real threads and the step relation of the scheduler simulate each other.  Every state that
  it reaches is one that \<open>reach\<close> has with the same submissions, so all that is proved of \<open>reach\<close>
  holds of it, and no call throws; and every step that the relation can take from there is a call or
  a thread step of the object, with the same result.  (A thread that cannot be made breaks both:
  C37.)
\<close>

theorem lifecycle_refines_scheduler:
  assumes "lc_reach opts spawn drv cap jobs r b" "\<forall>n. spawn n" "0 \<le> sint (num_workers opts)"
  shows "reach opts cap jobs (sys b) \<and> r = Returned \<and>
    (\<forall>a s. perform opts a (sys b) = Some s \<longrightarrow>
      (\<exists>c b'. lc_perform opts spawn c b = Some (Returned, b') \<and> sys b' = s \<and> lc_submitted c b = submitted_by a (sys b)))"
  using lifecycle_reach [OF assms] lifecycle_matches [OF _ assms(2,3)] lc_reach_inv [OF assms(1)] by blast

subsection \<open>A start that fails\<close>

text \<open>Running a list of actions, and the jobs submitted by them.\<close>

fun lc_run :: "Options \<Rightarrow> (nat \<Rightarrow> bool) \<Rightarrow> lc_action list \<Rightarrow> BatchScheduler \<Rightarrow> (call_result \<times> BatchScheduler) option" where
  "lc_run opts spawn [] b = Some (Returned, b)"
| "lc_run opts spawn (a # as) b =
     (if aborted (sys b) then None
      else case lc_perform opts spawn a b of
             None \<Rightarrow> None
           | Some (r, b') \<Rightarrow> (if r = Returned then lc_run opts spawn as b' else Some (r, b')))"

fun lc_log :: "Options \<Rightarrow> (nat \<Rightarrow> bool) \<Rightarrow> lc_action list \<Rightarrow> BatchScheduler \<Rightarrow> InferenceJob list" where
  "lc_log opts spawn [] b = []"
| "lc_log opts spawn (a # as) b =
     lc_submitted a b @ (case lc_perform opts spawn a b of None \<Rightarrow> [] | Some (r, b') \<Rightarrow> lc_log opts spawn as b')"

definition no_stop :: "lc_action \<Rightarrow> bool" where
  "no_stop a \<longleftrightarrow> (case a of StopBegin \<Rightarrow> False | StopEnd now \<Rightarrow> False | _ \<Rightarrow> True)"

text \<open>A scheduler that calls itself started and has no dispatcher and no workers.\<close>

definition hollow :: "BatchScheduler \<Rightarrow> bool" where
  "hollow b \<longleftrightarrow> started (sys b) \<and> \<not> shutdown (sys b) \<and> dpc (sys b) = D_off \<and> workers (sys b) = []"

lemma hollow_step:
  assumes "hollow b" "no_stop a" "lc_perform opts spawn a b = Some (r, b')"
  shows "hollow b' \<and> r = Returned \<and> metrics (sys b') = metrics (sys b) \<and> created b' = created b \<and>
    mset (queue (sys b')) = mset (queue (sys b)) + mset (lc_submitted a b)"
proof (cases a)
  case (ThreadStep t)
  with assms(3) obtain s where t: "lc_thread t" "perform opts t (sys b) = Some s" "b' = b\<lparr>sys := s\<rparr>" "r = Returned"
    by (auto split: if_splits)
  from t(2) assms(1) t(1,3,4) ThreadStep show ?thesis
    by (cases rule: perform_elim)
      (auto simp: hollow_def submit_push_def submit_count_def Let_def pq_push_def)
qed (use assms in \<open>auto simp: no_stop_def hollow_def start_call_def\<close>)

lemma hollow_run:
  "hollow b \<Longrightarrow> list_all no_stop as \<Longrightarrow> lc_run opts spawn as b = Some (r, b') \<Longrightarrow>
   hollow b' \<and> r = Returned \<and> metrics (sys b') = metrics (sys b) \<and> created b' = created b \<and>
   mset (queue (sys b')) = mset (queue (sys b)) + mset (lc_log opts spawn as b)"
proof (induction as arbitrary: b)
  case (Cons a as)
  then obtain r1 b1 where p: "lc_perform opts spawn a b = Some (r1, b1)" by (auto split: option.splits if_splits)
  note h = hollow_step [OF Cons.prems(1) _ p]
  show ?case using Cons.IH [of b1] Cons.prems p h by (simp split: if_splits)
qed simp

lemma failed_dispatcher_hollow:
  assumes "start_call opts spawn ndev stats mem now b = (r, b1)" "\<not> started (sys b)" "dpc (sys b) = D_off"
    "\<not> sampler_joinable (monitor b)"
    and "if gpu_present (monitor b) \<and> \<not> sampling (monitor b)
      then \<not> spawn (attempts b) \<or> \<not> spawn (Suc (attempts b)) else \<not> spawn (attempts b)"
  shows "r = Threw \<and> hollow b1 \<and> metrics (sys b1) = metrics (sys b) \<and> queue (sys b1) = queue (sys b)"
  using assms
  by (auto simp: start_call_def start_sampler_def start_sampling_def start_dispatcher_def make_thread_def start_flags_def
      hollow_def split: if_splits)

text \<open>
  C37.  A \<open>start\<close> that fails is not noticed afterwards.  When the system refuses the sampler's or the
  dispatcher's thread, \<open>start\<close> throws and leaves \<open>started_\<close> set: until \<open>stop\<close> is called, every later
  \<open>start\<close> returns normally without making a thread, submissions are accepted, and every job submitted
  stays in the queue, unreported, whatever happens.
\<close>

theorem failed_start_accepts_jobs:
  assumes "start_call opts spawn ndev stats mem now (make_scheduler drv) = (r, b1)"
    and "if gpu_present (monitor_init drv) then \<not> spawn 0 \<or> \<not> spawn (Suc 0) else \<not> spawn 0"
    and "list_all no_stop as" "lc_run opts spawn as b1 = Some (r', b2)"
  shows "r = Threw \<and> r' = Returned \<and> started (sys b2) \<and> created b2 = created b1 \<and> metrics (sys b2) = [] \<and>
    mset (queue (sys b2)) = mset (lc_log opts spawn as b1)"
proof -
  have "r = Threw \<and> hollow b1 \<and> metrics (sys b1) = metrics (sys (make_scheduler drv)) \<and>
      queue (sys b1) = queue (sys (make_scheduler drv))"
    by (rule failed_dispatcher_hollow [OF assms(1)]) (use assms(2) in \<open>auto simp: make_scheduler_def monitor_init_def Let_def split: if_splits\<close>)
  then have "r = Threw \<and> hollow b1 \<and> metrics (sys b1) = [] \<and> queue (sys b1) = []" by (simp add: make_scheduler_def)
  with hollow_run [OF _ assms(3,4)] show ?thesis by (simp add: hollow_def)
qed

subsection \<open>Concrete lives\<close>

text \<open>A machine without a GPU and one with NVML; the second request for a thread is refused.\<close>

definition no_driver :: driver where
  "no_driver = (sample_driver 0)\<lparr>drv_dlopen := False, drv_mem_info := None\<rparr>"

definition second_refused :: "nat \<Rightarrow> bool" where
  "second_refused n \<longleftrightarrow> n \<noteq> 1"

definition life :: "lc_action list" where
  "life = [CallStart 0 run_stats None 0, ThreadStep (SubmitPush 5 small_job), ThreadStep SubmitCount] @
     replicate 3 (ThreadStep dispatch) @ [StopBegin, ThreadStep dispatch, ThreadStep work, StopEnd 2000000000,
     CallStart 0 run_stats None 3000000000]"

lemma lc_reach_run:
  "lc_reach opts spawn drv cap jobs Returned b \<Longrightarrow> list_all (lc_within opts cap) as \<Longrightarrow>
   lc_run opts spawn as b = Some (Returned, b') \<Longrightarrow> lc_reach opts spawn drv cap (jobs @ lc_log opts spawn as b) Returned b'"
proof (induction as arbitrary: jobs b)
  case (Cons a as)
  then obtain b1 where p: "lc_perform opts spawn a b = Some (Returned, b1)" "lc_run opts spawn as b1 = Some (Returned, b')" "\<not> aborted (sys b)"
    by (auto split: option.splits if_splits)
  have "lc_reach opts spawn drv cap (jobs @ lc_submitted a b) Returned b1"
    by (rule lc_next [OF Cons.prems(1) _ p(3) _ p(1)]) (use Cons.prems(2) in simp_all)
  from Cons.IH [OF this _ p(2)] Cons.prems(2) p(1) show ?case by simp
qed simp

text \<open>Started, a job failed for want of a GPU, stopped, and started again: the handle of the old worker
  is still in the vector.\<close>

definition restarted :: BatchScheduler where
  "restarted = snd (the (lc_run run_opts (\<lambda>_. True) life (make_scheduler no_driver)))"

lemma life_ends:
  "case lc_run run_opts (\<lambda>_. True) life (make_scheduler no_driver) of
     None \<Rightarrow> False
   | Some (r, b) \<Rightarrow> r = Returned \<and> worker_handles b = [False, True] \<and> wall_seconds b = 2 \<and> created b = 4 \<and> joined b = 2"
  by code_simp

lemma restarted_reach: "\<exists>jobs. lc_reach run_opts (\<lambda>_. True) no_driver 1000 jobs Returned restarted"
proof -
  have r: "lc_run run_opts (\<lambda>_. True) life (make_scheduler no_driver) = Some (Returned, restarted)"
    using life_ends by (auto simp: restarted_def split: option.splits)
  have "list_all (lc_within run_opts 1000) life" by (auto simp: life_def list_all_iff budgets_1000)
  from lc_reach_run [OF lc_make this r] show ?thesis by blast
qed

lemma restarted_facts: "worker_handles restarted = [False, True]" "wall_seconds restarted = 2" "created restarted = 4" "joined restarted = 2"
  using life_ends by (auto simp: restarted_def split: option.splits)

theorem lifecycle_joins_every_thread_witness: "joinables restarted = 2"
proof -
  obtain jobs where "lc_reach run_opts (\<lambda>_. True) no_driver 1000 jobs Returned restarted" using restarted_reach by blast
  from lifecycle_joins_every_thread [OF this] show ?thesis by (simp add: restarted_facts)
qed

theorem lifecycle_refines_scheduler_witness: "\<exists>jobs. reach run_opts 1000 jobs (sys restarted)"
proof -
  obtain jobs where "lc_reach run_opts (\<lambda>_. True) no_driver 1000 jobs Returned restarted" using restarted_reach by blast
  moreover have "0 \<le> sint (num_workers run_opts)" by (simp add: run_opts_def default_options_def)
  ultimately show ?thesis using lifecycle_refines_scheduler by blast
qed

text \<open>With NVML the second thread is the dispatcher's.\<close>

definition half_started :: "call_result \<times> BatchScheduler" where
  "half_started = start_call run_opts second_refused 1 run_stats None 0 (make_scheduler (sample_driver 0))"

definition hollow_life :: "lc_action list" where
  "hollow_life = [CallStart 1 run_stats None 0, ThreadStep (SubmitPush 5 small_job), ThreadStep SubmitCount]"

lemma hollow_life_runs:
  "case lc_run run_opts second_refused hollow_life (snd half_started) of
     None \<Rightarrow> False
   | Some (r, b) \<Rightarrow> submitted (sys b) = 1"
  by code_simp

lemma hollow_life_log: "lc_log run_opts second_refused hollow_life (snd half_started) = [stamp 5 0 small_job]"
  by code_simp

theorem failed_start_accepts_jobs_witness:
  "\<exists>r b. lc_run run_opts second_refused hollow_life (snd half_started) = Some (r, b) \<and> submitted (sys b) = 1 \<and>
     started (sys b) \<and> mset (queue (sys b)) = {#stamp 5 0 small_job#} \<and> metrics (sys b) = []"
proof -
  obtain r b where l: "lc_run run_opts second_refused hollow_life (snd half_started) = Some (r, b)" "submitted (sys b) = 1"
    using hollow_life_runs by (auto split: option.splits)
  have s: "start_call run_opts second_refused 1 run_stats None 0 (make_scheduler (sample_driver 0)) = (fst half_started, snd half_started)"
    by (simp add: half_started_def)
  have "list_all no_stop hollow_life" by (simp add: hollow_life_def no_stop_def)
  moreover have "if gpu_present (monitor_init (sample_driver 0)) then \<not> second_refused 0 \<or> \<not> second_refused (Suc 0) else \<not> second_refused 0"
    by (simp add: second_refused_def nvml_usable_def sample_driver_def)
  ultimately show ?thesis using failed_start_accepts_jobs [OF s _ _ l(1)] l hollow_life_log by simp
qed

end
