(* ===== verification/Gemm.thy ===== *)
theory Gemm
  imports Prelude
begin

section \<open>The GEMM kernels (kernels/gemm.cu, kernels/gemm_cublas.cu)\<close>

text \<open>
  A kernel is what one thread does; a launch is all the writes of its threads, in any order.
  Device memory is a function of addresses in elements.  The indices are computed as the kernels
  compute them, modulo \<open>2 ^ 32\<close>: signed in the naive kernel (\<open>s32\<close>), unsigned in the tiled
  kernel, where \<open>threadIdx\<close> makes the expression unsigned (\<open>u32\<close>).  The floating-point
  operations are the parameters \<open>add\<close>, \<open>mul\<close> and \<open>zero\<close>, of which the tiled kernel needs
  that a padded product changes no accumulator.
\<close>

definition s32 :: "nat \<Rightarrow> int" where
  "s32 n = sint (word_of_nat n :: 32 word)"

definition u32 :: "nat \<Rightarrow> int" where
  "u32 n = uint (word_of_nat n :: 32 word)"

type_synonym 'f memory = "int \<Rightarrow> 'f"

text \<open>\<open>batch * stride\<close>, of type \<open>size_t\<close>.\<close>

definition stride_offset :: "nat \<Rightarrow> nat \<Rightarrow> nat \<Rightarrow> int" where
  "stride_offset b rows cols = uint (word_of_nat b * (word_of_nat rows * word_of_nat cols) :: size_t)"

subsection \<open>The naive kernel\<close>

definition naive_thread :: "('f \<Rightarrow> 'f \<Rightarrow> 'f) \<Rightarrow> ('f \<Rightarrow> 'f \<Rightarrow> 'f) \<Rightarrow> 'f \<Rightarrow> 'f memory \<Rightarrow> 'f memory
    \<Rightarrow> nat \<Rightarrow> nat \<Rightarrow> nat \<Rightarrow> nat \<Rightarrow> nat \<Rightarrow> nat \<Rightarrow> nat \<Rightarrow> nat \<Rightarrow> (int \<times> 'f) option" where
  "naive_thread add mul zero A B M N K bz bY bX ty tx =
     (let col = bX * 16 + tx; row = bY * 16 + ty in
      if s32 row \<ge> int M \<or> s32 col \<ge> int N then None
      else let acc = foldl (\<lambda>acc k. add acc (mul (A (stride_offset bz M K + s32 (row * K + k)))
                                                (B (stride_offset bz K N + s32 (k * N + col)))))
                       zero [0..<K]
           in Some (stride_offset bz M N + s32 (row * N) + s32 col, acc))"

subsection \<open>The tiled kernel\<close>

text \<open>What the threads of a block put into shared memory for the tile that starts at \<open>k0\<close>.\<close>

definition load_a :: "'f \<Rightarrow> 'f memory \<Rightarrow> nat \<Rightarrow> nat \<Rightarrow> nat \<Rightarrow> nat \<Rightarrow> nat \<Rightarrow> nat \<Rightarrow> 'f" where
  "load_a zero A M K bz row k0 tx =
     (if s32 row < int M \<and> s32 (k0 + tx) < int K then A (stride_offset bz M K + u32 (row * K + k0 + tx))
      else zero)"

definition load_b :: "'f \<Rightarrow> 'f memory \<Rightarrow> nat \<Rightarrow> nat \<Rightarrow> nat \<Rightarrow> nat \<Rightarrow> nat \<Rightarrow> nat \<Rightarrow> 'f" where
  "load_b zero B N K bz col k0 ty =
     (if s32 (k0 + ty) < int K \<and> s32 col < int N then B (stride_offset bz K N + u32 ((k0 + ty) * N + col))
      else zero)"

text \<open>The accumulation over one tile, between the two barriers.\<close>

definition tile_acc :: "('f \<Rightarrow> 'f \<Rightarrow> 'f) \<Rightarrow> ('f \<Rightarrow> 'f \<Rightarrow> 'f) \<Rightarrow> 'f \<Rightarrow> 'f memory \<Rightarrow> 'f memory
    \<Rightarrow> nat \<Rightarrow> nat \<Rightarrow> nat \<Rightarrow> nat \<Rightarrow> nat \<Rightarrow> nat \<Rightarrow> nat \<Rightarrow> 'f \<Rightarrow> 'f" where
  "tile_acc add mul zero A B M N K bz row col k0 acc =
     foldl (\<lambda>acc kk. add acc (mul (load_a zero A M K bz row k0 kk) (load_b zero B N K bz col k0 kk)))
       acc [0..<32]"

function tile_loop :: "(nat \<Rightarrow> 'f \<Rightarrow> 'f) \<Rightarrow> nat \<Rightarrow> nat \<Rightarrow> 'f \<Rightarrow> 'f" where
  "tile_loop step K k0 acc = (if k0 < K then tile_loop step K (k0 + 32) (step k0 acc) else acc)"
  by pat_completeness auto
termination by (relation "measure (\<lambda>(step, K, k0, acc). K - k0)") auto

definition tiled_thread :: "('f \<Rightarrow> 'f \<Rightarrow> 'f) \<Rightarrow> ('f \<Rightarrow> 'f \<Rightarrow> 'f) \<Rightarrow> 'f \<Rightarrow> 'f memory \<Rightarrow> 'f memory
    \<Rightarrow> nat \<Rightarrow> nat \<Rightarrow> nat \<Rightarrow> nat \<Rightarrow> nat \<Rightarrow> nat \<Rightarrow> nat \<Rightarrow> nat \<Rightarrow> (int \<times> 'f) option" where
  "tiled_thread add mul zero A B M N K bz bY bX ty tx =
     (let row = bY * 32 + ty; col = bX * 32 + tx;
          acc = tile_loop (tile_acc add mul zero A B M N K bz row col) K 0 zero
      in if s32 row < int M \<and> s32 col < int N
         then Some (stride_offset bz M N + s32 (row * N + col), acc) else None)"

subsection \<open>Launches\<close>

text \<open>The largest grid that a device of compute capability 7.5 accepts (CUDA programming guide).\<close>

definition grid_accepted :: "nat \<Rightarrow> nat \<Rightarrow> nat \<Rightarrow> bool" where
  "grid_accepted x y z \<longleftrightarrow> x \<le> 2147483647 \<and> y \<le> 65535 \<and> z \<le> 65535"

definition grid_ok :: "nat \<Rightarrow> nat \<Rightarrow> nat \<Rightarrow> nat \<Rightarrow> bool" where
  "grid_ok side M N batch \<longleftrightarrow> grid_accepted ((N + side - 1) div side) ((M + side - 1) div side) batch"

text \<open>All writes of a launch with square blocks of side \<open>side\<close>: \<open>gemm_naive_batched\<close> and
  \<open>gemm_tiled_batched\<close> choose the grid \<open>(N + side - 1) / side\<close> by
  \<open>(M + side - 1) / side\<close> by \<open>batch\<close>.  A launch that the device does not accept runs no thread;
  the error it leaves behind is not looked at by either function.\<close>

definition launch :: "nat \<Rightarrow> (nat \<Rightarrow> nat \<Rightarrow> nat \<Rightarrow> nat \<Rightarrow> nat \<Rightarrow> (int \<times> 'f) option)
    \<Rightarrow> nat \<Rightarrow> nat \<Rightarrow> nat \<Rightarrow> (int \<times> 'f) list" where
  "launch side thread M N batch = (if \<not> grid_ok side M N batch then [] else
     concat (map (\<lambda>bz. concat (map (\<lambda>bY. concat (map (\<lambda>bX. concat (map (\<lambda>ty.
       List.map_filter (\<lambda>tx. thread bz bY bX ty tx) [0..<side]) [0..<side]))
       [0..<(N + side - 1) div side])) [0..<(M + side - 1) div side])) [0..<batch]))"

definition gemm_naive_batched where
  "gemm_naive_batched add mul zero A B M N K batch =
     launch 16 (naive_thread add mul zero A B M N K) M N batch"

definition gemm_tiled_batched where
  "gemm_tiled_batched add mul zero A B M N K batch =
     launch 32 (tiled_thread add mul zero A B M N K) M N batch"

definition apply_writes :: "(int \<times> 'f) list \<Rightarrow> 'f memory \<Rightarrow> 'f memory" where
  "apply_writes ws C = foldl (\<lambda>C (a, v). C(a := v)) C ws"

subsection \<open>The reference\<close>

definition gemm_ref :: "('f \<Rightarrow> 'f \<Rightarrow> 'f) \<Rightarrow> ('f \<Rightarrow> 'f \<Rightarrow> 'f) \<Rightarrow> 'f \<Rightarrow> 'f memory \<Rightarrow> 'f memory
    \<Rightarrow> nat \<Rightarrow> nat \<Rightarrow> nat \<Rightarrow> nat \<Rightarrow> nat \<Rightarrow> nat \<Rightarrow> 'f" where
  "gemm_ref add mul zero A B M N K b i j =
     foldl (\<lambda>acc k. add acc (mul (A (int (b * (M * K) + (i * K + k)))) (B (int (b * (K * N) + (k * N + j))))))
       zero [0..<K]"

text \<open>Dimensions for which no index expression wraps.\<close>

definition dims_ok :: "nat \<Rightarrow> nat \<Rightarrow> nat \<Rightarrow> nat \<Rightarrow> bool" where
  "dims_ok M N K batch \<longleftrightarrow> M + 64 < 2 ^ 31 \<and> N + 64 < 2 ^ 31 \<and> K + 64 < 2 ^ 31 \<and>
     M * K < 2 ^ 31 \<and> K * N < 2 ^ 31 \<and> M * N < 2 ^ 31 \<and> batch < 2 ^ 31"

lemma s32_exact: "n < 2 ^ 31 \<Longrightarrow> s32 n = int n"
  by (simp add: s32_def sint_uint signed_take_bit_int_eq_self unsigned_of_nat
      take_bit_nat_eq_self take_bit_int_eq_self)

lemma u32_exact: "n < 2 ^ 32 \<Longrightarrow> u32 n = int n"
  by (simp add: u32_def unsigned_of_nat take_bit_nat_eq_self)

lemma stride_offset_exact:
  assumes "b < 2 ^ 31" "rows * cols < 2 ^ 31"
  shows "stride_offset b rows cols = int (b * (rows * cols))"
proof -
  have "b * (rows * cols) < 2 ^ 31 * 2 ^ 31" using assms by (intro mult_strict_mono') simp_all
  then have "b * (rows * cols) < 2 ^ 64" by simp
  moreover have "word_of_nat b * (word_of_nat rows * word_of_nat cols) = (word_of_nat (b * (rows * cols)) :: size_t)"
    by simp
  ultimately show ?thesis
    by (simp only: stride_offset_def) (simp add: unsigned_of_nat take_bit_nat_eq_self del: of_nat_mult)
qed

lemma row_col_bound: "i < M \<Longrightarrow> k < K \<Longrightarrow> i * K + k < M * (K :: nat)"
proof -
  assume "i < M" "k < K"
  then have "i * K + k < Suc i * K" by simp
  also have "\<dots> \<le> M * K" using \<open>i < M\<close> by (intro mult_le_mono1) simp
  finally show ?thesis .
qed

subsection \<open>What one thread computes\<close>

lemma dims_okD:
  assumes "dims_ok M N K batch"
  shows "M * K < 2 ^ 31" "K * N < 2 ^ 31" "M * N < 2 ^ 31" "batch < 2 ^ 31"
  using assms by (simp_all add: dims_ok_def)

lemma naive_thread_value:
  assumes ok: "dims_ok M N K batch" and b: "bz < batch" and bX: "bX * 16 + tx < N + 64" and bY: "bY * 16 + ty < M + 64"
  shows "naive_thread add mul zero A B M N K bz bY bX ty tx =
    (if bY * 16 + ty < M \<and> bX * 16 + tx < N
     then Some (int (bz * (M * N) + ((bY * 16 + ty) * N + (bX * 16 + tx))),
       gemm_ref add mul zero A B M N K bz (bY * 16 + ty) (bX * 16 + tx)) else None)"
proof -
  let ?i = "bY * 16 + ty" and ?j = "bX * 16 + tx"
  note d = dims_okD [OF ok]
  have ij: "s32 ?i = int ?i" "s32 ?j = int ?j" using ok bX bY by (simp_all add: dims_ok_def s32_exact del: of_nat_add of_nat_mult)
  have bz: "bz < 2 ^ 31" using b d(4) by simp
  show ?thesis
  proof (cases "?i < M \<and> ?j < N")
    case True
    have a: "s32 (?i * K + k) = int (?i * K + k)" if "k < K" for k
      using row_col_bound [of ?i M k K] True that d(1) by (intro s32_exact) linarith
    have c: "s32 (k * N + ?j) = int (k * N + ?j)" if "k < K" for k
      using row_col_bound [of k K ?j N] True that d(2) by (intro s32_exact) linarith
    have e: "s32 (?i * N) = int (?i * N)"
      using row_col_bound [of ?i M ?j N] True d(3) by (intro s32_exact) linarith
    have fold: "foldl (\<lambda>acc k. add acc (mul (A (stride_offset bz M K + s32 (?i * K + k)))
          (B (stride_offset bz K N + s32 (k * N + ?j))))) zero [0..<K] =
        gemm_ref add mul zero A B M N K bz ?i ?j"
      unfolding gemm_ref_def stride_offset_exact [OF bz d(1)] stride_offset_exact [OF bz d(2)]
      by (rule foldl_cong) (simp_all only: a c set_upt atLeastLessThan_iff of_nat_add)
    show ?thesis
      unfolding naive_thread_def Let_def fold ij e stride_offset_exact [OF bz d(3)]
      using True by (auto simp del: of_nat_mult simp: add.assoc)
  next
    case False
    then show ?thesis unfolding naive_thread_def Let_def ij by auto
  qed
qed

declare tile_loop.simps [simp del]

lemma tile_loop_fold:
  assumes "\<And>k0 acc. k0 < K \<Longrightarrow> step k0 acc = foldl f acc [k0..<min (k0 + 32) K]"
  shows "tile_loop step K k0 acc = foldl f acc [k0..<K]"
proof (induction "K - k0" arbitrary: k0 acc rule: less_induct)
  case less
  show ?case
  proof (cases "k0 < K")
    case True
    have "tile_loop step K k0 acc = tile_loop step K (k0 + 32) (foldl f acc [k0..<min (k0 + 32) K])"
      using True assms by (subst tile_loop.simps) simp
    also have "\<dots> = foldl f (foldl f acc [k0..<min (k0 + 32) K]) [k0 + 32..<K]"
      using True by (intro less) simp
    also have "\<dots> = foldl f acc ([k0..<min (k0 + 32) K] @ [k0 + 32..<K])" by simp
    also have "[k0..<min (k0 + 32) K] @ [k0 + 32..<K] = [k0..<K]"
    proof (cases "k0 + 32 \<le> K")
      case True
      then show ?thesis using upt_add_eq_append [of k0 "k0 + 32" "K - (k0 + 32)"] by (simp add: min_def)
    qed (simp add: min_def)
    finally show ?thesis .
  qed (subst tile_loop.simps, simp)
qed

text \<open>The padding of the last tile changes nothing.\<close>

lemma foldl_idle: "\<forall>x \<in> set xs. \<forall>acc. f acc x = acc \<Longrightarrow> foldl f acc xs = acc"
  by (induction xs arbitrary: acc) auto

lemma tile_acc_fold:
  assumes ok: "dims_ok M N K batch" and b: "bz < batch" and row: "row < M" and col: "col < N" and k0: "k0 < K"
    and pad: "\<And>a. add a (mul zero zero) = a"
  shows "tile_acc add mul zero A B M N K bz row col k0 acc =
    foldl (\<lambda>acc k. add acc (mul (A (int (bz * (M * K) + (row * K + k)))) (B (int (bz * (K * N) + (k * N + col))))))
      acc [k0..<min (k0 + 32) K]"
proof -
  let ?g = "\<lambda>acc k. add acc (mul (A (int (bz * (M * K) + (row * K + k)))) (B (int (bz * (K * N) + (k * N + col)))))"
  let ?f = "\<lambda>acc kk. add acc (mul (load_a zero A M K bz row k0 kk) (load_b zero B N K bz col k0 kk))"
  note d = dims_okD [OF ok]
  have bz: "bz < 2 ^ 31" using b d(4) by simp
  have rc: "s32 row = int row" "s32 col = int col"
    using ok row col by (simp_all add: dims_ok_def s32_exact)
  have kk: "s32 (k0 + n) = int (k0 + n)" if "n < 32" for n
    using ok k0 that by (intro s32_exact) (simp add: dims_ok_def)
  have inside: "?f acc n = ?g acc (k0 + n)" if "n < 32" "k0 + n < K" for acc n
  proof -
    have "u32 (row * K + k0 + n) = int (row * K + (k0 + n))"
      using row_col_bound [OF row that(2)] d(1) by (subst u32_exact) simp_all
    moreover have "u32 ((k0 + n) * N + col) = int ((k0 + n) * N + col)"
      using less_trans [OF row_col_bound [OF that(2) col] d(2)] by (intro u32_exact) simp
    ultimately show ?thesis
      using that row col rc kk [OF that(1)] stride_offset_exact [OF bz d(1)] stride_offset_exact [OF bz d(2)]
      by (simp add: load_a_def load_b_def)
  qed
  have outside: "?f acc n = acc" if "n < 32" "K \<le> k0 + n" for acc n
    using that kk [OF that(1)] pad by (simp add: load_a_def load_b_def)
  define m where "m = min 32 (K - k0)"
  have "[0..<32] = [0..<m] @ [m..<32]" using upt_add_eq_append [of 0 m "32 - m"] by (simp add: m_def)
  then have "tile_acc add mul zero A B M N K bz row col k0 acc = foldl ?f (foldl ?f acc [0..<m]) [m..<32]"
    by (simp add: tile_acc_def del: upt_conv_Cons)
  also have "\<dots> = foldl ?f acc [0..<m]"
    by (rule foldl_idle) (use outside in \<open>auto simp: m_def min_def split: if_splits\<close>)
  also have "\<dots> = foldl (\<lambda>acc n. ?g acc (k0 + n)) acc [0..<m]"
    by (rule foldl_cong) (use inside in \<open>auto simp: m_def\<close>)
  also have "\<dots> = foldl ?g acc (map (\<lambda>n. k0 + n) [0..<m])" by (simp add: foldl_map)
  also have "map (\<lambda>n. k0 + n) [0..<m] = [k0..<min (k0 + 32) K]"
    using k0 by (intro nth_equalityI) (auto simp: m_def)
  finally show ?thesis .
qed

lemma tiled_thread_value:
  assumes ok: "dims_ok M N K batch" and b: "bz < batch" and bX: "bX * 32 + tx < N + 64" and bY: "bY * 32 + ty < M + 64"
    and pad: "\<And>a. add a (mul zero zero) = a"
  shows "tiled_thread add mul zero A B M N K bz bY bX ty tx =
    (if bY * 32 + ty < M \<and> bX * 32 + tx < N
     then Some (int (bz * (M * N) + ((bY * 32 + ty) * N + (bX * 32 + tx))),
       gemm_ref add mul zero A B M N K bz (bY * 32 + ty) (bX * 32 + tx)) else None)"
proof -
  let ?i = "bY * 32 + ty" and ?j = "bX * 32 + tx"
  note d = dims_okD [OF ok]
  have ij: "s32 ?i = int ?i" "s32 ?j = int ?j" using ok bX bY by (simp_all add: dims_ok_def s32_exact del: of_nat_add of_nat_mult)
  have bz: "bz < 2 ^ 31" using b d(4) by simp
  show ?thesis
  proof (cases "?i < M \<and> ?j < N")
    case True
    then have i: "?i < M" and j: "?j < N" by blast+
    have e: "s32 (?i * N + ?j) = int (?i * N + ?j)"
      using row_col_bound [OF i j] d(3) by (intro s32_exact) linarith
    have loop: "tile_loop (tile_acc add mul zero A B M N K bz ?i ?j) K 0 zero =
        gemm_ref add mul zero A B M N K bz ?i ?j"
      unfolding gemm_ref_def by (rule tile_loop_fold) (rule tile_acc_fold [OF ok b i j], assumption, rule pad)
    show ?thesis
      unfolding tiled_thread_def Let_def loop ij e stride_offset_exact [OF bz d(3)]
      using True by (auto simp del: of_nat_mult simp: add.assoc)
  next
    case False
    then show ?thesis unfolding tiled_thread_def Let_def ij by auto
  qed
qed

subsection \<open>What a launch writes\<close>

text \<open>The writes of a launch whose threads compute \<open>val\<close> at their place in the matrix.\<close>

definition cell :: "nat \<Rightarrow> nat \<Rightarrow> nat \<Rightarrow> nat \<Rightarrow> nat \<Rightarrow> int" where
  "cell M N b i j = int (b * (M * N) + (i * N + j))"

lemma grid_ok_larger: "grid_ok 16 M N batch \<Longrightarrow> grid_ok 32 M N batch"
proof -
  have "(x + 31) div 32 \<le> (x + 15) div 16" for x :: nat by linarith
  then show "grid_ok 16 M N batch \<Longrightarrow> ?thesis"
    using le_trans by (fastforce simp: grid_ok_def grid_accepted_def)
qed

lemma set_launch:
  "grid_ok side M N batch \<Longrightarrow> set (launch side thread M N batch) = {w. \<exists>bz < batch. \<exists>bY < (M + side - 1) div side.
     \<exists>bX < (N + side - 1) div side. \<exists>ty < side. \<exists>tx < side. thread bz bY bX ty tx = Some w}"
  by (auto simp: launch_def List.map_filter_def image_iff) (fastforce simp: Bex_def)+

lemma block_bound:
  fixes N side bX tx :: nat
  assumes "bX < (N + side - 1) div side" "tx < side"
  shows "bX * side + tx < N + 2 * side"
proof -
  have "bX * side \<le> (N + side - 1) div side * side" using assms(1) by (intro mult_le_mono1) simp
  also have "\<dots> \<le> N + side - 1" by simp
  finally show ?thesis using assms(2) by simp
qed

lemma block_exists:
  fixes i M side :: nat
  assumes "i < M" "0 < side"
  shows "i div side < (M + side - 1) div side \<and> i mod side < side \<and> i div side * side + i mod side = i"
proof -
  have "i div side < (M + side - 1) div side"
  proof -
    have "(i + side) div side \<le> (M + side - 1) div side" using assms by (intro div_le_mono) simp
    then show ?thesis using assms(2) by simp
  qed
  then show ?thesis using assms(2) by simp
qed

lemma launch_writes:
  assumes "0 < side" "side \<le> 32" and grid: "grid_ok side M N batch"
    and "\<And>bz bY bX ty tx. bz < batch \<Longrightarrow> bX * side + tx < N + 64 \<Longrightarrow> bY * side + ty < M + 64 \<Longrightarrow>
      thread bz bY bX ty tx = (if bY * side + ty < M \<and> bX * side + tx < N
        then Some (cell M N bz (bY * side + ty) (bX * side + tx), val bz (bY * side + ty) (bX * side + tx)) else None)"
  shows "set (launch side thread M N batch) = {(cell M N b i j, val b i j) | b i j. b < batch \<and> i < M \<and> j < N}"
proof -
  have inb: "bX * side + tx < n + 64" if "bX < (n + side - 1) div side" "tx < side" for n bX tx
    using block_bound [OF that] assms(2) by linarith
  show ?thesis
  proof (intro set_eqI iffI)
    fix w assume "w \<in> set (launch side thread M N batch)"
    then obtain bz bY bX ty tx where w: "bz < batch" "bY < (M + side - 1) div side"
      "bX < (N + side - 1) div side" "ty < side" "tx < side" "thread bz bY bX ty tx = Some w"
      unfolding set_launch [OF grid] by blast
    then show "w \<in> {(cell M N b i j, val b i j) | b i j. b < batch \<and> i < M \<and> j < N}"
      using assms(4) [OF w(1) inb [OF w(3,5)] inb [OF w(2,4)]] by (auto split: if_splits)
  next
    fix w assume "w \<in> {(cell M N b i j, val b i j) | b i j. b < batch \<and> i < M \<and> j < N}"
    then obtain b i j where w: "w = (cell M N b i j, val b i j)" "b < batch" "i < M" "j < N" by blast
    note bi = block_exists [OF w(3) assms(1)] and bj = block_exists [OF w(4) assms(1)]
    then have "thread b (i div side) (j div side) (i mod side) (j mod side) = Some w"
      using assms(4) [of b "j div side" "j mod side" "i div side" "i mod side"] w by simp
    with w(2) bi bj show "w \<in> set (launch side thread M N batch)" unfolding set_launch [OF grid] by blast
  qed
qed

lemma digit_div: "r < n \<Longrightarrow> (b * n + r) div n = (b :: nat)"
  by simp

lemma cell_inject:
  assumes "i < M" "j < N" "i' < M" "j' < N" "cell M N b i j = cell M N b' i' j'"
  shows "b = b' \<and> i = i' \<and> j = j'"
proof -
  have e: "b * (M * N) + (i * N + j) = b' * (M * N) + (i' * N + j')" using assms(5) unfolding cell_def by linarith
  have l: "i * N + j < M * N" "i' * N + j' < M * N" using assms by (simp_all add: row_col_bound)
  have "b = b'" using arg_cong [OF e, of "\<lambda>x. x div (M * N)"] unfolding digit_div [OF l(1)] digit_div [OF l(2)] .
  moreover from this e have "i * N + j = i' * N + j'" by simp
  moreover from arg_cong [OF this, of "\<lambda>x. x div N"] have "i = i'"
    unfolding digit_div [OF assms(2)] digit_div [OF assms(4)] .
  ultimately show ?thesis by simp
qed

text \<open>Every index of the result is a place in it.\<close>

lemma cell_of_index:
  assumes "c < M * N * batch"
  shows "c div (M * N) < batch" "c mod (M * N) div N < M" "c mod (M * N) mod N < N"
    "int c = cell M N (c div (M * N)) (c mod (M * N) div N) (c mod (M * N) mod N)"
proof -
  have pos: "0 < M * N" "0 < N" using assms by (auto intro: Nat.gr0I)
  show "c div (M * N) < batch" using assms pos by (simp add: less_mult_imp_div_less mult.commute)
  have "c mod (M * N) < M * N" using pos by simp
  then show "c mod (M * N) div N < M" by (simp add: less_mult_imp_div_less)
  show "c mod (M * N) mod N < N" using pos by simp
  show "int c = cell M N (c div (M * N)) (c mod (M * N) div N) (c mod (M * N) mod N)"
    unfolding cell_def div_mult_mod_eq ..
qed

lemma apply_writes_simps:
  "apply_writes [] C = C" "apply_writes ((a, v) # ws) C = apply_writes ws (C(a := v))"
  by (simp_all add: apply_writes_def)

lemma apply_writes_value:
  assumes "\<forall>(a', v') \<in> set ws. a' = a \<longrightarrow> v' = v"
  shows "apply_writes ws C a = (if a \<in> fst ` set ws then v else C a)"
  using assms
proof (induction ws arbitrary: C)
  case (Cons w ws)
  obtain a' v' where w: "w = (a', v')" by fastforce
  define D where "D = C(a' := v')"
  have "apply_writes (w # ws) C = apply_writes ws D" by (simp only: w apply_writes_simps D_def)
  moreover have "a' = a \<Longrightarrow> v' = v \<and> D a = v" "a' \<noteq> a \<Longrightarrow> D a = C a"
    using Cons.prems w by (simp_all add: D_def)
  ultimately show ?case using Cons.IH [of D] Cons.prems w by (cases "a' = a") simp_all
qed (simp add: apply_writes_simps)

text \<open>Any order of the writes of a launch gives the same memory.\<close>

lemma launch_result:
  assumes ws: "set ws = {(cell M N b i j, val b i j) | b i j. b < batch \<and> i < M \<and> j < N}"
  shows "b < batch \<Longrightarrow> i < M \<Longrightarrow> j < N \<Longrightarrow> apply_writes ws C (cell M N b i j) = val b i j"
    and "(\<forall>b i j. b < batch \<longrightarrow> i < M \<longrightarrow> j < N \<longrightarrow> a \<noteq> cell M N b i j) \<Longrightarrow> apply_writes ws C a = C a"
proof -
  assume b: "b < batch" "i < M" "j < N"
  have "\<forall>(a', v') \<in> set ws. a' = cell M N b i j \<longrightarrow> v' = val b i j"
    unfolding ws using b by (auto dest: cell_inject)
  from apply_writes_value [OF this] show "apply_writes ws C (cell M N b i j) = val b i j"
    using b unfolding ws by (auto simp: image_iff)
next
  assume a: "\<forall>b i j. b < batch \<longrightarrow> i < M \<longrightarrow> j < N \<longrightarrow> a \<noteq> cell M N b i j"
  have "a \<notin> fst ` set ws"
  proof
    assume "a \<in> fst ` set ws"
    then obtain b i j where "b < batch" "i < M" "j < N" "a = cell M N b i j" unfolding ws by auto
    with a show False by blast
  qed
  moreover from this have "\<forall>(a', v') \<in> set ws. a' = a \<longrightarrow> v' = C a" by (force simp: image_iff)
  ultimately show "apply_writes ws C a = C a" using apply_writes_value [of ws a "C a" C] by simp
qed

lemma naive_writes:
  assumes "dims_ok M N K batch" "grid_ok 16 M N batch"
  shows "set (gemm_naive_batched add mul zero A B M N K batch) =
      {(cell M N b i j, gemm_ref add mul zero A B M N K b i j) | b i j. b < batch \<and> i < M \<and> j < N}"
  unfolding gemm_naive_batched_def
  by (rule launch_writes) (use assms(2) in \<open>simp_all only: naive_thread_value [OF assms(1)] cell_def\<close>)

lemma tiled_writes:
  assumes "dims_ok M N K batch" "grid_ok 32 M N batch" "\<And>a. add a (mul zero zero) = a"
  shows "set (gemm_tiled_batched add mul zero A B M N K batch) =
      {(cell M N b i j, gemm_ref add mul zero A B M N K b i j) | b i j. b < batch \<and> i < M \<and> j < N}"
  unfolding gemm_tiled_batched_def
  by (rule launch_writes) (use assms(2) in \<open>simp_all only: cell_def tiled_thread_value
    [where add = add and mul = mul and zero = zero, OF assms(1) _ _ _ assms(3)]\<close>)

text \<open>
  C18.  Both kernels compute the batched matrix product, and exactly alike: for dimensions whose
  products fit an \<open>int\<close> and a grid that the device accepts, and an addition that a padded product leaves alone, every order of the
  writes of a launch of the naive or of the tiled kernel leaves in element \<open>(i, j)\<close> of batch
  element \<open>b\<close> the sum over \<open>k\<close> of \<open>A[b][i][k] * B[b][k][j]\<close>, accumulated in increasing
  \<open>k\<close>, and changes nothing else.
\<close>

theorem gemm_kernels_correct:
  assumes "dims_ok M N K batch" "\<And>a. add a (mul zero zero) = a"
    and "grid_ok 16 M N batch \<and> mset ws = mset (gemm_naive_batched add mul zero A B M N K batch) \<or>
      grid_ok 32 M N batch \<and> mset ws = mset (gemm_tiled_batched add mul zero A B M N K batch)"
  shows "(\<forall>b < batch. \<forall>i < M. \<forall>j < N.
      apply_writes ws C (cell M N b i j) = gemm_ref add mul zero A B M N K b i j) \<and>
    (\<forall>a. (\<forall>b i j. b < batch \<longrightarrow> i < M \<longrightarrow> j < N \<longrightarrow> a \<noteq> cell M N b i j) \<longrightarrow> apply_writes ws C a = C a)"
proof -
  have ws: "set ws = {(cell M N b i j, gemm_ref add mul zero A B M N K b i j) | b i j. b < batch \<and> i < M \<and> j < N}"
    using assms(3)
  proof (elim disjE conjE)
    assume g: "grid_ok 16 M N batch" and "mset ws = mset (gemm_naive_batched add mul zero A B M N K batch)"
    then show ?thesis unfolding naive_writes [OF assms(1) g, of add mul zero A B, symmetric] by (intro mset_eq_setD)
  next
    assume g: "grid_ok 32 M N batch" and "mset ws = mset (gemm_tiled_batched add mul zero A B M N K batch)"
    then show ?thesis
      unfolding tiled_writes [OF assms(1) g, of add mul zero, OF assms(2), of A B, symmetric] by (intro mset_eq_setD)
  qed
  show ?thesis
    by (intro conjI allI impI; (rule launch_result(1) [OF ws] | rule launch_result(2) [OF ws]); assumption)
qed

theorem gemm_kernels_correct_witness:
  "apply_writes (gemm_tiled_batched (+) (*) (0 :: int) (\<lambda>_. 2) (\<lambda>_. 3) 2 2 5 3) (\<lambda>_. 0) (cell 2 2 1 0 1) = 30"
proof -
  have "dims_ok 2 2 5 3" "grid_ok 32 2 2 3" by (simp_all add: dims_ok_def grid_ok_def grid_accepted_def)
  from gemm_kernels_correct [OF this(1), of "(+)" "(*)" "0 :: int"
      "gemm_tiled_batched (+) (*) 0 (\<lambda>_. 2) (\<lambda>_. 3) 2 2 5 3" "\<lambda>_. 2" "\<lambda>_. 3" "\<lambda>_. 0"]
  show ?thesis using \<open>grid_ok 32 2 2 3\<close> by (simp add: gemm_ref_def upt_rec)
qed

text \<open>A launch that is refused leaves the result as it was.\<close>

lemma refused_launch:
  "\<not> grid_ok 32 M N batch \<Longrightarrow> apply_writes (gemm_tiled_batched add mul zero A B M N K batch) C = C"
  "\<not> grid_ok 16 M N batch \<Longrightarrow> apply_writes (gemm_naive_batched add mul zero A B M N K batch) C = C"
  by (simp_all add: gemm_tiled_batched_def gemm_naive_batched_def launch_def apply_writes_simps)

subsection \<open>The cuBLAS path\<close>

text \<open>\<open>cublasSgemmStridedBatched\<close> with no transposition is library code: a parameter, of which
  \<open>sgemm_documented\<close> states what its manual says of it (column-major matrices,
  \<open>C = alpha * A * B + beta * C\<close> for every element of the batch, for a leading dimension and a
  stride of \<open>C\<close> that keep the columns and the elements of the batch apart; with \<open>beta = 0\<close> the old
  \<open>C\<close> is not read).  The arithmetic is a parameter as for the kernels.  The manual leaves the order of the
  accumulation open, which matters to rounding only; the predicate fixes one.\<close>

type_synonym 'f sgemm = "nat \<Rightarrow> nat \<Rightarrow> nat \<Rightarrow> 'f \<Rightarrow> 'f memory \<Rightarrow> nat \<Rightarrow> nat \<Rightarrow> 'f memory \<Rightarrow> nat \<Rightarrow> nat
    \<Rightarrow> 'f \<Rightarrow> 'f memory \<Rightarrow> nat \<Rightarrow> nat \<Rightarrow> nat \<Rightarrow> 'f memory"

text \<open>One element of the column-major product, \<open>c\<close> being its old value.\<close>

definition sgemm_element :: "('f \<Rightarrow> 'f \<Rightarrow> 'f) \<Rightarrow> ('f \<Rightarrow> 'f \<Rightarrow> 'f) \<Rightarrow> 'f \<Rightarrow> nat \<Rightarrow> 'f \<Rightarrow> 'f memory \<Rightarrow> nat \<Rightarrow> nat
    \<Rightarrow> 'f memory \<Rightarrow> nat \<Rightarrow> nat \<Rightarrow> 'f \<Rightarrow> 'f \<Rightarrow> nat \<Rightarrow> nat \<Rightarrow> nat \<Rightarrow> 'f" where
  "sgemm_element add mul zero k alpha A lda sa B ldb sb beta c b i j =
     (let s = foldl (\<lambda>acc l. add acc (mul (A (int (b * sa + (l * lda + i)))) (B (int (b * sb + (j * ldb + l)))))) zero [0..<k]
      in if beta = zero then mul alpha s else add (mul alpha s) (mul beta c))"

definition sgemm_documented :: "('f \<Rightarrow> 'f \<Rightarrow> 'f) \<Rightarrow> ('f \<Rightarrow> 'f \<Rightarrow> 'f) \<Rightarrow> 'f \<Rightarrow> 'f sgemm \<Rightarrow> bool" where
  "sgemm_documented add mul zero sgemm \<longleftrightarrow>
     (\<forall>m n k alpha A lda sa B ldb sb beta C ldc sc batch b i j.
       b < batch \<and> i < m \<and> j < n \<and> m \<le> ldc \<and> n * ldc \<le> sc \<longrightarrow>
       sgemm m n k alpha A lda sa B ldb sb beta C ldc sc batch (int (b * sc + (j * ldc + i))) =
         sgemm_element add mul zero k alpha A lda sa B ldb sb beta (C (int (b * sc + (j * ldc + i)))) b i j)"

text \<open>The wrapper; \<open>one\<close> and \<open>zero\<close> are its constants \<open>alpha\<close> and \<open>beta\<close>.\<close>

definition gemm_cublas_batched :: "'f \<Rightarrow> 'f \<Rightarrow> 'f sgemm \<Rightarrow> 'f memory \<Rightarrow> 'f memory \<Rightarrow> 'f memory
    \<Rightarrow> nat \<Rightarrow> nat \<Rightarrow> nat \<Rightarrow> nat \<Rightarrow> 'f memory" where
  "gemm_cublas_batched one zero sgemm A B C M N K batch =
     sgemm N M K one B N (K * N) A K (M * K) zero C N (M * N) batch"

lemma cublas_value:
  assumes "sgemm_documented add mul zero sgemm" "\<And>x. mul one x = x" "\<And>x y. mul x y = mul y x"
    and "b < batch" "i < M" "j < N"
  shows "gemm_cublas_batched one zero sgemm A B C M N K batch (cell M N b i j) = gemm_ref add mul zero A B M N K b i j"
proof -
  have "gemm_cublas_batched one zero sgemm A B C M N K batch (int (b * (M * N) + (i * N + j))) =
      sgemm_element add mul zero K one B N (K * N) A K (M * K) zero (C (int (b * (M * N) + (i * N + j)))) b j i"
    unfolding gemm_cublas_batched_def
    by (rule assms(1) [unfolded sgemm_documented_def, rule_format]) (use assms(4-6) in simp)
  then show ?thesis
    by (simp add: cell_def gemm_ref_def sgemm_element_def assms(2) assms(3) [of "B p" "A q" for p q])
qed

text \<open>
  C30.  The call with swapped operands and leading dimensions computes the row-major product, the
  same as the kernels, and does not depend on what \<open>C\<close> held before: for every arithmetic in which
  the products commute and \<open>1 * x = x\<close>, such as the exact one.
\<close>

theorem gemm_cublas_row_major:
  assumes "sgemm_documented add mul zero sgemm" "\<And>x. mul one x = x" "\<And>x y. mul x y = mul y x"
    and "b < batch" "i < M" "j < N"
  shows "gemm_cublas_batched one zero sgemm A B C M N K batch (cell M N b i j) =
    gemm_ref add mul zero A B M N K b i j"
  using assms by (rule cublas_value)

text \<open>A function that behaves as documented: it finds the element that an address belongs to.\<close>

definition column_major_sgemm :: "('f \<Rightarrow> 'f \<Rightarrow> 'f) \<Rightarrow> ('f \<Rightarrow> 'f \<Rightarrow> 'f) \<Rightarrow> 'f \<Rightarrow> 'f sgemm" where
  "column_major_sgemm add mul zero m n k alpha A lda sa B ldb sb beta C ldc sc batch a =
     (let b = nat a div sc; r = nat a mod sc; j = r div ldc; i = r mod ldc
      in sgemm_element add mul zero k alpha A lda sa B ldb sb beta (C a) b i j)"

lemma column_major_sgemm_documented: "sgemm_documented add mul zero (column_major_sgemm add mul zero)"
  unfolding sgemm_documented_def
proof (intro allI impI, elim conjE)
  fix m n k alpha A lda sa B ldb sb beta C ldc sc batch b i j
  assume i: "i < m" and j: "j < n" and m: "m \<le> ldc" and sc: "n * ldc \<le> (sc :: nat)"
  have "i < ldc" using i m by simp
  then have "j * ldc + i < n * ldc" using j by (rule row_col_bound [rotated])
  then have r: "j * ldc + i < sc" using sc by simp
  have a: "nat (int (b * sc + (j * ldc + i))) = b * sc + (j * ldc + i)" by (rule nat_int)
  have b: "(b * sc + (j * ldc + i)) div sc = b" by (rule digit_div [OF r])
  have rest: "(b * sc + (j * ldc + i)) mod sc = j * ldc + i" using r by simp
  have "(j * ldc + i) div ldc = j" by (rule digit_div [OF \<open>i < ldc\<close>])
  moreover have "(j * ldc + i) mod ldc = i" using \<open>i < ldc\<close> by simp
  ultimately show "column_major_sgemm add mul zero m n k alpha A lda sa B ldb sb beta C ldc sc batch (int (b * sc + (j * ldc + i))) =
      sgemm_element add mul zero k alpha A lda sa B ldb sb beta (C (int (b * sc + (j * ldc + i)))) b i j"
    unfolding column_major_sgemm_def Let_def a b rest by presburger
qed

theorem gemm_cublas_row_major_witness:
  "gemm_cublas_batched 1 0 (column_major_sgemm (+) (*) (0 :: real)) (\<lambda>_. 2) (\<lambda>_. 3) (\<lambda>_. 7) 2 2 5 3 (cell 2 2 1 0 1) = 30"
  using gemm_cublas_row_major [OF column_major_sgemm_documented, where one = 1 and mul = "(*)" and add = "(+)" and
    zero = "0 :: real" and b = 1 and batch = 3 and i = 0 and M = 2 and j = 1 and N = 2 and K = 5 and A = "\<lambda>_. 2" and
    B = "\<lambda>_. 3" and C = "\<lambda>_. 7"]
  by (simp add: gemm_ref_def upt_rec)

end
