(* ===== verification/JobResult.thy ===== *)
theory JobResult
  imports Execute Gemm
begin

section \<open>The result of a job (execute_batch, fill_matrices and the kernels together)\<close>

text \<open>
  The pipeline of a batch, the inputs that \<open>fill_matrices\<close> writes and the kernel that the batch
  launches, composed: what the host finds in the result buffer of a job when it has waited for it.
  The value of a buffer in the pipeline is here the job and the contents of the buffer.
\<close>

subsection \<open>The buffers of a batch\<close>

text \<open>The contents of a buffer whose first elements have been written; \<open>old\<close> is what it held.\<close>

definition filled :: "'f list \<Rightarrow> 'f memory \<Rightarrow> 'f memory" where
  "filled xs old a = (if 0 \<le> a \<and> a < int (length xs) then xs ! nat a else old a)"

definition input_a :: "(32 word \<Rightarrow> 'g) \<Rightarrow> ('g \<Rightarrow> float32 \<times> 'g) \<Rightarrow> float32 memory \<Rightarrow> InferenceJob \<Rightarrow> InferenceJob \<times> float32 memory" where
  "input_a seed rnd old j = (j, filled (fst (fill_matrices seed rnd j)) old)"

definition input_b :: "(32 word \<Rightarrow> 'g) \<Rightarrow> ('g \<Rightarrow> float32 \<times> 'g) \<Rightarrow> float32 memory \<Rightarrow> InferenceJob \<Rightarrow> InferenceJob \<times> float32 memory" where
  "input_b seed rnd old j = (j, filled (snd (fill_matrices seed rnd j)) old)"

text \<open>The kernel of a job: the choice of \<open>execute_batch\<close> between \<open>gemm_cublas_batched\<close>, of which only
  the library call \<open>sgemm\<close> is a parameter, and the tiled kernel; \<open>junk\<close> is what the uninitialised
  result buffer of the job holds.\<close>

definition job_gemm :: "('f \<Rightarrow> 'f \<Rightarrow> 'f) \<Rightarrow> ('f \<Rightarrow> 'f \<Rightarrow> 'f) \<Rightarrow> 'f \<Rightarrow> 'f \<Rightarrow> 'f sgemm \<Rightarrow> Options \<Rightarrow> (InferenceJob \<Rightarrow> 'f memory)
    \<Rightarrow> InferenceJob \<times> 'f memory \<Rightarrow> InferenceJob \<times> 'f memory \<Rightarrow> InferenceJob \<times> 'f memory" where
  "job_gemm add mul zero one sgemm opts junk x y =
     (let j = fst x; M = dim (job_m j); N = dim (job_n j); K = dim (job_k j); n = dim (job_batch j)
      in (j, if impl opts = ''cublas'' then gemm_cublas_batched one zero sgemm (snd x) (snd y) (junk j) M N K n
             else apply_writes (gemm_tiled_batched add mul zero (snd x) (snd y) M N K n) (junk j)))"

text \<open>The vector that is stored: the first \<open>e.hc.size()\<close> elements of the result buffer.\<close>

definition result_vector :: "InferenceJob \<Rightarrow> 'f memory \<Rightarrow> 'f list" where
  "result_vector j mem = map (\<lambda>c. mem (int c)) [0..<unat (elems_c j)]"

subsection \<open>The product of the inputs of a job\<close>

text \<open>The reference: element by element the product of the two input lists.\<close>

definition job_product :: "(float32 \<Rightarrow> float32 \<Rightarrow> float32) \<Rightarrow> (float32 \<Rightarrow> float32 \<Rightarrow> float32) \<Rightarrow> float32
    \<Rightarrow> (32 word \<Rightarrow> 'g) \<Rightarrow> ('g \<Rightarrow> float32 \<times> 'g) \<Rightarrow> InferenceJob \<Rightarrow> float32 list" where
  "job_product add mul zero seed rnd j =
     (let (a, b) = fill_matrices seed rnd j;
          M = dim (job_m j); N = dim (job_n j); K = dim (job_k j)
      in map (\<lambda>c. gemm_ref add mul zero (\<lambda>p. a ! nat p) (\<lambda>p. b ! nat p) M N K
                (c div (M * N)) (c mod (M * N) div N) (c mod (M * N) mod N))
           [0..<M * N * dim (job_batch j)])"

definition job_ok :: "InferenceJob \<Rightarrow> bool" where
  "job_ok j \<longleftrightarrow> valid_job j \<and> dims_ok (dim (job_m j)) (dim (job_n j)) (dim (job_k j)) (dim (job_batch j)) \<and>
     grid_ok 32 (dim (job_m j)) (dim (job_n j)) (dim (job_batch j))"

lemma job_sizes:
  assumes "job_ok j"
  shows "unat (elems_a j) = dim (job_m j) * dim (job_k j) * dim (job_batch j)"
    "unat (elems_b j) = dim (job_k j) * dim (job_n j) * dim (job_batch j)"
    "unat (elems_c j) = dim (job_m j) * dim (job_n j) * dim (job_batch j)"
  using assms
  by (simp_all add: job_ok_def valid_job_def dims_ok_def elems_a_def elems_b_def elems_c_def unat_size_product)

lemma length_fill:
  "length (fst (fill_matrices seed rnd j)) = unat (elems_a j)" "length (snd (fill_matrices seed rnd j)) = unat (elems_b j)"
  using length_draws by (simp_all add: fill_matrices_def Let_def case_prod_unfold)

lemma filled_at: "p < length xs \<Longrightarrow> filled xs old (int p) = xs ! p"
  by (simp add: filled_def)

lemma index_bound: "b < n \<Longrightarrow> i < R \<Longrightarrow> k < C \<Longrightarrow> b * (R * C) + (i * C + k) < R * C * (n :: nat)"
  using row_col_bound [of b n "i * C + k" "R * C"] row_col_bound [of i R k C] by (simp add: mult.commute)

text \<open>The product reads only elements that were written.\<close>

lemma gemm_ref_filled:
  assumes "b < n" "i < M" "j < N" "length xs = M * K * n" "length ys = K * N * n"
  shows "gemm_ref add mul zero (filled xs old) (filled ys old') M N K b i j =
    gemm_ref add mul zero (\<lambda>p. xs ! nat p) (\<lambda>p. ys ! nat p) M N K b i j"
  unfolding gemm_ref_def
proof (rule foldl_cong [OF refl refl])
  fix k acc assume "k \<in> set [0..<K]"
  then have "k < K" by simp
  with assms index_bound [OF assms(1,2), of k K] index_bound [OF assms(1), of k K j N]
  show "add acc (mul (filled xs old (int (b * (M * K) + (i * K + k)))) (filled ys old' (int (b * (K * N) + (k * N + j))))) =
      add acc (mul (xs ! nat (int (b * (M * K) + (i * K + k)))) (ys ! nat (int (b * (K * N) + (k * N + j)))))"
    by (simp only: filled_at nat_int)
qed

text \<open>What the cuBLAS path relies on: the library call does what its manual says, and two laws of the
  arithmetic of \<open>float\<close>.\<close>

definition cublas_ok :: "('f \<Rightarrow> 'f \<Rightarrow> 'f) \<Rightarrow> ('f \<Rightarrow> 'f \<Rightarrow> 'f) \<Rightarrow> 'f \<Rightarrow> 'f \<Rightarrow> 'f sgemm \<Rightarrow> bool" where
  "cublas_ok add mul zero one sgemm \<longleftrightarrow>
     sgemm_documented add mul zero sgemm \<and> (\<forall>x. mul one x = x) \<and> (\<forall>x y. mul x y = mul y x)"

lemma column_major_ok: "cublas_ok (+) (*) 0 1 (column_major_sgemm (+) (*) (0 :: 'a::comm_semiring_1))"
  by (simp add: cublas_ok_def column_major_sgemm_documented mult.commute)

lemma job_gemm_value:
  assumes "job_ok j" "\<And>x. add x (mul zero zero) = x"
    and "impl opts = ''cublas'' \<Longrightarrow> cublas_ok add mul zero one sgemm"
    and "b < dim (job_batch j)" "r < dim (job_m j)" "c < dim (job_n j)"
  shows "snd (job_gemm add mul zero one sgemm opts junk (j, A) (j', B)) (cell (dim (job_m j)) (dim (job_n j)) b r c) =
    gemm_ref add mul zero A B (dim (job_m j)) (dim (job_n j)) (dim (job_k j)) b r c"
proof (cases "impl opts = ''cublas''")
  case True
  with assms(3) have "sgemm_documented add mul zero sgemm" "\<And>x. mul one x = x" "\<And>x y. mul x y = mul y x"
    unfolding cublas_ok_def by blast+
  note v = cublas_value [OF this assms(4-6)]
  show ?thesis using True by (simp add: job_gemm_def Let_def v)
next
  case False
  have ok: "dims_ok (dim (job_m j)) (dim (job_n j)) (dim (job_k j)) (dim (job_batch j))"
    "grid_ok 32 (dim (job_m j)) (dim (job_n j)) (dim (job_batch j))"
    using assms(1) by (simp_all add: job_ok_def)
  from launch_result(1) [OF tiled_writes [OF ok, of add mul zero, OF assms(2)] assms(4-6)] False
  show ?thesis by (simp add: job_gemm_def Let_def)
qed

text \<open>What the host finds after the wait, in every schedule.\<close>

lemma device_product:
  assumes "schedule (batch_cmds (length batch)) (us @ vs)" "i < length batch" "length batch * 10 + i \<in> set us"
    and "job_ok (batch ! i)" "\<And>x. add x (mul zero zero) = x"
    and "impl opts = ''cublas'' \<Longrightarrow> cublas_ok add mul zero one sgemm"
  shows "result_vector (batch ! i) (snd (hc (run_schedule (job_gemm add mul zero one sgemm opts junk)
      (\<lambda>i. input_a seed rnd (old_a i) (batch ! i)) (\<lambda>i. input_b seed rnd (old_b i) (batch ! i))
      (batch_cmds (length batch)) us m) i)) = job_product add mul zero seed rnd (batch ! i)"
proof -
  let ?j = "batch ! i"
  obtain a b where ab: "fill_matrices seed rnd ?j = (a, b)" by fastforce
  note len = length_fill [of seed rnd ?j, unfolded ab job_sizes [OF assms(4)], simplified]
  have "snd (job_gemm add mul zero one sgemm opts junk (input_a seed rnd (old_a i) ?j) (input_b seed rnd (old_b i) ?j)) (int c) =
      gemm_ref add mul zero (\<lambda>p. a ! nat p) (\<lambda>p. b ! nat p) (dim (job_m ?j)) (dim (job_n ?j)) (dim (job_k ?j))
        (c div (dim (job_m ?j) * dim (job_n ?j))) (c mod (dim (job_m ?j) * dim (job_n ?j)) div dim (job_n ?j))
        (c mod (dim (job_m ?j) * dim (job_n ?j)) mod dim (job_n ?j))"
    if "c < dim (job_m ?j) * dim (job_n ?j) * dim (job_batch ?j)" for c
    unfolding input_a_def input_b_def ab fst_conv snd_conv
    by (subst cell_of_index(4) [OF that], subst job_gemm_value [OF assms(4-6) cell_of_index(1-3) [OF that]])
      (assumption | rule gemm_ref_filled [OF cell_of_index(1-3) [OF that] len])+
  then show ?thesis
    unfolding schedule_result [OF assms(1-3)] result_vector_def job_sizes(3) [OF assms(4)] job_product_def ab
    by (simp add: Let_def)
qed

text \<open>
  The result of a job is the product of its inputs and nothing else: in every batch, at every
  place in it, in every order in which the device may run the commands, and whatever the buffers
  held before, the result vector that the host reads after it has waited for the job is the matrix
  product of the numbers that \<open>fill_matrices\<close> draws for the job, element by element and
  accumulated in increasing \<open>k\<close>.  So it depends on the id and the dimensions of the job only.
\<close>

theorem job_result_is_product:
  assumes "schedule (batch_cmds (length batch)) (us @ vs)" "i < length batch" "length batch * 10 + i \<in> set us"
    and "job_ok (batch ! i)" "\<And>x. add x (mul zero zero) = x"
    and "impl opts = ''cublas'' \<Longrightarrow> cublas_ok add mul zero one sgemm"
  shows "result_vector (batch ! i) (snd (hc (run_schedule (job_gemm add mul zero one sgemm opts junk)
      (\<lambda>i. input_a seed rnd (old_a i) (batch ! i)) (\<lambda>i. input_b seed rnd (old_b i) (batch ! i))
      (batch_cmds (length batch)) us m) i)) = job_product add mul zero seed rnd (batch ! i)"
  using assms by (rule device_product)

text \<open>The same job submitted again gets the same result, with any priority and at any time.\<close>

lemma job_product_again:
  assumes "job_id j' = job_id j" "job_m j' = job_m j" "job_n j' = job_n j" "job_k j' = job_k j" "job_batch j' = job_batch j"
  shows "job_product add mul zero seed rnd j' = job_product add mul zero seed rnd j"
  using assms by (simp add: job_product_def fill_matrices_def elems_a_def elems_b_def)

definition mini_job :: InferenceJob where
  "mini_job = default_job\<lparr>job_m := 1, job_n := 1, job_k := 1\<rparr>"

definition mini_mem :: "(InferenceJob \<times> float32 memory) mem" where
  "mini_mem = (let v = (\<lambda>_. (mini_job, \<lambda>_. 9)) in \<lparr>ha = v, hb_buf = v, hc = v, da = v, db = v, dc = v\<rparr>)"

definition mini_rnd :: "32 word \<Rightarrow> float32 \<times> 32 word" where
  "mini_rnd g = (g + 2, g + 3)"

theorem job_result_is_product_witness:
  "result_vector mini_job (snd (hc (run_schedule (job_gemm (+) (*) 0 1 (column_major_sgemm (+) (*) 0) default_options (\<lambda>_ _. 77))
      (\<lambda>i. input_a (\<lambda>s. s) mini_rnd (\<lambda>_. 9) ([mini_job, mini_job] ! i))
      (\<lambda>i. input_b (\<lambda>s. s) mini_rnd (\<lambda>_. 9) ([mini_job, mini_job] ! i))
      (batch_cmds 2) [0..<22] mini_mem) 1)) = [10]"
proof -
  let ?js = "[mini_job, mini_job]"
  have ok: "job_ok mini_job"
    by (simp add: job_ok_def valid_job_def mini_job_def default_job_def dims_ok_def grid_ok_def grid_accepted_def dim_def)
  have p: "job_product (+) (*) 0 (\<lambda>s. s) mini_rnd mini_job = [10]" by code_simp
  have two: "length ?js = 2" by simp
  have s: "schedule (batch_cmds (length ?js)) ([0..<22] @ [])"
    using schedule_issue_order [of "batch_cmds 2"] length_batch_cmds [of 2] by (simp only: two) simp
  have "result_vector (?js ! 1) (snd (hc (run_schedule (job_gemm (+) (*) 0 1 (column_major_sgemm (+) (*) 0) default_options (\<lambda>_ _. 77))
      (\<lambda>i. input_a (\<lambda>s. s) mini_rnd (\<lambda>_. 9) (?js ! i)) (\<lambda>i. input_b (\<lambda>s. s) mini_rnd (\<lambda>_. 9) (?js ! i))
      (batch_cmds (length ?js)) [0..<22] mini_mem) 1)) = job_product (+) (*) 0 (\<lambda>s. s) mini_rnd (?js ! 1)"
    by (rule job_result_is_product [OF s]) (simp_all add: ok column_major_ok)
  then show ?thesis using p by (simp only: two) simp
qed

end
