(* ===== verification/Results.thy ===== *)
theory Results
  imports Scheduler JobResult
begin

section \<open>The stored results (get_result, execute_batch, the device and the threads together)\<close>

text \<open>
  \<open>Scheduler\<close> leaves open what a worker finds in a result buffer (\<open>result_of\<close> of the
  environment of its step); \<open>JobResult\<close> says what the device leaves there.  Here the two are put
  together: \<open>device_reach\<close> are the runs of the scheduler in which every result buffer comes from a
  run of the pipeline of its batch on the device, in any order the device may choose, and the
  theorem is about what \<open>get_result\<close> answers in any of their states.
\<close>

subsection \<open>What a batch stores\<close>

lemma store_results_origin:
  "store_results f js m q = Some v \<Longrightarrow> m q = Some v \<or> (\<exists>j \<in> set js. seq j = q \<and> v = f j)"
  by (induction js arbitrary: m) (fastforce simp: store_results_def split: if_splits)+

lemma store_results_kept: "m q \<noteq> None \<or> q \<in> seq ` set js \<Longrightarrow> store_results f js m q \<noteq> None"
  by (induction js arbitrary: m) (auto simp: store_results_def)

text \<open>Published, failed or escaped: a run stores the results of a prefix of its batch.\<close>

lemma execute_jobs_stores:
  assumes "batch \<noteq> []" "execute_jobs env opts ctx batch d h s = (r, ctx', st', s')"
  shows "\<exists>k. results s' = (if retain_results opts
      then store_results (result_of env) (take k batch) (results s) else results s)"
  using assms(2)
proof (cases rule: execute_jobs_cases)
  case (escaped x)
  then show ?thesis by (intro exI [of _ 0]) (simp add: store_results_def)
next
  case (body st2 b st3 s3)
  from try_body_result [OF assms(1) body(2,3,4)] body(8) show ?thesis
    by (auto simp: fail_batch_def intro: exI [of _ "length batch"])
qed

subsection \<open>Which jobs a worker may hold\<close>

lemma pool_pending: "pool_reach jobs p \<Longrightarrow> set_mset (pending p) \<subseteq> set jobs"
proof (induction rule: pool_reach.induct)
  case (pool_next jobs p js p')
  from pool_next(2,3) show ?case by (cases rule: pool_step.cases) auto
qed simp

lemma reach_in_flight: "reach opts cap jobs s \<Longrightarrow> set_mset (in_flight s) \<subseteq> set jobs"
  using pool_pending [OF reach_pool] by (simp add: abs_pool_def)

lemma executing_in_flight:
  assumes "i < length (workers s)" "w_pc (workers s ! i) = W_exec b"
  shows "set b \<subseteq> set_mset (in_flight s)"
proof -
  have "wsum held_by_worker (set_worker i W_wait s) + mset b = wsum held_by_worker s"
    using wsum_set_worker [OF assms refl, of held_by_worker W_wait] by simp
  then have "set_mset (mset b) \<subseteq> set_mset (wsum held_by_worker s)"
    by (metis set_mset_union Un_upper2)
  then show ?thesis by (auto simp: in_flight_def)
qed

subsection \<open>Runs on a device\<close>

text \<open>\<open>device batch env\<close> says which environments a worker may meet while it runs \<open>batch\<close>.\<close>

definition obeys :: "(InferenceJob list \<Rightarrow> env \<Rightarrow> bool) \<Rightarrow> action \<Rightarrow> system \<Rightarrow> bool" where
  "obeys device a s =
     (case a of
        Work i env d h \<Rightarrow> (case w_pc (workers s ! i) of W_exec batch \<Rightarrow> device batch env | _ \<Rightarrow> True)
      | _ \<Rightarrow> True)"

inductive device_reach ::
    "(InferenceJob list \<Rightarrow> env \<Rightarrow> bool) \<Rightarrow> Options \<Rightarrow> nat \<Rightarrow> InferenceJob list \<Rightarrow> system \<Rightarrow> bool"
  for device opts cap where
  dev_init: "device_reach device opts cap [] new_system"
| dev_step: "device_reach device opts cap jobs s \<Longrightarrow> budget_within opts cap a \<Longrightarrow> obeys device a s \<Longrightarrow>
    perform opts a s = Some s' \<Longrightarrow> device_reach device opts cap (jobs @ submitted_by a s) s'"

lemma device_reach_reach: "device_reach device opts cap jobs s \<Longrightarrow> reach opts cap jobs s"
  by (induction rule: device_reach.induct) (auto intro: reach.intros)

text \<open>A stored value belongs to a submitted job, and is its value where the device is known to
  compute it; a job that is reported as done has its value stored.\<close>

definition results_inv :: "(InferenceJob \<Rightarrow> bool) \<Rightarrow> (InferenceJob \<Rightarrow> float32 list) \<Rightarrow> Options
    \<Rightarrow> InferenceJob list \<Rightarrow> system \<Rightarrow> bool" where
  "results_inv good f opts jobs s \<longleftrightarrow>
     (\<forall>q v. results s q = Some v \<longrightarrow> (\<exists>j \<in> set jobs. seq j = q \<and> (good j \<longrightarrow> v = f j))) \<and>
     (\<forall>m \<in> set (metrics s). ok m \<longrightarrow> retain_results opts \<longrightarrow> results s (m_seq m) \<noteq> None) \<and>
     (\<not> retain_results opts \<longrightarrow> results s = Map.empty)"

lemma results_inv_frame:
  assumes "results_inv good f opts jobs s" "results s' = results s" "metrics s' = metrics s @ ms"
    "\<And>m. m \<in> set ms \<Longrightarrow> \<not> ok m"
  shows "results_inv good f opts (jobs @ js) s'"
  using assms by (fastforce simp: results_inv_def)

lemma results_inv_same:
  assumes "results_inv good f opts jobs s" "results s' = results s" "metrics s' = metrics s"
  shows "results_inv good f opts jobs s'" "results_inv good f opts (jobs @ js) s'"
  using results_inv_frame [OF assms(1,2), of "[]"] assms(3) by (force simp: results_inv_def)+

lemma reports_seqs: "m \<in> set (reports env batch) \<Longrightarrow> m_seq m \<in> seq ` set batch"
  by (auto simp: reports_def done_metrics_def in_set_enumerate_eq)

lemma results_inv_stored:
  assumes inv: "results_inv good f opts jobs s" and sub: "set batch \<subseteq> set jobs"
    and f: "\<And>j. j \<in> set batch \<Longrightarrow> good j \<Longrightarrow> result_of env j = f j"
    and res: "results s' = (if retain_results opts then store_results (result_of env) (take k batch) (results s) else results s)"
    and met: "metrics s' = metrics s @ ms" "\<And>m. m \<in> set ms \<Longrightarrow> ok m \<Longrightarrow> m_seq m \<in> seq ` set (take k batch)"
  shows "results_inv good f opts (jobs @ js) s'"
proof -
  have "\<exists>j \<in> set (jobs @ js). seq j = q \<and> (good j \<longrightarrow> v = f j)" if v: "results s' q = Some v" for q v
  proof -
    from v res store_results_origin [of "result_of env" "take k batch" "results s" q v]
    consider "results s q = Some v" | j where "j \<in> set (take k batch)" "seq j = q" "v = result_of env j"
      by (auto split: if_splits)
    then show ?thesis
    proof cases
      case 1
      with inv show ?thesis by (fastforce simp: results_inv_def)
    next
      case 2
      then have "j \<in> set batch" by (meson in_set_takeD)
      with 2 sub f show ?thesis by force
    qed
  qed
  moreover have "results s' (m_seq m) \<noteq> None" if "m \<in> set (metrics s')" "ok m" "retain_results opts" for m
    using that inv res met store_results_kept [of "results s" "m_seq m" "take k batch" "result_of env"]
    by (auto simp: results_inv_def)
  moreover have "\<not> retain_results opts \<longrightarrow> results s' = Map.empty" using inv res by (simp add: results_inv_def)
  ultimately show ?thesis unfolding results_inv_def by blast
qed

lemma results_inv_step:
  assumes inv: "results_inv good f opts jobs s" and r: "reach opts cap jobs s"
    and f: "\<And>batch env j. device batch env \<Longrightarrow> j \<in> set batch \<Longrightarrow> good j \<Longrightarrow> result_of env j = f j"
    and o: "obeys device a s" and p: "perform opts a s = Some s'"
  shows "results_inv good f opts (jobs @ submitted_by a s) s'"
  using p
proof (cases rule: perform_elim)
  case (absent now stats js)
  then show ?thesis
    by (intro results_inv_frame [OF inv, of s' "map fail_metrics js"]) (auto simp: fail_batch_def fail_metrics_def)
next
  case (filter_c now stats js over rest)
  then show ?thesis
    by (intro results_inv_frame [OF inv, of s' "map fail_metrics over"]) (auto simp: fail_batch_def fail_metrics_def)
next
  case (w_absent i env d h b)
  then show ?thesis
    by (intro results_inv_frame [OF inv, of s' "map fail_metrics b"]) (auto simp: fail_batch_def fail_metrics_def set_worker_def)
next
  case (w_run i env d h b r ctx' st s1)
  have b: "b \<noteq> []" using worker_at [OF reach_batches_wf [OF r] w_run(2)] w_run(3) by simp
  have sub: "set b \<subseteq> set jobs"
    using executing_in_flight [OF w_run(2,3)] reach_in_flight [OF r] by blast
  have val: "\<And>j. j \<in> set b \<Longrightarrow> good j \<Longrightarrow> result_of env j = f j"
    using f o w_run(1,3) by (simp add: obeys_def)
  note e = execute_jobs_result [OF b w_run(5)]
  have s': "results s' = results s1" "metrics s' = metrics s1"
    by (simp_all add: w_run(6) after_run_def set_worker_def)
  show ?thesis
  proof (cases r)
    case (Published n)
    show ?thesis
      by (rule results_inv_stored [OF inv sub val, of s' "length b" "reports env b"])
        (use e Published s' in \<open>auto dest: reports_seqs\<close>)
  next
    case (Failed x)
    obtain k where "results s1 = (if retain_results opts
        then store_results (result_of env) (take k b) (results s) else results s)"
      using execute_jobs_stores [OF b w_run(5)] by blast
    with e Failed s' show ?thesis
      by (intro results_inv_stored [OF inv sub val, of s' k "map fail_metrics b"]) (auto simp: fail_metrics_def)
  next
    case (Escaped x)
    with e s' show ?thesis by (intro results_inv_frame [OF inv, of s' "[]"]) auto
  qed
qed (use inv in \<open>auto intro: results_inv_same simp: submit_push_def Let_def submit_count_def start_def
    requeue_def reserve_batch_def reserve_bytes_def publish_batch_def set_worker_def count_completed_def
    release_bytes_def split: if_splits\<close>)

lemma device_results:
  assumes "device_reach device opts cap jobs s"
    "\<And>batch env j. device batch env \<Longrightarrow> j \<in> set batch \<Longrightarrow> good j \<Longrightarrow> result_of env j = f j"
  shows "results_inv good f opts jobs s"
  using assms(1)
proof (induction rule: device_reach.induct)
  case dev_init
  show ?case by (simp add: results_inv_def new_system_def new_sched_def sched.extend_def system.fields_def)
next
  case (dev_step jobs s a s')
  from results_inv_step [OF dev_step.IH device_reach_reach [OF dev_step(1)] assms(2) dev_step(3,4)] show ?case .
qed

subsection \<open>The device\<close>

text \<open>The result buffers of a batch come from a run of its commands on the device: in some order that
  streams and events allow, up to a point after the wait for the job, with anything in the buffers
  before.\<close>

definition device_run :: "(float32 \<Rightarrow> float32 \<Rightarrow> float32) \<Rightarrow> (float32 \<Rightarrow> float32 \<Rightarrow> float32) \<Rightarrow> float32
    \<Rightarrow> float32 \<Rightarrow> float32 sgemm
    \<Rightarrow> (32 word \<Rightarrow> 'g) \<Rightarrow> ('g \<Rightarrow> float32 \<times> 'g) \<Rightarrow> Options \<Rightarrow> InferenceJob list \<Rightarrow> env \<Rightarrow> bool" where
  "device_run add mul zero one sgemm seed rnd opts batch env \<longleftrightarrow>
     (\<forall>i < length batch. \<exists>us vs m old_a old_b junk.
        schedule (batch_cmds (length batch)) (us @ vs) \<and> length batch * 10 + i \<in> set us \<and>
        result_of env (batch ! i) = result_vector (batch ! i) (snd (hc (run_schedule (job_gemm add mul zero one sgemm opts junk)
          (\<lambda>i. input_a seed rnd (old_a i) (batch ! i)) (\<lambda>i. input_b seed rnd (old_b i) (batch ! i))
          (batch_cmds (length batch)) us m) i)))"

lemma device_run_product:
  assumes "device_run add mul zero one sgemm seed rnd opts batch env" "j \<in> set batch" "job_ok j"
    and "\<And>x. add x (mul zero zero) = x"
    and "impl opts = ''cublas'' \<Longrightarrow> cublas_ok add mul zero one sgemm"
  shows "result_of env j = job_product add mul zero seed rnd j"
proof -
  obtain i where i: "i < length batch" "j = batch ! i" using assms(2) by (auto simp: in_set_conv_nth)
  from assms(1) i(1) obtain us vs m old_a old_b junk where
    s: "schedule (batch_cmds (length batch)) (us @ vs)" "length batch * 10 + i \<in> set us" and
    v: "result_of env (batch ! i) = result_vector (batch ! i) (snd (hc (run_schedule (job_gemm add mul zero one sgemm opts junk)
          (\<lambda>i. input_a seed rnd (old_a i) (batch ! i)) (\<lambda>i. input_b seed rnd (old_b i) (batch ! i))
          (batch_cmds (length batch)) us m) i))"
    unfolding device_run_def by blast
  show ?thesis
    unfolding i(2) v by (rule device_product [OF s(1) i(1) s(2)]) (use assms(3-5) i(2) in auto)
qed

text \<open>
  C6.  The result that a caller gets is the result of its job.  In every state that the scheduler
  can reach, under every interleaving of its threads with the callers and with every order in which
  the device may run the commands of a batch, with the tiled kernel or with \<open>gemm_cublas_batched\<close> on a
  cuBLAS that does what its manual says (\<open>cublas_ok\<close>): what \<open>get_result\<close> returns for the sequence number
  of a job within the limits of the kernels is the product of the inputs that \<open>fill_matrices\<close> draws
  for that job, accumulated in increasing \<open>k\<close>, never another job's; when results are retained, it is
  there for every job reported as done; and a number that no job has, or a scheduler that does not
  retain, has no result.
\<close>

theorem get_result_is_product:
  assumes "device_reach (device_run add mul zero one sgemm seed rnd opts) opts cap jobs s" "length jobs \<le> 2 ^ 64"
    and "\<And>x. add x (mul zero zero) = x"
    and "impl opts = ''cublas'' \<Longrightarrow> cublas_ok add mul zero one sgemm"
  shows "(\<forall>j \<in> set jobs. job_ok j \<longrightarrow> (\<forall>v. get_result s (seq j) = Some v \<longrightarrow> v = job_product add mul zero seed rnd j)) \<and>
    (\<forall>j \<in> set jobs. job_ok j \<and> retain_results opts \<and> (\<exists>m \<in> set (metrics s). m_seq m = seq j \<and> ok m) \<longrightarrow>
       get_result s (seq j) = Some (job_product add mul zero seed rnd j)) \<and>
    (\<forall>q. q \<notin> seq ` set jobs \<or> \<not> retain_results opts \<longrightarrow> get_result s q = None)"
proof -
  have inv: "results_inv job_ok (job_product add mul zero seed rnd) opts jobs s"
    by (rule device_results [OF assms(1)]) (rule device_run_product [OF _ _ _ assms(3,4)])
  have d: "distinct (map seq jobs)"
    by (rule reach_seqs_distinct [OF device_reach_reach [OF assms(1)] assms(2)])
  have val: "v = job_product add mul zero seed rnd j" if "j \<in> set jobs" "job_ok j" "results s (seq j) = Some v" for j v
  proof -
    from inv that(3) obtain j' where j': "j' \<in> set jobs" "seq j' = seq j" "job_ok j' \<longrightarrow> v = job_product add mul zero seed rnd j'"
      unfolding results_inv_def by blast
    then have "j' = j" using d that(1) by (auto simp: distinct_map dest: inj_onD)
    with j'(3) that(2) show ?thesis by simp
  qed
  have "results s (seq j) = Some (job_product add mul zero seed rnd j)"
    if "j \<in> set jobs" "job_ok j" "retain_results opts" "m \<in> set (metrics s)" "m_seq m = seq j" "ok m" for j m
    using inv that val [OF that(1,2)] unfolding results_inv_def by fastforce
  moreover have "results s q = None" if "q \<notin> seq ` set jobs \<or> \<not> retain_results opts" for q
    using inv that unfolding results_inv_def by fastforce
  ultimately show ?thesis using val unfolding get_result_def by blast
qed

subsection \<open>A concrete run\<close>

lemma device_reach_all:
  "device_reach device opts cap jobs s \<Longrightarrow> list_all (budget_within opts cap) as \<Longrightarrow> \<forall>a \<in> set as. \<forall>s. obeys device a s \<Longrightarrow>
   perform_all opts as s = Some s' \<Longrightarrow> device_reach device opts cap (jobs @ log_of opts as s) s'"
proof (induction as arbitrary: jobs s)
  case (Cons a as)
  from Cons.prems(4) obtain s1 where s1: "perform opts a s = Some s1" "perform_all opts as s1 = Some s'"
    by (auto split: option.splits)
  have "device_reach device opts cap (jobs @ submitted_by a s) s1"
    by (rule dev_step [OF Cons.prems(1) _ _ s1(1)]) (use Cons.prems in auto)
  from Cons.IH [OF this _ _ s1(2)] Cons.prems s1(1) show ?case by simp
qed simp

text \<open>The device that runs the commands of every batch in the order in which they are issued.\<close>

definition answering :: "(InferenceJob \<Rightarrow> float32 list) \<Rightarrow> env" where
  "answering f = (sample_env None)\<lparr>result_of := f\<rparr>"

definition issue_order_env :: "Options \<Rightarrow> env" where
  "issue_order_env opts = answering (\<lambda>j. result_vector j (snd
     (job_gemm (+) (*) 0 1 (column_major_sgemm (+) (*) 0) opts (\<lambda>_ _. 77) (input_a (\<lambda>g. g) mini_rnd (\<lambda>_. 9) j)
       (input_b (\<lambda>g. g) mini_rnd (\<lambda>_. 9) j))))"

lemma issue_order_runs:
  "device_run (+) (*) 0 1 (column_major_sgemm (+) (*) 0) (\<lambda>g. g) mini_rnd opts batch (issue_order_env opts)"
  unfolding device_run_def
proof (intro allI impI)
  fix i assume i: "i < length batch"
  let ?n = "length batch" and ?junk = "\<lambda>_ _. 77 :: float32" and ?old = "\<lambda>_ _. 9 :: float32"
  have s: "schedule (batch_cmds ?n) ([0..<length (batch_cmds ?n)] @ [])"
    using schedule_issue_order [of "batch_cmds ?n"] by simp
  have "0 < ?n" using i by (cases batch) simp_all
  then have n: "?n * 10 + i \<in> set [0..<length (batch_cmds ?n)]" using i length_batch_cmds [of ?n] by simp
  note r = schedule_result [OF s i n, of "job_gemm (+) (*) 0 1 (column_major_sgemm (+) (*) 0) opts ?junk"
      "\<lambda>i. input_a (\<lambda>g. g) mini_rnd (?old i) (batch ! i)" "\<lambda>i. input_b (\<lambda>g. g) mini_rnd (?old i) (batch ! i)" mini_mem]
  show "\<exists>us vs m old_a old_b junk. schedule (batch_cmds ?n) (us @ vs) \<and> ?n * 10 + i \<in> set us \<and>
      result_of (issue_order_env opts) (batch ! i) = result_vector (batch ! i) (snd (hc (run_schedule
          (job_gemm (+) (*) 0 1 (column_major_sgemm (+) (*) 0) opts junk)
          (\<lambda>i. input_a (\<lambda>g. g) mini_rnd (old_a i) (batch ! i)) (\<lambda>i. input_b (\<lambda>g. g) mini_rnd (old_b i) (batch ! i))
          (batch_cmds ?n) us m) i))"
    by (rule exI [of _ "[0..<length (batch_cmds ?n)]"], rule exI [of _ "[]"], rule exI [of _ mini_mem],
        rule exI [of _ ?old], rule exI [of _ ?old], rule exI [of _ ?junk])
      (use s n in \<open>simp add: r issue_order_env_def answering_def\<close>)
qed

definition retain_opts :: Options where
  "retain_opts = run_opts\<lparr>retain_results := True, impl := ''cublas''\<rparr>"

text \<open>The job is submitted and dispatched, and the worker has taken its batch.\<close>

definition retain_run :: "env \<Rightarrow> action list" where
  "retain_run env = [Start 1 run_stats None, SubmitPush 5 small_job, SubmitCount] @ replicate 7 dispatch @
     [Work 0 env sample_heap sample_heap]"

definition taken :: "env \<Rightarrow> system" where
  "taken env = the (perform_all retain_opts (retain_run env) new_system)"

lemma retain_run_ends:
  "case perform_all retain_opts (retain_run env) new_system of
     None \<Rightarrow> False
   | Some s \<Rightarrow> map w_pc (workers s) = [W_exec [stamp 5 0 small_job]] \<and> metrics s = [] \<and> \<not> gpu_absent s \<and> \<not> aborted s"
  by code_simp

lemma retain_run_log: "log_of retain_opts (retain_run env) new_system = [stamp 5 0 small_job]"
  by code_simp

lemma taken_facts:
  "perform_all retain_opts (retain_run env) new_system = Some (taken env)"
  "length (workers (taken env)) = 1" "w_pc (workers (taken env) ! 0) = W_exec [stamp 5 0 small_job]"
  "metrics (taken env) = []" "\<not> gpu_absent (taken env)" "\<not> aborted (taken env)"
  using retain_run_ends [of env] by (auto simp: taken_def map_eq_Cons_conv split: option.splits)

lemma budgets_retain: "budget_within retain_opts 1000 a"
  by (simp add: budget_within_def budget_base_def retain_opts_def run_opts_def default_options_def split: action.split)

lemma taken_reach:
  assumes "\<And>batch. device batch env"
  shows "device_reach device retain_opts 1000 [stamp 5 0 small_job] (taken env)"
proof -
  have "\<forall>a \<in> set (retain_run env). \<forall>s. obeys device a s"
    using assms by (auto simp: retain_run_def obeys_def split: worker_pc.split)
  from device_reach_all [OF dev_init _ this taken_facts(1), of 1000] show ?thesis
    by (simp add: retain_run_log list_all_iff budgets_retain)
qed

text \<open>The worker runs the batch.\<close>

lemma taken_served:
  assumes "serves env 3 grow_alloc"
  obtains s m where "perform retain_opts (Work 0 env sample_heap sample_heap) (taken env) = Some s"
    "metrics s = [m]" "m_seq m = 0" "ok m"
proof -
  let ?b = "[stamp 5 0 small_job]"
  obtain r c st s1 where e: "execute_jobs env retain_opts (w_ctx (workers (taken env) ! 0)) ?b sample_heap sample_heap (taken env) = (r, c, st, s1)"
    by (metis prod_cases4)
  have el: "elems_a (hd ?b) \<noteq> 0" by code_simp
  have r: "r = Published 1" using execute_jobs_serves [OF assms _ el sample_facts(4) e] by simp
  have m: "metrics s1 = reports env ?b" using execute_jobs_result [OF _ e] r taken_facts(4) by simp
  have "perform retain_opts (Work 0 env sample_heap sample_heap) (taken env) = Some (after_run 0 ?b r c s1)"
    using taken_facts e r by (simp add: perform_def worker_step_def run_batch_def after_run_def Let_def)
  then show thesis
    by (rule that [of _ "hd (reports env ?b)"]) (simp_all add: m reports_def done_metrics_def stamp_def)
qed

lemma issue_order_serves: "serves (issue_order_env opts) 3 grow_alloc"
  by (simp add: serves_def issue_order_env_def answering_def sample_env_def grow_alloc_ok no_errors_def)

theorem get_result_is_product_witness:
  "\<exists>s. device_reach (device_run (+) (*) 0 1 (column_major_sgemm (+) (*) 0) (\<lambda>g. g) mini_rnd retain_opts) retain_opts 1000
      [stamp 5 0 small_job] s \<and>
    get_result s 0 = Some (job_product (+) (*) 0 (\<lambda>g. g) mini_rnd (stamp 5 0 small_job))"
proof -
  let ?dev = "device_run (+) (*) 0 1 (column_major_sgemm (+) (*) 0) (\<lambda>g. g) mini_rnd retain_opts" and ?env = "issue_order_env retain_opts"
  obtain s m where s: "perform retain_opts (Work 0 ?env sample_heap sample_heap) (taken ?env) = Some s"
    "metrics s = [m]" "m_seq m = 0" "ok m"
    using taken_served [OF issue_order_serves] by metis
  have "obeys ?dev (Work 0 ?env sample_heap sample_heap) (taken ?env)"
    by (simp add: obeys_def issue_order_runs split: worker_pc.split)
  from dev_step [OF taken_reach [of ?dev, OF issue_order_runs] budgets_retain this s(1)]
  have r: "device_reach ?dev retain_opts 1000 [stamp 5 0 small_job] s" by simp
  have ok: "job_ok (stamp 5 0 small_job)"
    by (simp add: job_ok_def valid_job_def small_job_def stamp_def default_job_def dims_ok_def grid_ok_def
        grid_accepted_def dim_def)
  have opts: "retain_results retain_opts" by (simp add: retain_opts_def)
  have few: "length [stamp 5 0 small_job] \<le> 2 ^ 64" by simp
  have add0: "x + 0 * 0 = x" for x :: float32 by simp
  have "\<exists>m \<in> set (metrics s). m_seq m = seq (stamp 5 0 small_job) \<and> ok m" using s(2-4) by (simp add: stamp_def)
  with get_result_is_product [OF r few add0 column_major_ok] ok opts
  have "get_result s (seq (stamp 5 0 small_job)) = Some (job_product (+) (*) 0 (\<lambda>g. g) mini_rnd (stamp 5 0 small_job))"
    by (metis list.set_intros(1))
  then have "get_result s 0 = Some (job_product (+) (*) 0 (\<lambda>g. g) mini_rnd (stamp 5 0 small_job))"
    by (simp add: stamp_def)
  with r show ?thesis by blast
qed

end
