(* ===== verification/Bindings.thy ===== *)
theory Bindings
  imports Stats Gemm
begin

section \<open>The Python module (src/src/bindings/py_module.cpp)\<close>

text \<open>
  The process-global scheduler of the module \<open>gpuinfer\<close>, the functions that Python calls, and
  \<open>batched_gemm\<close> over the kernel model.  \<open>py_reach\<close> holds of the states that the calls and the
  threads of the scheduler reach, \<open>jobs\<close> being what was submitted to the current instance.
  A call of \<open>stop\<close> is two steps, between which \<open>g_mutex\<close> is held and \<open>submit_job\<close> may run; the
  other calls are one step each.  So \<open>py_reach\<close> is about calls that take effect one at a time:
  \<open>submit_job\<close> runs without \<open>g_mutex\<close> and without the GIL, and when there is no scheduler yet, or
  one is being replaced, it can overlap with other calls; these runs are in \<open>ModuleRace\<close>.
\<close>

datatype py_error = ValueError string | RuntimeError nat

record gpuinfer =
  g_sched :: "(Options \<times> system) option"
  g_opts :: Options
  g_running :: bool
  g_stopping :: bool \<comment> \<open>\<open>g_mutex\<close> is held by a call of \<open>stop\<close>\<close>

definition module_init :: gpuinfer where
  "module_init = \<lparr>g_sched = None, g_opts = default_options, g_running = False, g_stopping = False\<rparr>"

text \<open>What the GPU answers when a scheduler starts: devices, telemetry, memory.\<close>

type_synonym device = "nat \<times> GpuStats \<times> (size_t \<times> size_t) option"

text \<open>\<open>make_unique<BatchScheduler>(g_opts)\<close> and \<open>start\<close>.\<close>

definition create_scheduler :: "device \<Rightarrow> gpuinfer \<Rightarrow> gpuinfer" where
  "create_scheduler gpu g =
     (case gpu of (ndev, stats, mem_info) \<Rightarrow>
      case start (g_opts g) ndev stats mem_info new_system of
        None \<Rightarrow> g\<lparr>g_sched := Some (g_opts g, new_system)\<rparr>
      | Some s \<Rightarrow> g\<lparr>g_sched := Some (g_opts g, s), g_running := True\<rparr>)"

definition ensure_scheduler :: "device \<Rightarrow> gpuinfer \<Rightarrow> gpuinfer" where
  "ensure_scheduler gpu g = (if g_sched g = None then create_scheduler gpu g else g)"

definition start_scheduler :: "i32 \<Rightarrow> i32 \<Rightarrow> string \<Rightarrow> device \<Rightarrow> gpuinfer \<Rightarrow> py_error + gpuinfer" where
  "start_scheduler max_batch nworkers impl_name gpu g =
     (if impl_name \<noteq> ''tiled'' \<and> impl_name \<noteq> ''cublas''
        then Inl (ValueError (''impl must be 'tiled' or 'cublas'' @ [CHR 0x27]))
      else if sint max_batch \<le> 0 then Inl (ValueError ''max_batch must be positive'')
      else if sint nworkers \<le> 0 then Inl (ValueError ''workers must be positive'')
      else let g' = g\<lparr>g_opts := (g_opts g)\<lparr>opt_max_batch := max_batch, num_workers := nworkers, impl := impl_name\<rparr>\<rparr>
           in if g_running g' then Inr g' else Inr (create_scheduler gpu (g'\<lparr>g_sched := None\<rparr>)))"

text \<open>\<open>stop_scheduler\<close>: to the flag of \<open>BatchScheduler::stop\<close>, and from its joins on.\<close>

definition stop_scheduler_begin :: "gpuinfer \<Rightarrow> gpuinfer" where
  "stop_scheduler_begin g =
     (if \<not> g_running g then g
      else case g_sched g of None \<Rightarrow> g
        | Some (opts, s) \<Rightarrow>
            (case stop_flag s of None \<Rightarrow> g\<lparr>g_running := False\<rparr>
             | Some s' \<Rightarrow> g\<lparr>g_sched := Some (opts, s'), g_stopping := True\<rparr>))"

definition stop_scheduler_end :: "gpuinfer \<Rightarrow> gpuinfer option" where
  "stop_scheduler_end g =
     (case g_sched g of None \<Rightarrow> None
      | Some (opts, s) \<Rightarrow> map_option
          (\<lambda>s'. g\<lparr>g_sched := Some (opts, s'), g_running := False, g_stopping := False\<rparr>) (stop_join s))"

definition py_job :: "i32 \<Rightarrow> i32 \<Rightarrow> i32 \<Rightarrow> i32 \<Rightarrow> i32 \<Rightarrow> py_error + InferenceJob" where
  "py_job m_dim n_dim k_dim batch prio =
     (if sint m_dim \<le> 0 \<or> sint n_dim \<le> 0 \<or> sint k_dim \<le> 0
        then Inl (ValueError ''m, n and k must be positive'')
      else if sint batch \<le> 0 then Inl (ValueError ''batch must be positive'')
      else Inr (default_job\<lparr>job_m := m_dim, job_n := n_dim, job_k := k_dim, job_batch := batch, priority := prio\<rparr>))"

text \<open>\<open>submit_job\<close> up to the counter of \<open>BatchScheduler::submit\<close>; its result is the sequence
  number.\<close>

definition submit_job :: "device \<Rightarrow> time_point \<Rightarrow> InferenceJob \<Rightarrow> gpuinfer \<Rightarrow> gpuinfer \<times> u64" where
  "submit_job gpu now job g =
     (let g1 = ensure_scheduler gpu g
      in case g_sched g1 of None \<Rightarrow> (g1, 0)
         | Some (opts, s) \<Rightarrow>
             (case submit_push now job s of (s', q) \<Rightarrow>
                (g1\<lparr>g_sched := Some (opts, s'\<lparr>counting := Suc (counting s')\<rparr>)\<rparr>, q)))"

record py_stats =
  st_running :: bool
  st_submitted :: u64
  st_completed :: u64
  st_queued :: size_t
  st_failed :: u64
  st_p50 :: rat
  st_p95 :: rat
  st_p99 :: rat
  st_throughput :: rat
  st_wall :: rat
  st_utilization :: rat

definition scheduler_stats :: "GpuMonitor \<Rightarrow> rat \<Rightarrow> gpuinfer \<Rightarrow> py_stats" where
  "scheduler_stats mon wall g =
     (case g_sched g of
        None \<Rightarrow> \<lparr>st_running = g_running g, st_submitted = 0, st_completed = 0, st_queued = 0, st_failed = 0,
                 st_p50 = 0, st_p95 = 0, st_p99 = 0, st_throughput = 0, st_wall = 0, st_utilization = 0\<rparr>
      | Some (_, s) \<Rightarrow>
          (let (e2e, failed) = split_metrics (metrics s)
           in \<lparr>st_running = g_running g, st_submitted = submitted s, st_completed = completed s,
               st_queued = queued s, st_failed = failed, st_p50 = percentile e2e 50,
               st_p95 = percentile e2e 95, st_p99 = percentile e2e 99,
               st_throughput = (if wall > 0 then of_nat (unat (completed s)) / wall else 0),
               st_wall = wall, st_utilization = mean_utilization mon\<rparr>))"

text \<open>The constructor of \<open>Scheduler\<close>; its \<open>start\<close> is \<open>start_scheduler\<close> on the handle.\<close>

record SchedulerHandle =
  h_max_batch :: i32
  h_workers :: i32
  h_impl :: string

definition make_handle :: "i32 \<Rightarrow> i32 \<Rightarrow> string \<Rightarrow> py_error + SchedulerHandle" where
  "make_handle max_batch nworkers impl_name =
     (if impl_name \<noteq> ''tiled'' \<and> impl_name \<noteq> ''cublas''
        then Inl (ValueError (''impl must be 'tiled' or 'cublas'' @ [CHR 0x27]))
      else if sint max_batch \<le> 0 then Inl (ValueError ''max_batch must be positive'')
      else if sint nworkers \<le> 0 then Inl (ValueError ''workers must be positive'')
      else Inr \<lparr>h_max_batch = max_batch, h_workers = nworkers, h_impl = impl_name\<rparr>)"

definition handle_start :: "SchedulerHandle \<Rightarrow> device \<Rightarrow> gpuinfer \<Rightarrow> py_error + gpuinfer" where
  "handle_start h gpu g = start_scheduler (h_max_batch h) (h_workers h) (h_impl h) gpu g"

subsection \<open>Calls and threads\<close>

fun thread_action :: "action \<Rightarrow> bool" where
  "thread_action (Dispatch now stats) = True"
| "thread_action (Work i env d h) = True"
| "thread_action SubmitCount = True"
| "thread_action _ = False"

definition alive :: "gpuinfer \<Rightarrow> bool" where
  "alive g = (case g_sched g of None \<Rightarrow> True | Some (_, s) \<Rightarrow> \<not> aborted s)"

inductive py_reach :: "nat \<Rightarrow> InferenceJob list \<Rightarrow> gpuinfer \<Rightarrow> bool" for cap where
  py_init: "py_reach cap [] module_init"
| py_start: "py_reach cap jobs g \<Longrightarrow> alive g \<Longrightarrow> \<not> g_stopping g \<Longrightarrow> start_scheduler mb w name gpu g = Inr g' \<Longrightarrow>
    py_reach cap (if g_running g then jobs else []) g'"
| py_submit: "py_reach cap jobs g \<Longrightarrow> alive g \<Longrightarrow> py_job m n k b p = Inr job \<Longrightarrow> submit_job gpu now job g = (g', q) \<Longrightarrow>
    py_reach cap (jobs @ [stamp now q job]) g'"
| py_thread: "py_reach cap jobs g \<Longrightarrow> g_sched g = Some (opts, s) \<Longrightarrow> thread_action a \<Longrightarrow> budget_within opts cap a \<Longrightarrow>
    perform opts a s = Some s' \<Longrightarrow> py_reach cap jobs (g\<lparr>g_sched := Some (opts, s')\<rparr>)"
| py_stop_begin: "py_reach cap jobs g \<Longrightarrow> alive g \<Longrightarrow> \<not> g_stopping g \<Longrightarrow> py_reach cap jobs (stop_scheduler_begin g)"
| py_stop_end: "py_reach cap jobs g \<Longrightarrow> alive g \<Longrightarrow> g_stopping g \<Longrightarrow> stop_scheduler_end g = Some g' \<Longrightarrow> py_reach cap jobs g'"

subsection \<open>What holds of the module\<close>

definition opts_ok :: "Options \<Rightarrow> bool" where
  "opts_ok opts \<longleftrightarrow> 0 < sint (num_workers opts) \<and> 0 < sint (opt_max_batch opts) \<and>
     impl opts \<in> {''tiled'', ''cublas''}"

definition module_inv :: "nat \<Rightarrow> InferenceJob list \<Rightarrow> gpuinfer \<Rightarrow> bool" where
  "module_inv cap jobs g \<longleftrightarrow> opts_ok (g_opts g) \<and> list_all valid_job jobs \<and>
     (case g_sched g of
        None \<Rightarrow> jobs = [] \<and> \<not> g_running g \<and> \<not> g_stopping g
      | Some (opts, s) \<Rightarrow> opts_ok opts \<and> reach opts cap jobs s \<and> (g_running g \<longleftrightarrow> started s) \<and>
          (started s \<longrightarrow> (g_stopping g \<longleftrightarrow> shutdown s)) \<and> (g_stopping g \<longrightarrow> started s))"

lemma thread_frame:
  assumes "perform opts a s = Some s'" "reach opts cap jobs s" "thread_action a"
  shows "started s' = started s \<and> shutdown s' = shutdown s \<and> submitted_by a s = []"
  using assms(1)
proof (cases rule: perform_elim)
  case (w_run i env d h b r ctx' st s1)
  have "b \<noteq> []" using worker_at [OF reach_batches_wf [OF assms(2)] w_run(2)] w_run(3) by simp
  note e = execute_jobs_system [OF this w_run(5)]
  then show ?thesis using w_run by (simp add: after_run_def)
qed (use assms(3) in \<open>auto simp: submit_count_def fail_batch_def requeue_def reserve_batch_def reserve_bytes_def
    publish_batch_def count_completed_def release_bytes_def\<close>)

lemma create_scheduler_inv:
  assumes "opts_ok (g_opts g)" "\<not> g_stopping g"
  shows "module_inv cap [] (create_scheduler gpu g)" "g_running (create_scheduler gpu g)"
    "g_sched (create_scheduler gpu g) \<noteq> None"
proof -
  obtain ndev stats mem where gpu: "gpu = (ndev, stats, mem)" by (cases gpu)
  obtain s where s: "start (g_opts g) ndev stats mem new_system = Some s" "started s" "\<not> shutdown s"
    using assms(1) by (simp add: start_def opts_ok_def)
  have "perform (g_opts g) (Start ndev stats mem) new_system = Some s" using s by (simp add: perform_def)
  from reach_step [OF reach_init _ this, of cap] have "reach (g_opts g) cap [] s" by (simp add: budget_within_def)
  with s assms show "module_inv cap [] (create_scheduler gpu g)" "g_running (create_scheduler gpu g)"
    "g_sched (create_scheduler gpu g) \<noteq> None"
    by (simp_all add: create_scheduler_def gpu module_inv_def)
qed

lemma start_scheduler_inv:
  assumes "module_inv cap jobs g" "\<not> g_stopping g" "start_scheduler mb w name gpu g = Inr g'"
  shows "module_inv cap (if g_running g then jobs else []) g'"
proof -
  let ?g = "g\<lparr>g_opts := (g_opts g)\<lparr>opt_max_batch := mb, num_workers := w, impl := name\<rparr>\<rparr>"
  have ok: "opts_ok (g_opts ?g)" using assms(3) by (auto simp: start_scheduler_def opts_ok_def split: if_splits)
  show ?thesis
  proof (cases "g_running g")
    case True
    then have "g' = ?g" using assms(3) by (auto simp: start_scheduler_def Let_def split: if_splits)
    with assms(1) ok True show ?thesis by (auto simp: module_inv_def split: option.splits)
  next
    case False
    then have "g' = create_scheduler gpu (?g\<lparr>g_sched := None\<rparr>)"
      using assms(3) by (auto simp: start_scheduler_def Let_def split: if_splits)
    with create_scheduler_inv(1) [of "?g\<lparr>g_sched := None\<rparr>"] ok assms(2) False show ?thesis by simp
  qed
qed

lemma ensure_scheduler_inv:
  assumes "module_inv cap jobs g"
  shows "module_inv cap jobs (ensure_scheduler gpu g) \<and> g_sched (ensure_scheduler gpu g) \<noteq> None"
proof (cases "g_sched g = None")
  case True
  then have "opts_ok (g_opts g)" "\<not> g_stopping g" "jobs = []" using assms by (simp_all add: module_inv_def)
  with True create_scheduler_inv [of g] show ?thesis by (simp add: ensure_scheduler_def)
qed (use assms in \<open>auto simp: ensure_scheduler_def\<close>)

lemma py_job_valid: "py_job m n k b p = Inr job \<Longrightarrow> valid_job job"
  by (auto simp: py_job_def valid_job_def split: if_splits)

lemma submit_job_inv:
  assumes "module_inv cap jobs g" "valid_job job" "submit_job gpu now job g = (g', q)" "alive g"
  shows "module_inv cap (jobs @ [stamp now q job]) g'"
proof -
  let ?g = "ensure_scheduler gpu g"
  obtain opts s where s: "g_sched ?g = Some (opts, s)" and inv: "module_inv cap jobs ?g"
    using ensure_scheduler_inv [OF assms(1), of gpu] by fastforce
  let ?s = "(fst (submit_push now job s))\<lparr>counting := Suc (counting s)\<rparr>"
  have g': "g' = ?g\<lparr>g_sched := Some (opts, ?s)\<rparr>" and q: "q = next_seq s"
    using assms(3) s by (auto simp: submit_job_def Let_def submit_push_def stamp_def)
  have "\<not> aborted s" using assms(4) s
    by (auto simp: alive_def ensure_scheduler_def create_scheduler_def start_def split: option.splits prod.splits if_splits)
  then have "perform opts (SubmitPush now job) s = Some ?s" by (simp add: perform_def)
  moreover have "reach opts cap jobs s" using inv s by (simp add: module_inv_def)
  ultimately have "reach opts cap (jobs @ [stamp now q job]) ?s"
    using reach_step [of opts cap jobs s "SubmitPush now job" ?s] by (simp add: budget_within_def q)
  with inv s assms(2) show ?thesis
    by (simp add: g' module_inv_def stamp_def valid_job_def submit_push_def Let_def)
qed

lemma py_reach_inv: "py_reach cap jobs g \<Longrightarrow> module_inv cap jobs g"
proof (induction rule: py_reach.induct)
  case py_init
  show ?case by (simp add: module_inv_def module_init_def opts_ok_def default_options_def)
next
  case (py_start jobs g mb w name gpu g')
  then show ?case using start_scheduler_inv by blast
next
  case (py_submit jobs g m n k b p job gpu now g' q)
  then show ?case using submit_job_inv py_job_valid by blast
next
  case (py_thread jobs g opts s a s')
  then have r: "reach opts cap jobs s" by (simp add: module_inv_def)
  note f = thread_frame [OF py_thread(5) r py_thread(3)]
  have "reach opts cap jobs s'" using reach_step [OF r py_thread(4,5)] f by simp
  with py_thread f show ?case by (simp add: module_inv_def)
next
  case (py_stop_begin jobs g)
  show ?case
  proof (cases "g_running g")
    case True
    with py_stop_begin obtain opts s where s: "g_sched g = Some (opts, s)" "started s" "reach opts cap jobs s"
      by (auto simp: module_inv_def split: option.splits)
    have "perform opts StopFlag s = Some (s\<lparr>shutdown := True\<rparr>)"
      using s py_stop_begin(2) by (simp add: perform_def stop_flag_def alive_def)
    from reach_step [OF s(3) _ this] have "reach opts cap jobs (s\<lparr>shutdown := True\<rparr>)" by (simp add: budget_within_def)
    with py_stop_begin s True show ?thesis by (simp add: stop_scheduler_begin_def stop_flag_def module_inv_def)
  qed (use py_stop_begin in \<open>simp add: stop_scheduler_begin_def\<close>)
next
  case (py_stop_end jobs g g')
  then obtain opts s s' where s: "g_sched g = Some (opts, s)" "stop_join s = Some s'" "reach opts cap jobs s"
    and g': "g' = g\<lparr>g_sched := Some (opts, s'), g_running := False, g_stopping := False\<rparr>"
    by (auto simp: stop_scheduler_end_def module_inv_def split: option.splits)
  have "perform opts StopJoin s = Some s'" using s py_stop_end(2) by (simp add: perform_def alive_def)
  from reach_step [OF s(3) _ this] have "reach opts cap jobs s'" by (simp add: budget_within_def)
  with py_stop_end s show ?case by (auto simp: g' module_inv_def stop_join_def split: if_splits)
qed

text \<open>
  C21.  Whatever Python calls in whatever order, as long as the calls take effect one at a time (one
  Python thread, or several whose calls of \<open>submit_job\<close> do not overlap with the making of a
  scheduler; the others are the subject of C22 and C36), between any steps of the scheduler's
  threads: the scheduler behind the module is one that was built with accepted options and is in a reachable state;
  every job that was submitted to it has positive dimensions and is reported at most once, none
  is lost or made up; and \<open>g_running\<close> tells whether its threads run.
\<close>

theorem python_module_invariant:
  assumes "py_reach cap jobs g"
  shows "list_all valid_job jobs \<and> opts_ok (g_opts g) \<and>
    (case g_sched g of
       None \<Rightarrow> jobs = [] \<and> \<not> g_running g
     | Some (opts, s) \<Rightarrow> opts_ok opts \<and> reach opts cap jobs s \<and> (g_running g \<longleftrightarrow> started s) \<and>
         image_mset job_tag (in_flight s) + mset (map m_tag (metrics s)) = mset (map job_tag jobs) \<and>
         (\<not> g_running g \<longrightarrow> all_joined s))"
proof -
  note inv = py_reach_inv [OF assms]
  show ?thesis
  proof (cases "g_sched g")
    case (Some os)
    obtain opts s where os: "os = (opts, s)" by fastforce
    have r: "reach opts cap jobs s" using inv Some os by (simp add: module_inv_def)
    from reach_conserves [OF r] reach_lifecycle [OF r] inv Some os show ?thesis
      by (simp add: module_inv_def lifecycle_def)
  qed (use inv in \<open>simp add: module_inv_def\<close>)
qed

lemma joined_no_thread:
  assumes "all_joined s" "a \<noteq> SubmitCount" "thread_action a"
  shows "perform opts a s = None"
proof (cases a)
  case (Dispatch now stats)
  then show ?thesis using assms(1) by (auto simp: perform_def dispatcher_step_def all_joined_def)
next
  case (Work i env d h)
  then show ?thesis using assms(1) by (auto simp: perform_def worker_step_def dest: all_joined_start)
qed (use assms in auto)

text \<open>
  A job submitted after \<open>stop\<close> is lost: \<open>submit_job\<close> finds the stopped instance, puts
  the job into its queue and returns a sequence number, but no thread of the instance can take a
  step any more, so the job stays queued and unreported; and the next \<open>start\<close> destroys the
  instance with its queue and begins with an empty one.
\<close>

theorem submit_after_stop_lost:
  assumes "py_reach cap jobs g" "alive g" "g_sched g = Some (opts, s)" "\<not> g_running g" "submit_job gpu now job g = (g', q)"
  shows "\<exists>s'. g_sched g' = Some (opts, s') \<and> stamp now q job \<in> set (queue s') \<and> metrics s' = metrics s \<and>
    (\<forall>a. thread_action a \<and> a \<noteq> SubmitCount \<longrightarrow> perform opts a s' = None) \<and>
    (\<forall>mb w name gpu' g''. start_scheduler mb w name gpu' g' = Inr g'' \<longrightarrow>
       (\<exists>opts' s''. g_sched g'' = Some (opts', s'') \<and> in_flight s'' = {#} \<and> metrics s'' = []))"
proof -
  let ?s = "(fst (submit_push now job s))\<lparr>counting := Suc (counting s)\<rparr>"
  have g': "g' = g\<lparr>g_sched := Some (opts, ?s)\<rparr>" and q: "q = next_seq s"
    using assms(3,5) by (auto simp: submit_job_def ensure_scheduler_def Let_def submit_push_def stamp_def)
  have j: "all_joined s" using py_reach_inv [OF assms(1)] assms(3,4) reach_lifecycle
    by (auto simp: module_inv_def lifecycle_def)
  then have j': "all_joined ?s" by (simp add: all_joined_def submit_push_def Let_def)
  have "stamp now q job \<in> set (queue ?s)"
    by (simp add: submit_push_def Let_def q pq_push_def)
  moreover have "\<exists>opts' s''. g_sched g'' = Some (opts', s'') \<and> in_flight s'' = {#} \<and> metrics s'' = []"
    if "start_scheduler mb w name gpu' g' = Inr g''" for mb w name gpu' g''
  proof -
    let ?g = "g'\<lparr>g_opts := (g_opts g')\<lparr>opt_max_batch := mb, num_workers := w, impl := name\<rparr>, g_sched := None\<rparr>"
    have r: "\<not> g_running g'" "\<not> g_stopping g'"
      using py_reach_inv [OF assms(1)] assms(3,4) g' by (auto simp: module_inv_def)
    then have g'': "g'' = create_scheduler gpu' ?g" "opts_ok (g_opts ?g)"
      using that by (auto simp: start_scheduler_def opts_ok_def Let_def split: if_splits)
    have "module_inv 0 [] g''" "g_sched g'' \<noteq> None"
      using create_scheduler_inv(1,3) [OF g''(2)] r g''(1) by simp_all
    then obtain opts' s'' where s'': "g_sched g'' = Some (opts', s'')" "reach opts' 0 [] s''"
      by (auto simp: module_inv_def)
    with reach_conserves [OF s''(2)] show ?thesis by simp
  qed
  ultimately show ?thesis
    using g' joined_no_thread [OF j'] by (intro exI [of _ ?s]) (auto simp: submit_push_def Let_def)
qed

subsection \<open>A concrete session\<close>

text \<open>\<open>Scheduler(workers=1).start()\<close> without a GPU, then \<open>stop()\<close>, then
  \<open>submit_job(1, 1, 1)\<close>.\<close>

definition no_gpu :: device where
  "no_gpu = (0, run_stats, None)"

definition py_opts :: Options where
  "py_opts = default_options\<lparr>num_workers := 1\<rparr>"

definition py_running :: system where
  "py_running = new_system\<lparr>started := True, gpu_absent := True, dpc := D_space,
     workers := [\<lparr>w_ctx = fresh_ctx, w_pc = W_wait\<rparr>]\<rparr>"

definition py_stopped :: system where
  "py_stopped = new_system\<lparr>shutdown := True, gpu_absent := True, dpc := D_exit,
     workers := [\<lparr>w_ctx = fresh_ctx, w_pc = W_exit\<rparr>]\<rparr>"

definition py_state :: "system \<Rightarrow> bool \<Rightarrow> bool \<Rightarrow> gpuinfer" where
  "py_state s run stopping = \<lparr>g_sched = Some (py_opts, s), g_opts = py_opts, g_running = run, g_stopping = stopping\<rparr>"

lemmas py_state_defs = py_opts_def py_running_def py_stopped_def py_state_def new_system_def new_sched_def
  sched.defs system.defs

lemma py_started: "py_reach 0 [] (py_state py_running True False)"
proof -
  have "start_scheduler 8 1 ''tiled'' (0, run_stats, None) module_init = Inr (py_state py_running True False)"
    by (simp add: start_scheduler_def create_scheduler_def start_def module_init_def run_stats_def default_options_def
        py_state_defs)
  from py_start [OF py_init _ _ this] show ?thesis by (simp add: module_init_def alive_def)
qed

lemma py_stops: "py_reach 0 [] (py_state py_stopped False False)"
proof -
  let ?s1 = "py_running\<lparr>shutdown := True\<rparr>" and ?work = "Work 0 (sample_env None) sample_heap sample_heap"
  let ?s2 = "?s1\<lparr>dpc := D_exit\<rparr>" and ?s3 = "py_stopped\<lparr>started := True\<rparr>"
  have "stop_scheduler_begin (py_state py_running True False) = py_state ?s1 True True"
    by (simp add: stop_scheduler_begin_def stop_flag_def py_state_defs)
  then have 1: "py_reach 0 [] (py_state ?s1 True True)"
    using py_stop_begin [OF py_started] by (simp add: alive_def py_state_defs)
  have "perform py_opts dispatch ?s1 = Some ?s2"
    by (simp add: perform_def dispatcher_step_def wait_space_def py_state_defs)
  from py_thread [OF 1 _ _ _ this] have 2: "py_reach 0 [] (py_state ?s2 True True)"
    by (simp add: py_state_def budget_within_def budget_base_def py_opts_def default_options_def run_stats_def)
  have "perform py_opts ?work ?s2 = Some ?s3"
    by (simp add: perform_def worker_step_def take_batch_def set_worker_def py_state_defs)
  from py_thread [OF 2 _ _ _ this] have 3: "py_reach 0 [] (py_state ?s3 True True)"
    by (simp add: py_state_def budget_within_def)
  have "stop_scheduler_end (py_state ?s3 True True) = Some (py_state py_stopped False False)"
    by (simp add: stop_scheduler_end_def stop_join_def all_joined_def py_state_defs)
  from py_stop_end [OF 3 _ _ this] show ?thesis by (simp add: alive_def py_state_defs)
qed

theorem python_module_invariant_witness: "reach py_opts 0 [] py_running"
  using python_module_invariant [OF py_started] by (simp add: py_state_def)

theorem submit_after_stop_lost_witness:
  "\<exists>g' q s'. submit_job no_gpu 7 small_job (py_state py_stopped False False) = (g', q) \<and>
     g_sched g' = Some (py_opts, s') \<and> stamp 7 q small_job \<in> set (queue s') \<and>
     perform py_opts dispatch s' = None"
proof -
  obtain g' q where s: "submit_job no_gpu 7 small_job (py_state py_stopped False False) = (g', q)" by fastforce
  have "alive (py_state py_stopped False False)" by (simp add: alive_def py_state_defs)
  moreover have "g_sched (py_state py_stopped False False) = Some (py_opts, py_stopped)"
    "\<not> g_running (py_state py_stopped False False)" by (simp_all add: py_state_def)
  ultimately show ?thesis using submit_after_stop_lost [OF py_stops _ _ _ s] s by fastforce
qed

subsection \<open>\<open>batched_gemm\<close>\<close>

text \<open>An array: whether its type is \<open>float32\<close>, its shape, and its elements in C order (what
  \<open>ensure\<close> makes contiguous).\<close>

type_synonym 'f pyarray = "bool \<times> int list \<times> 'f memory"

definition gemm_shape :: "'f pyarray \<Rightarrow> 'f pyarray \<Rightarrow> py_error + (int \<times> int \<times> int \<times> int)" where
  "gemm_shape a b = (case (a, b) of ((fa, sa, _), (fb, sb, _)) \<Rightarrow>
     if \<not> fa then Inl (ValueError ''a must be a float32 array'')
     else if \<not> fb then Inl (ValueError ''b must be a float32 array'')
     else if length sa \<noteq> 3 then Inl (ValueError ''a must be 3-D (B, M, K)'')
     else if length sb \<noteq> 3 then Inl (ValueError ''b must be 3-D (B, K, N)'')
     else let b_batch = sa ! 0; m_dim = sa ! 1; k_dim = sa ! 2
       in if sb ! 0 \<noteq> b_batch then Inl (ValueError ''batch size mismatch between a and b'')
          else if sb ! 1 \<noteq> k_dim then Inl (ValueError ''inner dimension mismatch between a and b'')
          else let n_dim = sb ! 2
            in if m_dim \<le> 0 \<or> n_dim \<le> 0 \<or> k_dim \<le> 0 then Inl (ValueError ''matrix dimensions must be positive'')
               else if b_batch \<le> 0 \<or> b_batch > 65535 then Inl (ValueError ''batch size must be in [1, 65535]'')
               else Inr (b_batch, m_dim, n_dim, k_dim))"

text \<open>\<open>CUDA_CHECK\<close> on the answers of the three allocations, the two copies in, the copy out and
  the synchronization (0 is success).\<close>

fun cuda_checks :: "nat list \<Rightarrow> py_error + unit" where
  "cuda_checks [] = Inr ()"
| "cuda_checks (e # es) = (if e = 0 then cuda_checks es else Inl (RuntimeError e))"

text \<open>The kernel runs between the copies, on the device's copies of the inputs; \<open>C0\<close> is what the
  uninitialised result buffer holds.\<close>

definition batched_gemm :: "('f \<Rightarrow> 'f \<Rightarrow> 'f) \<Rightarrow> ('f \<Rightarrow> 'f \<Rightarrow> 'f) \<Rightarrow> 'f \<Rightarrow> nat list \<Rightarrow> 'f memory
    \<Rightarrow> 'f pyarray \<Rightarrow> 'f pyarray \<Rightarrow> py_error + 'f pyarray" where
  "batched_gemm add mul zero answers C0 a b =
     (case gemm_shape a b of Inl e \<Rightarrow> Inl e
      | Inr (b_batch, m_dim, n_dim, k_dim) \<Rightarrow>
          (let int_of = (\<lambda>d. nat (sint (word_of_int d :: i32)));
               M = int_of m_dim; N = int_of n_dim; K = int_of k_dim; batch = int_of b_batch
           in case cuda_checks (take 7 answers) of Inl e \<Rightarrow> Inl e
              | Inr _ \<Rightarrow> Inr (True, [b_batch, m_dim, n_dim],
                  apply_writes (gemm_tiled_batched add mul zero (snd (snd a)) (snd (snd b)) M N K batch) C0)))"

lemma cuda_checks_ok: "cuda_checks es = Inr () \<longleftrightarrow> (\<forall>e \<in> set es. e = 0)"
  by (induction es) auto

lemma sint_word_of_int: "0 \<le> d \<Longrightarrow> d < 2 ^ 31 \<Longrightarrow> sint (word_of_int d :: i32) = d"
  by (simp add: sint_uint uint_word_of_int signed_take_bit_int_eq_self take_bit_int_eq_self)

text \<open>
  C31.  What \<open>batched_gemm\<close> checks and what it computes.  It raises a \<open>ValueError\<close> exactly when the
  arguments are not two float32 arrays of matching three-dimensional shapes with positive dimensions
  and a batch of at most 65535.  For arguments that it accepts, and for which moreover no index of the
  kernel wraps (\<open>dims_ok\<close>), the device accepts the grid (\<open>grid_ok\<close>) and all CUDA calls succeed, it
  returns an array of the shape \<open>(B, M, N)\<close> whose element \<open>(b, i, j)\<close> is the sum of the products
  over \<open>k\<close> in the order of the reference.  Nothing is claimed of the arguments that it accepts
  outside of these bounds: \<open>batched_gemm_too_tall\<close> shows that the result can then be anything.
\<close>

theorem batched_gemm_correct:
  assumes "\<And>x. add x (mul zero zero) = x" "length answers = 7"
  shows "((\<forall>msg. batched_gemm add mul zero answers C0 (fa, sa, A) (fb, sb, B) \<noteq> Inl (ValueError msg)) \<longleftrightarrow>
      fa \<and> fb \<and> (\<exists>n m k l. sa = [n, m, k] \<and> sb = [n, k, l] \<and> 0 < m \<and> 0 < k \<and> 0 < l \<and> 0 < n \<and> n \<le> 65535)) \<and>
    (dims_ok M N K batch \<and> grid_ok 32 M N batch \<and> 0 < M \<and> 0 < N \<and> 0 < K \<and> 0 < batch \<and> batch \<le> 65535 \<and> (\<forall>e \<in> set answers. e = 0) \<longrightarrow>
      (\<exists>R. batched_gemm add mul zero answers C0 (True, [int batch, int M, int K], A) (True, [int batch, int K, int N], B) =
          Inr (True, [int batch, int M, int N], R) \<and>
        (\<forall>b < batch. \<forall>i < M. \<forall>j < N. R (cell M N b i j) = gemm_ref add mul zero A B M N K b i j)))"
proof (intro conjI impI)
  have no_value: "cuda_checks es \<noteq> Inl (ValueError msg)" for es msg by (induction es) auto
  have three: "length xs = 3 \<longleftrightarrow> (\<exists>x y z. xs = [x, y, z])" for xs :: "int list"
    by (auto simp: length_Suc_conv numeral_3_eq_3)
  have "(\<exists>msg. batched_gemm add mul zero answers C0 (fa, sa, A) (fb, sb, B) = Inl (ValueError msg)) \<longleftrightarrow>
      (\<exists>e. gemm_shape (fa, sa, A) (fb, sb, B) = Inl e)"
    using no_value by (auto simp: batched_gemm_def gemm_shape_def Let_def split: sum.splits if_splits)
  also have "\<dots> \<longleftrightarrow> \<not> (fa \<and> fb \<and> (\<exists>n m k l. sa = [n, m, k] \<and> sb = [n, k, l] \<and> 0 < m \<and> 0 < k \<and> 0 < l \<and> 0 < n \<and> n \<le> 65535))"
  proof (cases "length sa = 3 \<and> length sb = 3")
    case True
    then obtain x y z u v w where "sa = [x, y, z]" "sb = [u, v, w]" using three by metis
    then show ?thesis by (auto simp: gemm_shape_def Let_def)
  next
    case False
    then show ?thesis using three by (auto simp: gemm_shape_def Let_def)
  qed
  finally show "(\<forall>msg. batched_gemm add mul zero answers C0 (fa, sa, A) (fb, sb, B) \<noteq> Inl (ValueError msg)) \<longleftrightarrow>
      fa \<and> fb \<and> (\<exists>n m k l. sa = [n, m, k] \<and> sb = [n, k, l] \<and> 0 < m \<and> 0 < k \<and> 0 < l \<and> 0 < n \<and> n \<le> 65535)"
    by blast
next
  assume ok: "dims_ok M N K batch \<and> grid_ok 32 M N batch \<and> 0 < M \<and> 0 < N \<and> 0 < K \<and> 0 < batch \<and> batch \<le> 65535 \<and> (\<forall>e \<in> set answers. e = 0)"
  let ?R = "apply_writes (gemm_tiled_batched add mul zero A B M N K batch) C0"
  have dims: "nat (sint (word_of_int (int d) :: i32)) = d" if "d \<in> {M, N, K, batch}" for d
    using that ok sint_word_of_int [of "int d"] by (auto simp: dims_ok_def)
  have "cuda_checks (take 7 answers) = Inr ()" using ok assms(2) by (simp add: cuda_checks_ok)
  then have "batched_gemm add mul zero answers C0 (True, [int batch, int M, int K], A) (True, [int batch, int K, int N], B) =
      Inr (True, [int batch, int M, int N], ?R)"
    using ok dims by (simp add: batched_gemm_def gemm_shape_def Let_def del: of_nat_eq_id)
  moreover have "dims_ok M N K batch" "grid_ok 32 M N batch" using ok by simp_all
  from launch_result(1) [OF tiled_writes [OF this, of add mul zero, OF assms(1), of A B]]
  have "\<forall>b < batch. \<forall>i < M. \<forall>j < N. ?R (cell M N b i j) = gemm_ref add mul zero A B M N K b i j" by blast
  ultimately show "\<exists>R. batched_gemm add mul zero answers C0 (True, [int batch, int M, int K], A) (True, [int batch, int K, int N], B) =
          Inr (True, [int batch, int M, int N], R) \<and>
        (\<forall>b < batch. \<forall>i < M. \<forall>j < N. R (cell M N b i j) = gemm_ref add mul zero A B M N K b i j)" by blast
qed

theorem batched_gemm_correct_witness:
  "\<exists>R. batched_gemm (+) (*) (0 :: int) (replicate 7 0) (\<lambda>_. 0) (True, [3, 2, 5], \<lambda>_. 2) (True, [3, 5, 2], \<lambda>_. 3) =
     Inr (True, [3, 2, 2], R) \<and> R (cell 2 2 1 0 1) = 30"
proof -
  have "dims_ok 2 2 5 3" "grid_ok 32 2 2 3" by (simp_all add: dims_ok_def grid_ok_def grid_accepted_def)
  with batched_gemm_correct [where add = "(+)" and mul = "(*)" and zero = "0 :: int" and answers = "replicate 7 0"
      and M = 2 and N = 2 and K = 5 and batch = 3 and A = "\<lambda>_. 2" and B = "\<lambda>_. 3" and ?C0.0 = "\<lambda>_. 0"
      and fa = True and sa = "[]" and fb = True and sb = "[]"]
  obtain R where "batched_gemm (+) (*) (0 :: int) (replicate 7 0) (\<lambda>_. 0) (True, [3, 2, 5], \<lambda>_. 2) (True, [3, 5, 2], \<lambda>_. 3) =
     Inr (True, [3, 2, 2], R)" "\<forall>b < 3. \<forall>i < 2. \<forall>j < 2. R (cell 2 2 b i j) = gemm_ref (+) (*) 0 (\<lambda>_. 2) (\<lambda>_. 3) 2 2 5 b i j"
    by auto
  then show ?thesis by (simp add: gemm_ref_def upt_rec)
qed

subsection \<open>Launches that the device refuses\<close>

text \<open>\<open>batched_gemm\<close> checks the batch but not the rows: with more than 2097120 of them it returns what
  the uninitialised result buffer held.\<close>

theorem batched_gemm_too_tall:
  assumes "\<forall>e \<in> set answers. e = 0" "2097120 < M" "M < 2 ^ 31" "0 < N" "N < 2 ^ 31" "0 < K" "K < 2 ^ 31"
    and "0 < batch" "batch \<le> 65535"
  shows "batched_gemm add mul zero answers C0 (True, [int batch, int M, int K], A) (True, [int batch, int K, int N], B) =
    Inr (True, [int batch, int M, int N], C0)"
proof -
  have dims: "nat (sint (word_of_int (int d) :: i32)) = d" if "d \<in> {M, N, K, batch}" for d
    using that assms sint_word_of_int [of "int d"] by auto
  have "65535 < (31 + M) div 32" using assms(2) by simp
  then have "\<not> grid_ok 32 M N batch" by (simp add: grid_ok_def grid_accepted_def)
  moreover have "cuda_checks (take 7 answers) = Inr ()" using assms(1) by (auto simp: cuda_checks_ok dest: in_set_takeD)
  ultimately show ?thesis
    using assms dims by (simp add: batched_gemm_def gemm_shape_def Let_def refused_launch(1) del: of_nat_eq_id)
qed

theorem batched_gemm_too_tall_witness:
  "batched_gemm (+) (*) (0 :: int) (replicate 7 0) (\<lambda>_. 4) (True, [1, 2097121, 1], \<lambda>_. 2) (True, [1, 1, 1], \<lambda>_. 3) =
   Inr (True, [1, 2097121, 1], \<lambda>_. 4)"
  using batched_gemm_too_tall [of "replicate 7 0" 2097121 1 1 1 "(+)" "(*)" "0 :: int" "\<lambda>_. 4" "\<lambda>_. 2" "\<lambda>_. 3"]
  by simp

end
