(* ===== verification/ModuleRace.thy ===== *)
theory ModuleRace
  imports Bindings
begin

section \<open>Concurrent calls of the Python module (ensure_scheduler, start_scheduler, stop_scheduler)\<close>

text \<open>
  \<open>Bindings\<close> treats a call of \<open>submit_job\<close> as one step.  It is not: \<open>submit_job\<close> gives up the GIL
  and calls \<open>ensure_scheduler\<close>, which reads and writes \<open>g_sched\<close> and \<open>g_running\<close> without
  \<open>g_mutex\<close>.  Here each read and write of these variables is a step, the scheduler objects are a heap
  in which the assignment of \<open>g_sched\<close> destroys the old object, and \<open>fault\<close> records the use of a null
  pointer or of a destroyed object.  Reads and writes of a pointer are taken to be atomic.  The calls
  under \<open>g_mutex\<close> are one thread of control, as the mutex lets one of them run at a time.
\<close>

record sched_obj =
  obj_opts :: Options
  obj_sys :: system
  obj_alive :: bool

datatype submit_pc = B_check | B_make | B_start | B_starting nat | B_running | B_use | B_submit nat | B_done nat u64

datatype control_pc = C_idle | C_start | C_reset | C_make | C_call | C_starting nat | C_running
  | C_stop | C_stopping nat | C_stopped

record pymodule =
  objs :: "sched_obj list"
  cur :: "nat option" \<comment> \<open>\<open>g_sched\<close>\<close>
  run_flag :: bool
  mod_opts :: Options
  subs :: "(InferenceJob \<times> submit_pc) list" \<comment> \<open>the threads that call \<open>submit_job\<close>\<close>
  control :: control_pc
  fault :: bool

definition fresh_module :: "InferenceJob list \<Rightarrow> pymodule" where
  "fresh_module js = \<lparr>objs = [], cur = None, run_flag = False, mod_opts = default_options,
     subs = map (\<lambda>j. (j, B_check)) js, control = C_idle, fault = False\<rparr>"

subsection \<open>The objects\<close>

definition usable :: "pymodule \<Rightarrow> nat \<Rightarrow> bool" where
  "usable st p \<longleftrightarrow> p < length (objs st) \<and> obj_alive (objs st ! p)"

definition update_obj :: "nat \<Rightarrow> (system \<Rightarrow> system) \<Rightarrow> pymodule \<Rightarrow> pymodule" where
  "update_obj p f st = st\<lparr>objs := (objs st)[p := (objs st ! p)\<lparr>obj_sys := f (obj_sys (objs st ! p))\<rparr>]\<rparr>"

definition delete_obj :: "nat option \<Rightarrow> pymodule \<Rightarrow> pymodule" where
  "delete_obj old st =
     (case old of None \<Rightarrow> st | Some p \<Rightarrow> st\<lparr>objs := (objs st)[p := (objs st ! p)\<lparr>obj_alive := False\<rparr>]\<rparr>)"

text \<open>\<open>g_sched = std::make_unique<BatchScheduler>(g_opts)\<close>: the new object, then the old one is destroyed.\<close>

definition assign_sched :: "pymodule \<Rightarrow> pymodule" where
  "assign_sched st =
     (delete_obj (cur st) (st\<lparr>objs := objs st @ [\<lparr>obj_opts = mod_opts st, obj_sys = new_system, obj_alive = True\<rparr>]\<rparr>))
       \<lparr>cur := Some (length (objs st))\<rparr>"

definition reset_sched :: "pymodule \<Rightarrow> pymodule" where
  "reset_sched st = (delete_obj (cur st) st)\<lparr>cur := None\<rparr>"

text \<open>What \<open>start\<close> does to the object it is called on.\<close>

definition started_sys :: "Options \<Rightarrow> device \<Rightarrow> system \<Rightarrow> system" where
  "started_sys opts gpu s =
     (case gpu of (ndev, stats, mem_info) \<Rightarrow> case start opts ndev stats mem_info s of None \<Rightarrow> s | Some s' \<Rightarrow> s')"

definition stopped_sys :: "system \<Rightarrow> system" where
  "stopped_sys s = (case stop_flag s of None \<Rightarrow> s | Some s' \<Rightarrow> s'\<lparr>started := False\<rparr>)"

subsection \<open>The steps of submit_job\<close>

text \<open>A call through a pointer: null or a destroyed object is a fault.\<close>

definition through :: "nat option \<Rightarrow> pymodule \<Rightarrow> (nat \<Rightarrow> pymodule) \<Rightarrow> pymodule" where
  "through ptr st k =
     (case ptr of None \<Rightarrow> st\<lparr>fault := True\<rparr> | Some p \<Rightarrow> if usable st p then k p else st\<lparr>fault := True\<rparr>)"

definition set_sub :: "nat \<Rightarrow> submit_pc \<Rightarrow> pymodule \<Rightarrow> pymodule" where
  "set_sub i pc st = st\<lparr>subs := (subs st)[i := (fst (subs st ! i), pc)]\<rparr>"

definition submit_step :: "device \<Rightarrow> time_point \<Rightarrow> nat \<Rightarrow> pymodule \<Rightarrow> pymodule option" where
  "submit_step gpu now i st =
     (case snd (subs st ! i) of
        B_check \<Rightarrow> Some (set_sub i (if cur st = None then B_make else B_use) st)
      | B_make \<Rightarrow> Some (set_sub i B_start (assign_sched st))
      | B_start \<Rightarrow> Some (through (cur st) st (\<lambda>p. set_sub i (B_starting p) st))
      | B_starting p \<Rightarrow> Some (through (Some p) st (\<lambda>p. set_sub i B_running
            (update_obj p (started_sys (obj_opts (objs st ! p)) gpu) st)))
      | B_running \<Rightarrow> Some (set_sub i B_use (st\<lparr>run_flag := True\<rparr>))
      | B_use \<Rightarrow> Some (case cur st of None \<Rightarrow> st\<lparr>fault := True\<rparr> | Some p \<Rightarrow> set_sub i (B_submit p) st)
      | B_submit p \<Rightarrow> Some (through (Some p) st (\<lambda>p.
            let s = obj_sys (objs st ! p); job = fst (subs st ! i)
            in set_sub i (B_done p (snd (submit_push now job s))) (update_obj p (\<lambda>s. fst (submit_push now job s)) st)))
      | B_done p q \<Rightarrow> None)"

subsection \<open>The steps of start_scheduler and stop_scheduler\<close>

definition control_step :: "device \<Rightarrow> pymodule \<Rightarrow> pymodule option" where
  "control_step gpu st =
     (case control st of
        C_idle \<Rightarrow> None
      | C_start \<Rightarrow> Some (st\<lparr>control := (if run_flag st then C_idle else C_reset)\<rparr>)
      | C_reset \<Rightarrow> Some ((reset_sched st)\<lparr>control := C_make\<rparr>)
      | C_make \<Rightarrow> Some ((assign_sched st)\<lparr>control := C_call\<rparr>)
      | C_call \<Rightarrow> Some (through (cur st) st (\<lambda>p. st\<lparr>control := C_starting p\<rparr>))
      | C_starting p \<Rightarrow> Some (through (Some p) st (\<lambda>p.
            (update_obj p (started_sys (obj_opts (objs st ! p)) gpu) st)\<lparr>control := C_running\<rparr>))
      | C_running \<Rightarrow> Some (st\<lparr>run_flag := True, control := C_idle\<rparr>)
      | C_stop \<Rightarrow> Some (if run_flag st then through (cur st) st (\<lambda>p. st\<lparr>control := C_stopping p\<rparr>)
            else st\<lparr>control := C_idle\<rparr>)
      | C_stopping p \<Rightarrow> Some (through (Some p) st (\<lambda>p. (update_obj p stopped_sys st)\<lparr>control := C_stopped\<rparr>))
      | C_stopped \<Rightarrow> Some (st\<lparr>run_flag := False, control := C_idle\<rparr>))"

datatype race_action = Submit nat device time_point | BeginStart i32 i32 string | BeginStop | Control device

definition race_step :: "race_action \<Rightarrow> pymodule \<Rightarrow> pymodule option" where
  "race_step a st =
     (if fault st then None
      else case a of
        Submit i gpu now \<Rightarrow> (if i < length (subs st) then submit_step gpu now i st else None)
      | BeginStart mb w name \<Rightarrow>
          (if control st = C_idle
           then Some (st\<lparr>mod_opts := (mod_opts st)\<lparr>opt_max_batch := mb, num_workers := w, impl := name\<rparr>, control := C_start\<rparr>)
           else None)
      | BeginStop \<Rightarrow> (if control st = C_idle then Some (st\<lparr>control := C_stop\<rparr>) else None)
      | Control gpu \<Rightarrow> control_step gpu st)"

fun race_run :: "race_action list \<Rightarrow> pymodule \<Rightarrow> pymodule option" where
  "race_run [] st = Some st"
| "race_run (a # as) st = (case race_step a st of None \<Rightarrow> None | Some st' \<Rightarrow> race_run as st')"

subsection \<open>Runs that go wrong\<close>

definition one_gpu :: device where
  "one_gpu = (1, run_stats, None)"

abbreviation sub0 :: race_action where "sub0 \<equiv> Submit 0 one_gpu 5"
abbreviation sub1 :: race_action where "sub1 \<equiv> Submit 1 one_gpu 6"

text \<open>Both find no scheduler; the second makes its own when the first has submitted to the first one.\<close>

definition lost_run :: "nat \<Rightarrow> nat \<Rightarrow> device \<Rightarrow> time_point \<Rightarrow> time_point \<Rightarrow> race_action list" where
  "lost_run i j gpu t t' = [Submit i gpu t, Submit j gpu t'] @ replicate 6 (Submit i gpu t) @ replicate 6 (Submit j gpu t')"

text \<open>The second replaces the scheduler while the first is in \<open>start\<close> of it.\<close>

definition crash_run :: "nat \<Rightarrow> nat \<Rightarrow> device \<Rightarrow> time_point \<Rightarrow> time_point \<Rightarrow> race_action list" where
  "crash_run i j gpu t t' = [Submit i gpu t, Submit j gpu t', Submit i gpu t, Submit i gpu t, Submit j gpu t', Submit i gpu t]"

text \<open>A submission that has its reference, when the scheduler is stopped and started again.\<close>

definition restart_run :: "nat \<Rightarrow> device \<Rightarrow> time_point \<Rightarrow> race_action list" where
  "restart_run i gpu t = [BeginStop] @ replicate 3 (Control gpu) @ [BeginStart 8 2 ''tiled''] @
     replicate 2 (Control gpu) @ [Submit i gpu t]"

lemmas race_defs = race_step_def submit_step_def control_step_def set_sub_def assign_sched_def reset_sched_def
  delete_obj_def update_obj_def through_def usable_def

lemma started_sys_frame [simp]:
  "queue (started_sys opts gpu s) = queue s" "next_seq (started_sys opts gpu s) = next_seq s"
  by (auto simp: started_sys_def start_def split: prod.splits option.splits)

text \<open>A destroyed object stays destroyed, and a call that has returned has returned.\<close>

definition gone :: "nat \<Rightarrow> pymodule \<Rightarrow> bool" where
  "gone p st \<longleftrightarrow> p < length (objs st) \<and> \<not> obj_alive (objs st ! p)"

lemma alive_update: "obj_alive (xs[k := (xs ! k)\<lparr>obj_alive := False\<rparr>] ! p) \<Longrightarrow> obj_alive (xs ! p)"
  by (cases "k < length xs"; cases "k = p") (auto simp: list_update_beyond)

lemma gone_step:
  assumes "race_step a st = Some st'" "gone p st"
  shows "gone p st'"
proof (cases a)
  case (Submit i gpu now)
  with assms show ?thesis
    by (auto simp: race_defs gone_def nth_append nth_list_update Let_def split: submit_pc.splits if_splits option.splits)
next
  case (Control gpu)
  with assms show ?thesis
    by (auto simp: race_defs gone_def nth_append nth_list_update dest: alive_update split: control_pc.splits if_splits option.splits)
qed (use assms in \<open>auto simp: race_step_def gone_def split: if_splits\<close>)

lemma returned_step:
  assumes "race_step a st = Some st'" "i < length (subs st)" "snd (subs st ! i) = B_done p q"
  shows "i < length (subs st') \<and> snd (subs st' ! i) = B_done p q"
proof (cases a)
  case (Submit k gpu now)
  with assms show ?thesis
    by (cases "k = i") (auto simp: race_defs nth_list_update Let_def split: submit_pc.splits if_splits option.splits)
next
  case (Control gpu)
  with assms show ?thesis
    by (auto simp: race_defs split: control_pc.splits if_splits option.splits)
qed (use assms in \<open>auto simp: race_step_def split: if_splits\<close>)

lemma lost_forever:
  "race_run as st = Some st' \<Longrightarrow> gone p st \<Longrightarrow> i < length (subs st) \<Longrightarrow> snd (subs st ! i) = B_done p q \<Longrightarrow>
   gone p st' \<and> snd (subs st' ! i) = B_done p q"
proof (induction as arbitrary: st)
  case (Cons a as)
  from Cons.prems(1) obtain st1 where "race_step a st = Some st1" "race_run as st1 = Some st'"
    by (auto split: option.splits)
  with Cons gone_step [OF this(1)] returned_step [OF this(1)] show ?case by blast
qed simp

lemma lost_run_ends:
  assumes "cur st = None" "\<not> fault st" "i \<noteq> j" "i < length (subs st)" "j < length (subs st)"
    "snd (subs st ! i) = B_check" "snd (subs st ! j) = B_check"
  shows "\<exists>st'. race_run (lost_run i j gpu t t') st = Some st' \<and> \<not> fault st' \<and> cur st' = Some (Suc (length (objs st))) \<and>
    snd (subs st' ! i) = B_done (length (objs st)) 0 \<and> snd (subs st' ! j) = B_done (Suc (length (objs st))) 0 \<and>
    gone (length (objs st)) st' \<and> length (subs st') = length (subs st) \<and>
    queue (obj_sys (objs st' ! length (objs st))) = [stamp t 0 (fst (subs st ! i))] \<and>
    queue (obj_sys (objs st' ! Suc (length (objs st)))) = [stamp t' 0 (fst (subs st ! j))]"
  using assms
  by (simp add: lost_run_def race_defs gone_def numeral_eq_Suc nth_append submit_push_def pq_push_def Let_def
      nth_list_update stamp_def)

lemma crash_run_ends:
  assumes "cur st = None" "\<not> fault st" "i \<noteq> j" "i < length (subs st)" "j < length (subs st)"
    "snd (subs st ! i) = B_check" "snd (subs st ! j) = B_check"
  shows "\<exists>st'. race_run (crash_run i j gpu t t') st = Some st' \<and> fault st'"
  using assms by (simp add: crash_run_def race_defs nth_append nth_list_update)

text \<open>A submission that holds its reference uses a destroyed object when the scheduler is stopped and
  started again before it goes on.\<close>

lemma restart_uses_destroyed_scheduler:
  assumes "cur st = Some p" "usable st p" "run_flag st" "control st = C_idle" "\<not> fault st"
    and "i < length (subs st)" "snd (subs st ! i) = B_submit p"
  shows "\<exists>st'. race_run (restart_run i gpu t) st = Some st' \<and> fault st'"
  using assms by (simp add: restart_run_def race_defs numeral_eq_Suc nth_append nth_list_update)

text \<open>
  C36.  The first submissions race.  In every state in which there is no scheduler and two threads
  are about to look for one, whatever the jobs, the options, the other threads and the device are:
  there is an interleaving after which both calls have returned the number 0, for two schedulers, of
  which the first, with the only copy of the first job, has been destroyed; and in every later state
  it stays destroyed and the call has returned that number, so the job is lost.  There is another
  interleaving in which a destroyed scheduler is used.
\<close>

theorem submit_job_races:
  assumes "cur st = None" "\<not> fault st" "i \<noteq> j" "i < length (subs st)" "j < length (subs st)"
    and "snd (subs st ! i) = B_check" "snd (subs st ! j) = B_check"
  shows "(\<exists>as st' p p'. race_run as st = Some st' \<and> p \<noteq> p' \<and>
      snd (subs st' ! i) = B_done p 0 \<and> snd (subs st' ! j) = B_done p' 0 \<and> cur st' = Some p' \<and>
      queue (obj_sys (objs st' ! p)) = [stamp t 0 (fst (subs st ! i))] \<and>
      queue (obj_sys (objs st' ! p')) = [stamp t' 0 (fst (subs st ! j))] \<and>
      (\<forall>as' st''. race_run as' st' = Some st'' \<longrightarrow> \<not> usable st'' p \<and> snd (subs st'' ! i) = B_done p 0)) \<and>
    (\<exists>as st'. race_run as st = Some st' \<and> fault st')"
proof -
  obtain st' where st': "race_run (lost_run i j gpu t t') st = Some st'" "cur st' = Some (Suc (length (objs st)))"
    "snd (subs st' ! i) = B_done (length (objs st)) 0" "snd (subs st' ! j) = B_done (Suc (length (objs st))) 0"
    "gone (length (objs st)) st'" "length (subs st') = length (subs st)"
    "queue (obj_sys (objs st' ! length (objs st))) = [stamp t 0 (fst (subs st ! i))]"
    "queue (obj_sys (objs st' ! Suc (length (objs st)))) = [stamp t' 0 (fst (subs st ! j))]"
    using lost_run_ends [OF assms] by blast
  have "\<not> usable st'' (length (objs st)) \<and> snd (subs st'' ! i) = B_done (length (objs st)) 0"
    if "race_run as' st' = Some st''" for as' st''
    using lost_forever [OF that st'(5) _ st'(3)] st'(6) assms(4) by (simp add: gone_def usable_def)
  with st' show ?thesis
    by (intro conjI, intro exI [of _ "lost_run i j gpu t t'"] exI [of _ st'] exI [of _ "length (objs st)"]
      exI [of _ "Suc (length (objs st))"]) (use crash_run_ends [OF assms, of gpu t t'] in \<open>simp, blast\<close>)
qed

theorem submit_job_races_witness:
  "\<exists>as st'. race_run as (fresh_module [small_job, small_job]) = Some st' \<and> fault st'"
  by (rule conjunct2 [OF submit_job_races [where i = 0 and j = 1]]) (simp_all add: fresh_module_def)

subsection \<open>Once a scheduler runs\<close>

definition numbers :: "InferenceJob \<times> submit_pc \<Rightarrow> u64 multiset" where
  "numbers x = (case snd x of B_done p q \<Rightarrow> {#q#} | _ \<Rightarrow> {#})"

text \<open>All submitting threads see the scheduler \<open>p\<close>, which is alive, and its numbers are those given out.\<close>

definition settled :: "nat \<Rightarrow> pymodule \<Rightarrow> bool" where
  "settled p st \<longleftrightarrow> cur st = Some p \<and> usable st p \<and> \<not> fault st \<and>
     control st \<in> {C_idle, C_start, C_stop, C_stopping p, C_stopped} \<and> (control st = C_start \<longrightarrow> run_flag st) \<and>
     (\<forall>x \<in> set (subs st). snd x \<in> {B_check, B_use, B_submit p} \<or> (\<exists>q. snd x = B_done p q)) \<and>
     (let s = obj_sys (objs st ! p); n = length (queue s)
      in next_seq s = word_of_nat n \<and> mset (map seq (queue s)) = mset (map word_of_nat [0..<n]) \<and>
         sum_list (map numbers (subs st)) = mset (map seq (queue s)))"

lemma settled_sub: "settled p st \<Longrightarrow> i < length (subs st) \<Longrightarrow>
    snd (subs st ! i) \<in> {B_check, B_use, B_submit p} \<or> (\<exists>q. snd (subs st ! i) = B_done p q)"
  unfolding settled_def by (meson nth_mem)

lemma settled_move:
  assumes "settled p st" "i < length (subs st)" "snd (subs st ! i) \<in> {B_check, B_use}" "pc \<in> {B_use, B_submit p}"
  shows "settled p (set_sub i pc st)"
proof -
  have "sum_list (map numbers ((subs st)[i := (fst (subs st ! i), pc)])) = sum_list (map numbers (subs st))"
    using sum_list_update [OF assms(2), of numbers "(fst (subs st ! i), pc)"] assms(3,4) by (auto simp: numbers_def)
  moreover have "\<forall>x \<in> set ((subs st)[i := (fst (subs st ! i), pc)]). snd x \<in> {B_check, B_use, B_submit p} \<or> (\<exists>q. snd x = B_done p q)"
    using assms(1,4) by (auto simp: settled_def dest!: subsetD [OF set_update_subset_insert])
  ultimately show ?thesis using assms(1) by (simp add: settled_def set_sub_def usable_def)
qed

lemma settled_push:
  assumes "settled p st" "i < length (subs st)" "snd (subs st ! i) = B_submit p"
  defines "s \<equiv> obj_sys (objs st ! p)" and "job \<equiv> fst (subs st ! i)"
  shows "settled p (set_sub i (B_done p (snd (submit_push now job s))) (update_obj p (\<lambda>s. fst (submit_push now job s)) st))"
    (is "settled p ?st")
proof -
  let ?q = "snd (submit_push now job s)" and ?n = "length (queue s)"
  have p: "p < length (objs st)" using assms(1) by (simp add: settled_def usable_def)
  have q: "?q = word_of_nat ?n" "next_seq s = word_of_nat ?n" "mset (map seq (queue s)) = mset (map word_of_nat [0..<?n])"
    "sum_list (map numbers (subs st)) = mset (map seq (queue s))"
    using assms(1) by (simp_all add: settled_def s_def Let_def submit_push_def stamp_def)
  have s': "obj_sys (objs ?st ! p) = fst (submit_push now job s)" using p by (simp add: set_sub_def update_obj_def s_def)
  have seqs: "mset (map seq (queue (fst (submit_push now job s)))) = add_mset ?q (mset (map seq (queue s)))"
    by (simp add: submit_push_def pq_push_def stamp_def image_mset_add_mset mset_map [symmetric] del: mset_map)
      (simp add: mset_map)
  have len: "length (queue (fst (submit_push now job s))) = Suc ?n" "next_seq (fst (submit_push now job s)) = word_of_nat (Suc ?n)"
    using q(2) by (simp_all add: submit_push_def pq_push_def Let_def)
  have subs: "sum_list (map numbers (subs ?st)) = add_mset ?q (sum_list (map numbers (subs st)))"
    using sum_list_update [OF assms(2), of numbers "(job, B_done p ?q)"] assms(3)
    by (simp add: numbers_def set_sub_def update_obj_def job_def)
  have "\<forall>x \<in> set (subs ?st). snd x \<in> {B_check, B_use, B_submit p} \<or> (\<exists>q. snd x = B_done p q)"
    using assms(1) by (auto simp: settled_def set_sub_def update_obj_def dest!: subsetD [OF set_update_subset_insert])
  moreover have "usable ?st p" "cur ?st = cur st" "fault ?st = fault st" "control ?st = control st" "run_flag ?st = run_flag st"
    using assms(1) by (simp_all add: settled_def usable_def set_sub_def update_obj_def)
  ultimately show ?thesis
    using assms(1) s' seqs len subs q by (simp add: settled_def Let_def del: mset_map)
qed

text \<open>No call of \<open>start\<close> comes after a call of \<open>stop\<close>.\<close>

fun no_restart :: "bool \<Rightarrow> race_action list \<Rightarrow> bool" where
  "no_restart r [] \<longleftrightarrow> True"
| "no_restart r (BeginStart mb w name # as) \<longleftrightarrow> r \<and> no_restart r as"
| "no_restart r (BeginStop # as) \<longleftrightarrow> no_restart False as"
| "no_restart r (Submit _ _ _ # as) \<longleftrightarrow> no_restart r as"
| "no_restart r (Control _ # as) \<longleftrightarrow> no_restart r as"

definition unstopped :: "bool \<Rightarrow> pymodule \<Rightarrow> bool" where
  "unstopped r st \<longleftrightarrow> (r \<longrightarrow> run_flag st \<and> control st \<in> {C_idle, C_start})"

lemma settled_submit:
  assumes "settled p st" "unstopped r st" "race_step (Submit i gpu now) st = Some st'"
  shows "settled p st' \<and> unstopped r st'"
proof -
  have st: "i < length (subs st)" "submit_step gpu now i st = Some st'" "cur st = Some p" "usable st p"
    using assms(1,3) by (simp_all add: race_step_def settled_def split: if_splits)
  have frame: "unstopped r (set_sub i pc st)" "unstopped r (set_sub i pc (update_obj p f st))" for pc f
    using assms(2) by (simp_all add: unstopped_def set_sub_def update_obj_def)
  from settled_sub [OF assms(1) st(1)] consider "snd (subs st ! i) = B_check" | "snd (subs st ! i) = B_use" |
    "snd (subs st ! i) = B_submit p" | q where "snd (subs st ! i) = B_done p q" by blast
  then show ?thesis
  proof cases
    case 1
    with st settled_move [OF assms(1) st(1), of B_use] frame show ?thesis by (auto simp: submit_step_def)
  next
    case 2
    with st settled_move [OF assms(1) st(1), of "B_submit p"] frame show ?thesis by (auto simp: submit_step_def)
  next
    case 3
    with st settled_push [OF assms(1) st(1) 3, of now] frame show ?thesis
      by (auto simp: submit_step_def through_def Let_def)
  next
    case 4
    with st(2) show ?thesis by (simp add: submit_step_def)
  qed
qed

lemma settled_control:
  assumes "settled p st" "unstopped r st" "race_step (Control gpu) st = Some st'"
  shows "settled p st' \<and> unstopped r st'"
proof -
  have c: "control_step gpu st = Some st'" using assms(3) by (simp add: race_step_def split: if_splits)
  have q: "queue (stopped_sys s) = queue s \<and> next_seq (stopped_sys s) = next_seq s" for s
    by (simp add: stopped_sys_def stop_flag_def)
  from assms(1) have "control st \<in> {C_idle, C_start, C_stop, C_stopping p, C_stopped}" by (simp add: settled_def)
  then show ?thesis using assms(1,2) c
    by (elim insertE emptyE)
      (auto simp: control_step_def settled_def unstopped_def usable_def through_def update_obj_def q Let_def
        split: if_splits)
qed

lemma settled_run:
  "settled p st \<Longrightarrow> unstopped r st \<Longrightarrow> no_restart r as \<Longrightarrow> race_run as st = Some st' \<Longrightarrow> settled p st'"
proof (induction r as arbitrary: st rule: no_restart.induct)
  case (2 r mb w name as)
  from 2(5) obtain st1 where s: "race_step (BeginStart mb w name) st = Some st1" "race_run as st1 = Some st'"
    by (auto split: option.splits)
  have r: r "no_restart r as" using 2(4) by auto
  have "settled p st1" "unstopped r st1" using 2(2,3) r(1) s(1)
    by (auto simp: race_step_def settled_def unstopped_def usable_def split: if_splits)
  then show ?case using 2(1) r s(2) by blast
next
  case (3 r as)
  from 3(5) obtain st1 where s: "race_step BeginStop st = Some st1" "race_run as st1 = Some st'"
    by (auto split: option.splits)
  have "settled p st1" "unstopped False st1" using 3(2,3) s(1)
    by (auto simp: race_step_def settled_def unstopped_def usable_def split: if_splits)
  moreover have "no_restart False as" using 3(4) by simp
  ultimately show ?case using 3(1) s(2) by blast
next
  case (4 r i gpu now as)
  then obtain st1 where s: "race_step (Submit i gpu now) st = Some st1" "race_run as st1 = Some st'"
    by (auto split: option.splits)
  moreover have "no_restart r as" using 4(4) by simp
  ultimately show ?case using settled_submit [OF 4(2,3)] 4(1) by blast
next
  case (5 r gpu as)
  then obtain st1 where s: "race_step (Control gpu) st = Some st1" "race_run as st1 = Some st'"
    by (auto split: option.splits)
  moreover have "no_restart r as" using 5(4) by simp
  ultimately show ?case using settled_control [OF 5(2,3)] 5(1) by blast
qed simp

text \<open>The module as \<open>start_scheduler\<close> leaves it, with threads about to submit \<open>js\<close>.\<close>

definition running_module :: "Options \<Rightarrow> device \<Rightarrow> InferenceJob list \<Rightarrow> pymodule" where
  "running_module opts gpu js = (fresh_module js)\<lparr>objs := [\<lparr>obj_opts = opts, obj_sys = started_sys opts gpu new_system,
     obj_alive = True\<rparr>], cur := Some 0, run_flag := True, mod_opts := opts\<rparr>"

lemma running_settled: "settled 0 (running_module opts gpu js)"
proof -
  have "queue (started_sys opts gpu new_system) = [] \<and> next_seq (started_sys opts gpu new_system) = 0"
    by (auto simp: started_sys_def start_def split: prod.splits option.splits)
  moreover have "sum_list (map numbers (map (\<lambda>j. (j, B_check)) js)) = {#}"
    by (induction js) (simp_all add: numbers_def)
  ultimately show ?thesis
    by (auto simp: settled_def usable_def running_module_def fresh_module_def)
qed

lemma running_unstopped: "unstopped True (running_module opts gpu js)"
  by (simp add: unstopped_def running_module_def fresh_module_def)

lemma numbers_member: "x \<in> set xs \<Longrightarrow> numbers x \<subseteq># sum_list (map numbers xs)"
proof (induction xs)
  case (Cons y xs)
  show ?case
  proof (cases "x = y")
    case False
    with Cons have "numbers x \<subseteq># sum_list (map numbers xs)" by simp
    then show ?thesis by (simp add: subset_mset.add_increasing)
  qed simp
qed simp

lemma numbers_pair: "i < j \<Longrightarrow> j < length xs \<Longrightarrow> numbers (xs ! i) + numbers (xs ! j) \<subseteq># sum_list (map numbers xs)"
proof -
  assume ij: "i < j" "j < length xs"
  have "xs = take j xs @ xs ! j # drop (Suc j) xs" using ij(2) by (rule id_take_nth_drop)
  then have "sum_list (map numbers xs) = sum_list (map numbers (take j xs)) + (numbers (xs ! j) + sum_list (map numbers (drop (Suc j) xs)))"
    by (metis list.simps(9) map_append sum_list.Cons sum_list.append)
  moreover have "numbers (xs ! i) \<subseteq># sum_list (map numbers (take j xs))"
    using ij by (intro numbers_member) (auto simp: in_set_conv_nth intro!: exI [of _ i])
  ultimately show ?thesis by (simp add: subset_mset.add_mono)
qed

lemma size_numbers: "size (sum_list (map numbers xs)) \<le> length xs"
  by (induction xs) (auto simp: numbers_def split: submit_pc.split)

lemma subs_simps [simp]:
  "length (subs (set_sub i pc st)) = length (subs st)" "subs (update_obj p f st) = subs st"
  "subs (assign_sched st) = subs st" "subs (reset_sched st) = subs st"
  by (simp_all add: set_sub_def update_obj_def assign_sched_def reset_sched_def delete_obj_def split: option.split)

lemma subs_through [simp]:
  "(\<And>p. length (subs (k p)) = length (subs st)) \<Longrightarrow> length (subs (through ptr st k)) = length (subs st)"
  by (simp add: through_def split: option.split)

lemma submit_step_length: "submit_step gpu now i st = Some st' \<Longrightarrow> length (subs st') = length (subs st)"
proof -
  have "case submit_step gpu now i st of None \<Rightarrow> True | Some st' \<Rightarrow> length (subs st') = length (subs st)"
    by (simp add: submit_step_def Let_def split: submit_pc.split option.split)
  then show "submit_step gpu now i st = Some st' \<Longrightarrow> length (subs st') = length (subs st)" by simp
qed

lemma control_step_length: "control_step gpu st = Some st' \<Longrightarrow> length (subs st') = length (subs st)"
proof -
  have "case control_step gpu st of None \<Rightarrow> True | Some st' \<Rightarrow> length (subs st') = length (subs st)"
    by (simp add: control_step_def split: control_pc.split)
  then show "control_step gpu st = Some st' \<Longrightarrow> length (subs st') = length (subs st)" by simp
qed

lemma length_subs: "race_run as st = Some st' \<Longrightarrow> length (subs st') = length (subs st)"
proof (induction as arbitrary: st)
  case (Cons a as)
  then obtain st1 where s: "race_step a st = Some st1" "race_run as st1 = Some st'" by (auto split: option.splits)
  have "length (subs st1) = length (subs st)" using s(1)
    by (cases a) (auto simp: race_step_def submit_step_length control_step_length split: if_splits)
  with Cons.IH [OF s(2)] show ?case by simp
qed simp

text \<open>
  C22.  Submissions to a running scheduler are safe.  Once \<open>start\<close> has returned, whatever the
  interleaving of any number of threads that call \<open>submit_job\<close> with calls of \<open>start\<close> and \<open>stop\<close>, and
  as long as no \<open>start\<close> follows a \<open>stop\<close>: no null or destroyed object is used, every call uses the one
  scheduler, and two calls that have returned have different numbers.
\<close>

theorem submit_job_safe_when_running:
  assumes "race_run as (running_module opts gpu js) = Some st" "no_restart True as" "length js \<le> 2 ^ 64"
  shows "\<not> fault st \<and> cur st = Some 0 \<and> obj_alive (objs st ! 0) \<and>
    (\<forall>i p q. i < length (subs st) \<and> snd (subs st ! i) = B_done p q \<longrightarrow> p = 0) \<and>
    (\<forall>i j p q p' q'. i < j \<and> j < length (subs st) \<and> snd (subs st ! i) = B_done p q \<and> snd (subs st ! j) = B_done p' q' \<longrightarrow> q \<noteq> q')"
proof -
  have s: "settled 0 st" by (rule settled_run [OF running_settled running_unstopped assms(2,1)])
  let ?s = "obj_sys (objs st ! 0)" and ?M = "sum_list (map numbers (subs st))"
  have M: "?M = mset (map word_of_nat [0..<length (queue ?s)])" using s by (simp add: settled_def Let_def del: mset_map)
  have "length (queue ?s) \<le> length (subs st)" using size_numbers [of "subs st"] arg_cong [OF M, of size] by simp
  also have "\<dots> = length js"
    using length_subs [OF assms(1)] by (simp add: running_module_def fresh_module_def)
  finally have "distinct (map word_of_nat [0..<length (queue ?s)] :: u64 list)"
    using assms(3) by (intro distinct_word_of_nat_upt) simp
  then have one: "Multiset.count ?M q \<le> 1" for q unfolding M by (simp add: distinct_count_atmost_1)
  have "q \<noteq> q'" if "i < j" "j < length (subs st)" "snd (subs st ! i) = B_done p q" "snd (subs st ! j) = B_done p' q'" for i j p q p' q'
  proof
    assume "q = q'"
    then have "{#q, q#} \<subseteq># ?M" using numbers_pair [OF that(1,2)] that(3,4) by (simp add: numbers_def)
    from mset_subset_eq_count [OF this, of q] one [of q] show False by simp
  qed
  moreover have "p = 0" if "i < length (subs st)" "snd (subs st ! i) = B_done p q" for i p q
    using settled_sub [OF s that(1)] that(2) by auto
  moreover have "\<not> fault st" "cur st = Some 0" "obj_alive (objs st ! 0)" using s by (simp_all add: settled_def usable_def)
  ultimately show ?thesis by blast
qed

definition calm_run :: "race_action list" where
  "calm_run = concat (replicate 3 [sub0, sub1]) @ [BeginStart 4 1 ''cublas'', Control one_gpu, BeginStop] @ replicate 3 (Control one_gpu)"

lemma calm_run_ends:
  "case race_run calm_run (running_module run_opts one_gpu [small_job, small_job]) of
     None \<Rightarrow> False
   | Some st \<Rightarrow> map snd (subs st) = [B_done 0 0, B_done 0 1] \<and> \<not> run_flag st"
  by code_simp

theorem submit_job_safe_when_running_witness:
  "\<exists>st. race_run calm_run (running_module run_opts one_gpu [small_job, small_job]) = Some st \<and> \<not> fault st \<and>
     cur st = Some 0 \<and> length (subs st) = 2"
proof -
  obtain st where st: "race_run calm_run (running_module run_opts one_gpu [small_job, small_job]) = Some st"
    "map snd (subs st) = [B_done 0 0, B_done 0 1]"
    using calm_run_ends by (auto split: option.splits)
  have "no_restart True calm_run" by code_simp
  moreover have "length [small_job, small_job] \<le> 2 ^ 64" by simp
  ultimately show ?thesis
    using submit_job_safe_when_running [OF st(1)] st(1) arg_cong [OF st(2), of length] by simp
qed

end
