(* ===== verification/Daemon.thy ===== *)
theory Daemon
  imports CommandLine Stats
begin

section \<open>The daemon (src/src/main.cpp)\<close>

text \<open>
  The options of \<open>scheduler_daemon\<close> and the checks on them, the replay file, the synthetic and
  the stress workload, the decisions of \<open>main\<close> before its threads run and the test that ends
  its wait.  Parameters: \<open>stod\<close>, the conversion of text to the nearest \<open>double\<close>; the random
  distribution \<open>uniform\<close>; the contents of files and the answers of the GPU and of \<open>bind\<close>.
\<close>

record Config =
  cfg_jobs :: u64
  cfg_arrival_rate :: double
  cfg_saturation :: bool
  cfg_replay_csv :: string
  cfg_max_batch :: i32
  cfg_workers :: i32
  cfg_impl :: string
  cfg_margin_mb :: u64
  cfg_metrics_csv :: string
  cfg_min_size :: i32
  cfg_max_size :: i32
  cfg_max_job_batch :: i32
  cfg_priority_levels :: i32
  cfg_http_port :: i32
  cfg_force_cpu :: bool
  cfg_stress :: bool
  cfg_help :: bool

definition default_config :: Config where
  "default_config = \<lparr>cfg_jobs = 0, cfg_arrival_rate = Fin 0, cfg_saturation = False,
     cfg_replay_csv = '''', cfg_max_batch = 8, cfg_workers = 2, cfg_impl = ''tiled'',
     cfg_margin_mb = 256, cfg_metrics_csv = ''scheduler_metrics.csv'', cfg_min_size = 64,
     cfg_max_size = 1024, cfg_max_job_batch = 8, cfg_priority_levels = 4, cfg_http_port = 8080,
     cfg_force_cpu = False, cfg_stress = False, cfg_help = False\<rparr>"

subsection \<open>Options\<close>

type_synonym to_double = "string \<Rightarrow> (double \<times> nat) option"

definition parse_double :: "to_double \<Rightarrow> string \<Rightarrow> string \<Rightarrow> string + double" where
  "parse_double stod name val =
     (let err = Inl (''invalid number for '' @ name @ '': '' @ val)
      in case stod val of None \<Rightarrow> err | Some (v, pos) \<Rightarrow> if pos \<noteq> length val then err else Inr v)"

text \<open>One turn of the loop; the state is the configuration and \<open>arrival_rate_given\<close>.\<close>

definition daemon_arg ::
    "to_double \<Rightarrow> string \<Rightarrow> string list \<Rightarrow> Config \<times> bool \<Rightarrow> string + ((Config \<times> bool) \<times> nat)" where
  "daemon_arg stod arg rest cg = (let cfg = fst cg; given = snd cg in
     if arg = ''--help'' \<or> arg = ''-h'' then Inr ((cfg\<lparr>cfg_help := True\<rparr>, given), 0)
     else if is_option ''--jobs'' arg then
       with_value parse_u64 ''--jobs'' arg rest (\<lambda>v. (cfg\<lparr>cfg_jobs := v\<rparr>, given))
     else if is_option ''--arrival-rate'' arg then
       with_value (parse_double stod) ''--arrival-rate'' arg rest (\<lambda>v. (cfg\<lparr>cfg_arrival_rate := v\<rparr>, True))
     else if arg = ''--saturation'' then Inr ((cfg\<lparr>cfg_saturation := True\<rparr>, given), 0)
     else if is_option ''--replay'' arg then
       with_value parse_string ''--replay'' arg rest (\<lambda>v. (cfg\<lparr>cfg_replay_csv := v\<rparr>, given))
     else if is_option ''--max-batch'' arg then
       with_value parse_int ''--max-batch'' arg rest (\<lambda>v. (cfg\<lparr>cfg_max_batch := v\<rparr>, given))
     else if is_option ''--workers'' arg then
       with_value parse_int ''--workers'' arg rest (\<lambda>v. (cfg\<lparr>cfg_workers := v\<rparr>, given))
     else if is_option ''--impl'' arg then
       with_value parse_string ''--impl'' arg rest (\<lambda>v. (cfg\<lparr>cfg_impl := v\<rparr>, given))
     else if is_option ''--margin-mb'' arg then
       with_value parse_u64 ''--margin-mb'' arg rest (\<lambda>v. (cfg\<lparr>cfg_margin_mb := v\<rparr>, given))
     else if is_option ''--metrics-csv'' arg then
       with_value parse_string ''--metrics-csv'' arg rest (\<lambda>v. (cfg\<lparr>cfg_metrics_csv := v\<rparr>, given))
     else if is_option ''--min-size'' arg then
       with_value parse_int ''--min-size'' arg rest (\<lambda>v. (cfg\<lparr>cfg_min_size := v\<rparr>, given))
     else if is_option ''--max-size'' arg then
       with_value parse_int ''--max-size'' arg rest (\<lambda>v. (cfg\<lparr>cfg_max_size := v\<rparr>, given))
     else if is_option ''--job-batch-max'' arg then
       with_value parse_int ''--job-batch-max'' arg rest (\<lambda>v. (cfg\<lparr>cfg_max_job_batch := v\<rparr>, given))
     else if is_option ''--http-port'' arg then
       with_value parse_int ''--http-port'' arg rest (\<lambda>v. (cfg\<lparr>cfg_http_port := v\<rparr>, given))
     else if arg = ''--force-cpu'' then Inr ((cfg\<lparr>cfg_force_cpu := True\<rparr>, given), 0)
     else if arg = ''--stress'' then Inr ((cfg\<lparr>cfg_stress := True\<rparr>, given), 0)
     else Inl (''unknown argument: '' @ arg))"

text \<open>The checks after the loop.\<close>

definition saturate :: "Config \<Rightarrow> Config" where
  "saturate cfg =
     (if cfg_saturation cfg
      then cfg\<lparr>cfg_arrival_rate := Fin 0, cfg_jobs := (if cfg_jobs cfg = 0 then 1000 else cfg_jobs cfg)\<rparr>
      else cfg)"

definition check_config :: "Config \<Rightarrow> bool \<Rightarrow> string + Config" where
  "check_config cfg0 given =
     (if sint (cfg_max_batch cfg0) \<le> 0 then Inl ''--max-batch must be positive''
      else if sint (cfg_workers cfg0) \<le> 0 then Inl ''--workers must be positive''
      else if cfg_impl cfg0 \<noteq> ''tiled'' \<and> cfg_impl cfg0 \<noteq> ''cublas'' then Inl ''--impl must be tiled|cublas''
      else if below_zero (cfg_arrival_rate cfg0) then Inl ''--arrival-rate must be >= 0''
      else if cfg_saturation cfg0 \<and> given
        then Inl ''use either --saturation or --arrival-rate, not both''
      else if cfg_saturation cfg0 \<and> cfg_replay_csv cfg0 \<noteq> ''''
        then Inl ''--saturation cannot be combined with --replay''
      else if cfg_saturation cfg0 \<and> cfg_stress cfg0
        then Inl ''--saturation cannot be combined with --stress''
      else let cfg = saturate cfg0 in
        if sint (cfg_http_port cfg) < 0 \<or> sint (cfg_http_port cfg) > 65535
          then Inl ''--http-port must be in [0, 65535]''
        else if sint (cfg_min_size cfg) \<le> 0 \<or> sint (cfg_max_size cfg) < sint (cfg_min_size cfg)
          then Inl ''invalid --min-size/--max-size''
        else if cfg_jobs cfg > 0 \<and> cfg_replay_csv cfg \<noteq> ''''
          then Inl ''use either --jobs or --replay, not both''
        else if cfg_stress cfg \<and> cfg_replay_csv cfg \<noteq> ''''
          then Inl ''--stress cannot be combined with --replay''
        else Inr (if cfg_stress cfg \<and> cfg_jobs cfg = 0 then cfg\<lparr>cfg_jobs := 1000\<rparr> else cfg))"

definition parse_args :: "to_double \<Rightarrow> string list \<Rightarrow> string + Config" where
  "parse_args stod args =
     (case parse_loop (daemon_arg stod) args (default_config, False) of
        Inl e \<Rightarrow> Inl e | Inr (cfg, given) \<Rightarrow> check_config cfg given)"

text \<open>The options of the scheduler that \<open>main\<close> builds.\<close>

definition scheduler_options :: "Config \<Rightarrow> Options" where
  "scheduler_options cfg = default_options\<lparr>opt_max_batch := cfg_max_batch cfg,
     num_workers := cfg_workers cfg, impl := cfg_impl cfg,
     safety_margin_bytes := cfg_margin_mb cfg * 1024 * 1024\<rparr>"

subsection \<open>What the options guarantee\<close>

definition config_ok :: "Config \<Rightarrow> bool" where
  "config_ok cfg \<longleftrightarrow> 0 < sint (cfg_max_batch cfg) \<and> 0 < sint (cfg_workers cfg) \<and>
     cfg_impl cfg \<in> {''tiled'', ''cublas''} \<and> \<not> below_zero (cfg_arrival_rate cfg) \<and>
     0 \<le> sint (cfg_http_port cfg) \<and> sint (cfg_http_port cfg) \<le> 65535 \<and>
     0 < sint (cfg_min_size cfg) \<and> sint (cfg_min_size cfg) \<le> sint (cfg_max_size cfg) \<and>
     (cfg_jobs cfg = 0 \<or> cfg_replay_csv cfg = '''') \<and>
     (cfg_saturation cfg \<longrightarrow> cfg_arrival_rate cfg = Fin 0 \<and> \<not> cfg_stress cfg) \<and>
     (cfg_saturation cfg \<or> cfg_stress cfg \<longrightarrow> cfg_jobs cfg \<noteq> 0 \<and> cfg_replay_csv cfg = '''')"

lemma check_config_ok: "check_config cfg given = Inr cfg' \<Longrightarrow> config_ok cfg'"
  by (auto simp: check_config_def saturate_def config_ok_def Let_def word_gt_0 split: if_splits)

lemma daemon_arg_levels:
  "daemon_arg stod arg rest cg = Inr (cg', used) \<Longrightarrow> cfg_priority_levels (fst cg') = cfg_priority_levels (fst cg)"
  by (auto simp: daemon_arg_def with_value_def Let_def split: if_splits sum.splits)

lemma parse_args_levels: "parse_args stod args = Inr cfg \<Longrightarrow> cfg_priority_levels cfg = 4"
proof -
  assume "parse_args stod args = Inr cfg"
  then obtain cg where l: "parse_loop (daemon_arg stod) args (default_config, False) = Inr cg"
    and c: "check_config (fst cg) (snd cg) = Inr cfg" by (auto simp: parse_args_def split: sum.splits)
  have "cfg_priority_levels (fst cg) = 4"
    by (rule parse_loop_invariant [where P = "\<lambda>cg. cfg_priority_levels (fst cg) = 4", OF _ _ l])
      (simp_all add: daemon_arg_levels default_config_def)
  with c show ?thesis by (auto simp: check_config_def saturate_def Let_def split: if_splits)
qed

text \<open>
  C32.  Every configuration that \<open>parse_args\<close> returns is well-formed: at least one worker and one
  job per batch, one of the two implementations, a port that fits, a non-empty range of sizes of
  positive numbers, at most one source of jobs, and with \<open>--saturation\<close> or \<open>--stress\<close> a
  positive number of synthetic jobs; and the options of the scheduler that \<open>main\<close> builds from it
  have at least one worker, at least one job per batch and one of the two implementations.  The
  safety margin is not checked (a margin as large as the memory is C39).
\<close>

theorem parse_args_valid:
  assumes "parse_args stod args = Inr cfg"
  shows "config_ok cfg \<and> cfg_priority_levels cfg = 4 \<and>
    0 < sint (num_workers (scheduler_options cfg)) \<and> 0 < sint (opt_max_batch (scheduler_options cfg)) \<and>
    impl (scheduler_options cfg) \<in> {''tiled'', ''cublas''}"
proof -
  from assms have "config_ok cfg" by (auto simp: parse_args_def split: sum.splits dest: check_config_ok)
  with parse_args_levels [OF assms] show ?thesis by (simp add: config_ok_def scheduler_options_def)
qed

lemma parse_args_none: "parse_args stod [] = Inr default_config"
  by (simp add: parse_args_def check_config_def saturate_def default_config_def)

theorem parse_args_valid_witness:
  "0 < sint (num_workers (scheduler_options default_config))"
  using parse_args_valid [OF parse_args_none] by blast

subsection \<open>The two spellings of an option\<close>

definition daemon_options :: "string list" where
  "daemon_options = [''--jobs'', ''--arrival-rate'', ''--replay'', ''--max-batch'', ''--workers'', ''--impl'',
     ''--margin-mb'', ''--metrics-csv'', ''--min-size'', ''--max-size'', ''--job-batch-max'', ''--http-port'']"

lemma daemon_arg_spellings:
  assumes "joined name v arg" "name \<in> set daemon_options"
  shows "parse_loop (daemon_arg stod) (arg # post) st = parse_loop (daemon_arg stod) (name # v # post) st"
  using assms(2) unfolding daemon_options_def list.set insert_iff empty_iff simp_thms
  by (elim disjE; use assms(1) in \<open>simp add: daemon_arg_def Let_def spelling_rules\<close>)

interpretation daemon: option_parser "daemon_arg stod" for stod
  by unfold_locales (unfold daemon_arg_def [abs_def] Let_def, intro local_rules)

text \<open>
  The two spellings of every option that takes a value are equivalent: \<open>--name=v\<close> and
  \<open>--name v\<close> give the same configuration or the same error, after any arguments that parse and
  before any others, whatever the value is (also when it is empty or looks like an option).
\<close>

theorem option_spellings_equivalent:
  assumes "name \<in> set daemon_options" "parse_loop (daemon_arg stod) pre (default_config, False) = Inr st"
  shows "parse_args stod (pre @ (name @ ''='' @ v) # post) = parse_args stod (pre @ name # v # post)"
proof -
  have "CHR ''='' \<notin> set name" using assms(1) by (auto simp: daemon_options_def)
  then have "joined name v (name @ ''='' @ v)" by (simp add: joined_def)
  from daemon.same_behind [OF assms(2) daemon_arg_spellings [OF this assms(1)]] show ?thesis
    by (simp only: parse_args_def)
qed

theorem option_spellings_equivalent_witness:
  "parse_args (\<lambda>s. None) [''--stress'', ''--workers=3''] = parse_args (\<lambda>s. None) [''--stress'', ''--workers'', ''3'']"
proof -
  have "parse_loop (daemon_arg (\<lambda>s. None)) [''--stress''] (default_config, False) =
      Inr (default_config\<lparr>cfg_stress := True\<rparr>, False)"
    by (simp add: daemon_arg_def is_option_def)
  from option_spellings_equivalent [OF _ this, of "''--workers''" "''3''"]
  show ?thesis by (simp add: daemon_options_def)
qed

subsection \<open>The replay file\<close>

definition job_of_tokens :: "string list \<Rightarrow> string + InferenceJob" where
  "job_of_tokens tok =
     (case parse_u64 ''replay id'' (tok ! 0) of Inl e \<Rightarrow> Inl e | Inr i \<Rightarrow>
      case parse_int ''replay m'' (tok ! 1) of Inl e \<Rightarrow> Inl e | Inr m \<Rightarrow>
      case parse_int ''replay n'' (tok ! 2) of Inl e \<Rightarrow> Inl e | Inr n \<Rightarrow>
      case parse_int ''replay k'' (tok ! 3) of Inl e \<Rightarrow> Inl e | Inr k \<Rightarrow>
      case parse_int ''replay batch'' (tok ! 4) of Inl e \<Rightarrow> Inl e | Inr b \<Rightarrow>
      case parse_int ''replay priority'' (tok ! 5) of Inl e \<Rightarrow> Inl e | Inr p \<Rightarrow>
        Inr (default_job\<lparr>job_id := i, job_m := m, job_n := n, job_k := k, job_batch := b, priority := p\<rparr>))"

text \<open>The lines of the file: an exception, or the value returned and the jobs appended.\<close>

function replay_loop :: "string \<Rightarrow> InferenceJob list \<Rightarrow> string + (bool \<times> InferenceJob list)" where
  "replay_loop content out =
     (case getline (CHR 0x0A) content of
        None \<Rightarrow> Inr (out \<noteq> [], out)
      | Some (line, rest) \<Rightarrow>
          if line = [] \<or> hd line = CHR ''#'' then replay_loop rest out
          else case tokens 6 line of
            None \<Rightarrow> Inr (False, out)
          | Some tok \<Rightarrow>
              if hd tok = ''id'' then replay_loop rest out
              else case job_of_tokens tok of Inl e \<Rightarrow> Inl e | Inr job \<Rightarrow> replay_loop rest (out @ [job]))"
  by pat_completeness auto

termination replay_loop
  by (relation "measure (\<lambda>(content, _). length content)") (auto dest: getline_shorter)

declare replay_loop.simps [simp del]

definition parse_replay :: "string option \<Rightarrow> string + (bool \<times> InferenceJob list)" where
  "parse_replay file = (case file of None \<Rightarrow> Inr (False, []) | Some content \<Rightarrow> replay_loop content [])"

subsection \<open>The synthetic and the stress workload\<close>

text \<open>\<open>uniform a b g\<close> draws from the distribution on \<open>a .. b\<close>; \<open>None\<close> is the undefined
  behaviour of building a distribution with \<open>a > b\<close>.\<close>

type_synonym 'g uniform = "i32 \<Rightarrow> i32 \<Rightarrow> 'g \<Rightarrow> i32 \<times> 'g"

definition draw :: "'g uniform \<Rightarrow> i32 \<Rightarrow> i32 \<Rightarrow> 'g \<Rightarrow> (i32 \<times> 'g) option" where
  "draw uniform a b g = (if sint a \<le> sint b then Some (uniform a b g) else None)"

definition make_job :: "'g uniform \<Rightarrow> u64 \<Rightarrow> Config \<Rightarrow> 'g \<Rightarrow> (InferenceJob \<times> 'g) option" where
  "make_job uniform i cfg g =
     (case draw uniform (cfg_min_size cfg) (cfg_max_size cfg) g of None \<Rightarrow> None | Some (m, g1) \<Rightarrow>
      case draw uniform (cfg_min_size cfg) (cfg_max_size cfg) g1 of None \<Rightarrow> None | Some (n, g2) \<Rightarrow>
      case draw uniform (cfg_min_size cfg) (cfg_max_size cfg) g2 of None \<Rightarrow> None | Some (k, g3) \<Rightarrow>
      case draw uniform 1 (cfg_max_job_batch cfg) g3 of None \<Rightarrow> None | Some (b, g4) \<Rightarrow>
      case draw uniform 0 (cfg_priority_levels cfg - 1) g4 of None \<Rightarrow> None | Some (p, g5) \<Rightarrow>
        Some (default_job\<lparr>job_id := i, job_m := m, job_n := n, job_k := k, job_batch := b, priority := p\<rparr>, g5))"

text \<open>The jobs with the numbers \<open>i + 1, \<dots>, i + n\<close> of the generator loop.\<close>

fun synthetic_jobs :: "'g uniform \<Rightarrow> Config \<Rightarrow> nat \<Rightarrow> nat \<Rightarrow> 'g \<Rightarrow> InferenceJob list option" where
  "synthetic_jobs uniform cfg i 0 g = Some []"
| "synthetic_jobs uniform cfg i (Suc n) g =
     (case make_job uniform (word_of_nat (Suc i)) cfg g of None \<Rightarrow> None
      | Some (job, g') \<Rightarrow> map_option ((#) job) (synthetic_jobs uniform cfg (Suc i) n g'))"

text \<open>The side of the oversized jobs of \<open>--stress\<close>, in exact arithmetic.\<close>

definition stress_side :: "nat \<Rightarrow> i32" where
  "stress_side total_mem =
     (let side = (if total_mem > 0 then word_of_int \<lceil>sqrt (real total_mem / (12 * 8)) * (5 / 4)\<rceil> else 16000)
      in if sint side < 1 then 1 else side)"

definition stress_job :: "i32 \<Rightarrow> u64 \<Rightarrow> InferenceJob" where
  "stress_job side i =
     (let job = default_job\<lparr>job_id := i + 1, priority := 0\<rparr>
      in if sint (ucast i :: i32) < 2
         then job\<lparr>job_m := side, job_n := side, job_k := side, job_batch := 8\<rparr>
         else job\<lparr>job_m := 768, job_n := 768, job_k := 768, job_batch := 8\<rparr>)"

definition stress_jobs :: "nat \<Rightarrow> nat \<Rightarrow> InferenceJob list" where
  "stress_jobs total_mem n = map (\<lambda>i. stress_job (stress_side total_mem) (word_of_nat i)) [0..<n]"

subsection \<open>The decisions of \<open>main\<close>\<close>

datatype start_result = Exit_success | Exit_failure | Serve Config Options "InferenceJob list"

text \<open>Until the scheduler and the status server run: \<open>gpu\<close> is \<open>gpu_present()\<close>, \<open>file\<close> reads a
  path, \<open>bind port\<close> is the answer of \<open>http.start()\<close>.\<close>

definition main_launch ::
    "to_double \<Rightarrow> bool \<Rightarrow> (string \<Rightarrow> string option) \<Rightarrow> (i32 \<Rightarrow> bool) \<Rightarrow> string list \<Rightarrow> start_result" where
  "main_launch stod gpu file bind args =
     (case parse_args stod args of
        Inl e \<Rightarrow> Exit_failure
      | Inr cfg \<Rightarrow>
          if cfg_help cfg then Exit_success
          else if \<not> gpu \<and> \<not> cfg_force_cpu cfg then Exit_failure
          else case (if cfg_replay_csv cfg \<noteq> [] then parse_replay (file (cfg_replay_csv cfg))
                     else Inr (True, [])) of
            Inl e \<Rightarrow> Exit_failure
          | Inr (read, replay_jobs) \<Rightarrow>
              if \<not> read then Exit_failure
              else if sint (cfg_http_port cfg) > 0 \<and> \<not> bind (cfg_http_port cfg) then Exit_failure
              else Serve cfg (scheduler_options cfg) replay_jobs)"

text \<open>The jobs that an uninterrupted run submits (an interrupted one submits the first of them).\<close>

definition workload :: "'g uniform \<Rightarrow> 'g \<Rightarrow> nat \<Rightarrow> Config \<Rightarrow> InferenceJob list \<Rightarrow> InferenceJob list option" where
  "workload uniform g total_mem cfg replay_jobs =
     (if cfg_replay_csv cfg \<noteq> [] then Some replay_jobs
      else if cfg_stress cfg then Some (stress_jobs total_mem (unat (cfg_jobs cfg)))
      else synthetic_jobs uniform cfg 0 (unat (cfg_jobs cfg)) g)"

text \<open>The test of the wait loop.  \<open>main\<close> reads the counters one after the other; here they are read in
  one state.  Once the generator is done \<open>submitted_\<close> does not change and \<open>completed_\<close> only grows.\<close>

definition leaves_wait :: "bool \<Rightarrow> bool \<Rightarrow> 'a sched_scheme \<Rightarrow> bool" where
  "leaves_wait interrupted generator_done s \<longleftrightarrow> interrupted \<or>
     (generator_done \<and> submitted s > 0 \<and> queued s = 0 \<and> completed s \<ge> submitted s)"

subsection \<open>Reading back a replay file\<close>

text \<open>A row of the format \<open>id,m,n,k,batch,priority\<close>.\<close>

definition csv_fields :: "InferenceJob \<Rightarrow> string list" where
  "csv_fields job = [show_nat (unat (job_id job)), to_string (job_m job), to_string (job_n job),
     to_string (job_k job), to_string (job_batch job), to_string (priority job)]"

definition csv_row :: "InferenceJob \<Rightarrow> string" where
  "csv_row job = join_fields (csv_fields job) @ [CHR 0x0A]"

lemma csv_fields_plain:
  "list_all (\<lambda>f. CHR '','' \<notin> set f) (csv_fields job)" "list_all (\<lambda>f. CHR 0x0A \<notin> set f) (csv_fields job)"
  using show_nat_digits digits_plain to_string_plain by (auto simp: csv_fields_def)

lemma replay_row:
  assumes "submit_time job = 0" "seq job = 0"
  shows "replay_loop (csv_row job @ rest) out = replay_loop rest (out @ [job])"
proof -
  let ?id = "show_nat (unat (job_id job))" and ?line = "join_fields (csv_fields job)"
  have line: "getline (CHR 0x0A) (csv_row job @ rest) = Some (?line, rest)"
    using getline_line [OF join_no_newline [OF csv_fields_plain(2)], of job rest] by (simp add: csv_row_def)
  have id: "?id \<noteq> []" "hd ?id \<in> set ?id" "list_all is_digit ?id" using show_nat_digits by simp_all
  have hd_line: "hd ?line = hd ?id" using id(1) by (simp add: csv_fields_def)
  have "?line \<noteq> []" using id(1) by (simp add: csv_fields_def)
  moreover have "hd ?line \<noteq> CHR ''#''" using digits_plain(3) [OF id(3)] id(2) hd_line by metis
  moreover have "tokens 6 ?line = Some (csv_fields job)"
    using tokens_join [OF csv_fields_plain(1), of job] to_string_plain by (simp add: csv_fields_def numeral_eq_Suc)
  moreover have "hd (csv_fields job) \<noteq> ''id''" using digits_plain(4) [OF id(3)] by (auto simp: csv_fields_def)
  moreover have "job_of_tokens (csv_fields job) = Inr job"
    using assms by (simp add: job_of_tokens_def csv_fields_def parse_u64_show to_string_back default_job_def)
  ultimately show ?thesis
    by (subst replay_loop.simps) (simp add: line)
qed

lemma replay_rows:
  "\<forall>job \<in> set jobs. submit_time job = 0 \<and> seq job = 0 \<Longrightarrow>
   replay_loop (concat (map csv_row jobs)) out = Inr (out @ jobs \<noteq> [], out @ jobs)"
proof (induction jobs arbitrary: out)
  case Nil
  then show ?case by (subst replay_loop.simps) (simp add: getline_def)
next
  case (Cons job jobs)
  then show ?case by (simp add: replay_row)
qed

text \<open>
  C33.  Replay files are read back exactly: from the rows of any list of jobs (fresh ones, without
  a time stamp) \<open>parse_replay\<close> recovers the list in its order, and fails only for the empty file.
  No field is checked: a row with negative or zero dimensions, batch or priority is accepted as it
  stands.
\<close>

theorem replay_roundtrip:
  assumes "\<forall>job \<in> set jobs. submit_time job = 0 \<and> seq job = 0"
  shows "parse_replay (Some (concat (map csv_row jobs))) = Inr (jobs \<noteq> [], jobs)"
  using replay_rows [OF assms, of "[]"] by (simp add: parse_replay_def)

theorem replay_roundtrip_witness:
  "parse_replay (Some (csv_row (default_job\<lparr>job_m := - 7, job_batch := 0\<rparr>))) =
   Inr (True, [default_job\<lparr>job_m := - 7, job_batch := 0\<rparr>])"
  using replay_roundtrip [of "[default_job\<lparr>job_m := - 7, job_batch := 0\<rparr>]"] by (simp add: default_job_def)

subsection \<open>The jobs of a run\<close>

text \<open>What the code relies on: the distribution stays in its range.\<close>

definition in_range :: "'g uniform \<Rightarrow> bool" where
  "in_range uniform \<longleftrightarrow> (\<forall>a b g. sint a \<le> sint b \<longrightarrow>
     sint a \<le> sint (fst (uniform a b g)) \<and> sint (fst (uniform a b g)) \<le> sint b)"

definition synthetic_ok :: "Config \<Rightarrow> InferenceJob \<Rightarrow> bool" where
  "synthetic_ok cfg job \<longleftrightarrow>
     (\<forall>d \<in> {job_m job, job_n job, job_k job}. sint (cfg_min_size cfg) \<le> sint d \<and> sint d \<le> sint (cfg_max_size cfg)) \<and>
     1 \<le> sint (job_batch job) \<and> sint (job_batch job) \<le> sint (cfg_max_job_batch cfg) \<and>
     0 \<le> sint (priority job) \<and> sint (priority job) < 4"

lemma draw_in_range:
  "in_range uniform \<Longrightarrow> sint a \<le> sint b \<Longrightarrow>
   \<exists>v g'. draw uniform a b g = Some (v, g') \<and> sint a \<le> sint v \<and> sint v \<le> sint b"
  by (cases "uniform a b g") (auto simp: in_range_def draw_def, metis fst_conv, metis fst_conv)

lemma make_job_ok:
  assumes "in_range uniform" "config_ok cfg" "cfg_priority_levels cfg = 4" "1 \<le> sint (cfg_max_job_batch cfg)"
  shows "\<exists>job g'. make_job uniform i cfg g = Some (job, g') \<and> synthetic_ok cfg job \<and> job_id job = i"
proof -
  let ?lo = "cfg_min_size cfg" and ?hi = "cfg_max_size cfg"
  have size: "sint ?lo \<le> sint ?hi" using assms(2) by (simp add: config_ok_def)
  obtain m g1 where m: "draw uniform ?lo ?hi g = Some (m, g1)" "sint ?lo \<le> sint m" "sint m \<le> sint ?hi"
    using draw_in_range [OF assms(1) size] by blast
  obtain n g2 where n: "draw uniform ?lo ?hi g1 = Some (n, g2)" "sint ?lo \<le> sint n" "sint n \<le> sint ?hi"
    using draw_in_range [OF assms(1) size] by blast
  obtain k g3 where k: "draw uniform ?lo ?hi g2 = Some (k, g3)" "sint ?lo \<le> sint k" "sint k \<le> sint ?hi"
    using draw_in_range [OF assms(1) size] by blast
  have "sint (1 :: i32) \<le> sint (cfg_max_job_batch cfg)" using assms(4) by simp
  from draw_in_range [OF assms(1) this, of g3] obtain b g4
    where b: "draw uniform 1 (cfg_max_job_batch cfg) g3 = Some (b, g4)" "1 \<le> sint b" "sint b \<le> sint (cfg_max_job_batch cfg)"
    by auto
  have "sint (0 :: i32) \<le> sint (cfg_priority_levels cfg - 1)" using assms(3) by simp
  from draw_in_range [OF assms(1) this, of g4] obtain p g5
    where p: "draw uniform 0 (cfg_priority_levels cfg - 1) g4 = Some (p, g5)" "0 \<le> sint p" "sint p \<le> 3"
    using assms(3) by (auto simp: draw_def in_range_def)
  show ?thesis using m n k b p by (simp add: make_job_def synthetic_ok_def)
qed

text \<open>
  The synthetic workload of a parsed configuration, for \<open>--job-batch-max\<close> at least 1: the
  requested number of jobs, numbered from 1, every dimension within \<open>--min-size\<close> and
  \<open>--max-size\<close>, a positive internal batch within \<open>--job-batch-max\<close>, and a priority in
  \<open>0 .. 3\<close>.  \<open>--job-batch-max\<close> itself is not checked: below 1, no job can be made (the
  distribution on \<open>1 .. max\<close> is undefined).
\<close>

theorem synthetic_workload:
  assumes "in_range uniform" "parse_args stod args = Inr cfg"
  shows "if 1 \<le> sint (cfg_max_job_batch cfg)
    then \<exists>jobs. synthetic_jobs uniform cfg 0 n g = Some jobs \<and> length jobs = n \<and> list_all (synthetic_ok cfg) jobs \<and>
      list_all valid_job jobs \<and> map job_id jobs = map word_of_nat [1..<Suc n]
    else 0 < n \<longrightarrow> synthetic_jobs uniform cfg 0 n g = None"
proof (cases "1 \<le> sint (cfg_max_job_batch cfg)")
  case True
  have ok: "config_ok cfg" "cfg_priority_levels cfg = 4" 
    using assms(2) parse_args_levels by (auto simp: parse_args_def split: sum.splits dest: check_config_ok)
  have "\<exists>jobs. synthetic_jobs uniform cfg i n g = Some jobs \<and> length jobs = n \<and> list_all (synthetic_ok cfg) jobs \<and>
      map job_id jobs = map word_of_nat [Suc i..<Suc i + n]" for i
  proof (induction n arbitrary: i g)
    case (Suc n)
    obtain job g' where j: "make_job uniform (word_of_nat (Suc i)) cfg g = Some (job, g')" "synthetic_ok cfg job"
      "job_id job = word_of_nat (Suc i)"
      using make_job_ok [OF assms(1) ok True] by blast
    obtain jobs where "synthetic_jobs uniform cfg (Suc i) n g' = Some jobs" "length jobs = n" "list_all (synthetic_ok cfg) jobs"
      "map job_id jobs = map word_of_nat [Suc (Suc i)..<Suc (Suc i) + n]" using Suc.IH by blast
    moreover have "[Suc i..<Suc i + Suc n] = Suc i # [Suc (Suc i)..<Suc (Suc i) + n]"
      by (simp add: upt_conv_Cons del: upt_Suc)
    ultimately show ?case using j by simp
  qed simp
  from this [of 0] obtain jobs where jobs: "synthetic_jobs uniform cfg 0 n g = Some jobs" "length jobs = n"
    "list_all (synthetic_ok cfg) jobs" "map job_id jobs = map word_of_nat [1..<Suc n]" by auto
  moreover have "list_all valid_job jobs"
    using jobs(3) ok(1) by (auto simp: list_all_iff synthetic_ok_def valid_job_def config_ok_def)
  ultimately show ?thesis using True by simp
next
  case False
  then have "draw uniform 1 (cfg_max_job_batch cfg) h = None" for h by (simp add: draw_def)
  then have none: "make_job uniform i cfg h = None" for i h
    by (auto simp: make_job_def split: option.split prod.split)
  have "0 < n \<longrightarrow> synthetic_jobs uniform cfg 0 n g = None"
    by (cases n) (simp_all add: none)
  with False show ?thesis by simp
qed

theorem synthetic_workload_witness:
  "\<exists>jobs. synthetic_jobs (\<lambda>a b g. (a, g)) default_config 0 3 () = Some jobs \<and> length jobs = 3"
proof -
  have "in_range (\<lambda>a b (g :: unit). (a, g))" by (simp add: in_range_def)
  from synthetic_workload [OF this parse_args_none, of 3 "()"] show ?thesis
    by (auto simp: default_config_def)
qed

subsection \<open>The stress workload\<close>

lemma sint_small: "0 \<le> c \<Longrightarrow> c < 2 ^ 31 \<Longrightarrow> sint (word_of_int c :: i32) = c"
  by (simp add: sint_uint uint_word_of_int signed_take_bit_int_eq_self take_bit_int_eq_self)

lemma small_index: "k < 2 ^ 31 \<Longrightarrow> sint (ucast (word_of_nat k :: u64) :: i32) = int k"
proof -
  assume k: "k < 2 ^ 31"
  have "ucast (word_of_nat k :: u64) = (word_of_int (int k) :: i32)" by transfer simp
  moreover have "sint (word_of_int (int k) :: i32) = int k" by (rule sint_small) (use k in simp_all)
  ultimately show ?thesis by simp
qed

lemma stress_side_bounds:
  assumes "0 < mem" "mem < 2 ^ 50"
  shows "0 < sint (stress_side mem)" "25 * mem \<le> 1536 * (dim (stress_side mem) * dim (stress_side mem))"
    "dim (stress_side mem) < 2 ^ 24"
proof -
  define r where "r = sqrt (real mem / (12 * 8)) * (5 / 4)"
  have pos: "0 < r" using assms(1) by (simp add: r_def)
  define q where "q = real mem / (12 * 8)"
  have "r * r = (sqrt q * sqrt q) * (25 / 16)" by (simp add: r_def q_def)
  then have sq: "r * r = real mem * 25 / 1536" by (simp add: q_def)
  have "r * r < 2 ^ 23 * 2 ^ 23" using assms(2) sq by (simp add: field_simps)
  then have small: "r < 2 ^ 23" by (metis mult_mono' not_le pos less_imp_le zero_le_numeral zero_le_power)
  define c where "c = \<lceil>r\<rceil>"
  have c: "0 < c" "c < 2 ^ 24" "r \<le> real_of_int c"
    using pos small by (simp_all add: c_def)
  have s: "sint (word_of_int c :: i32) = c"
    by (rule sint_small) (use c in simp_all)
  have side: "stress_side mem = word_of_int c"
    using assms(1) c(1) s by (simp add: stress_side_def c_def r_def Let_def)
  show "0 < sint (stress_side mem)" by (simp add: side s c)
  have d: "dim (stress_side mem) = nat c" by (simp add: dim_def side s)
  show "dim (stress_side mem) < 2 ^ 24" using c d by (simp add: nat_less_iff)
  have "real mem * 25 / 1536 \<le> real_of_int c * real_of_int c"
    using c(3) pos by (simp flip: sq) (intro mult_mono; simp)
  then have "real (25 * mem) \<le> real (1536 * (nat c * nat c))" using c(1) by simp
  then show "25 * mem \<le> 1536 * (dim (stress_side mem) * dim (stress_side mem))"
    unfolding d by (simp only: of_nat_le_iff)
qed

text \<open>
  On a GPU with less than \<open>2 ^ 50\<close> bytes the two oversized jobs of \<open>--stress\<close> need at
  least \<open>1.5625\<close> times the memory of the device (the comment speaks of about \<open>1.25\<close> times), so
  the dispatcher rejects them, whatever the margin below the device memory; the bulk jobs need
  56623104 bytes.
\<close>

theorem stress_jobs_oversized:
  assumes "0 < mem" "mem < 2 ^ 50" "i < 2" "2 \<le> k" "k < 2 ^ 31"
    and "total_mem_bytes s = word_of_nat mem" "safety_margin_bytes opts < word_of_nat mem"
    and "big = stress_job (stress_side mem) (word_of_nat i)" "bulk = stress_job (stress_side mem) (word_of_nat k)"
  shows "valid_job big \<and> 25 * mem \<le> 16 * unat (bytes_required big) \<and> unat (bytes_required bulk) = 56623104 \<and>
    reject_oversized opts [big] s = ([], fail_batch [big] (s\<lparr>rejected_jobs := rejected_jobs s + 1\<rparr>))"
proof -
  let ?d = "dim (stress_side mem)"
  note side = stress_side_bounds [OF assms(1,2)]
  have i: "sint (ucast (word_of_nat i :: u64) :: i32) < 2" using small_index [of i] assms(3) by simp
  have big: "job_m big = stress_side mem" "job_n big = stress_side mem" "job_k big = stress_side mem" "job_batch big = 8"
    using i by (simp_all add: assms(8) stress_job_def Let_def)
  have v: "valid_job big" using side(1) by (simp add: valid_job_def big)
  have jb: "job_bytes big = 96 * (?d * ?d)" by (simp add: job_bytes_def big dim_def)
  have "?d * ?d < 2 ^ 24 * 2 ^ 24" using side(3) by (intro mult_strict_mono) simp_all
  then have b: "unat (bytes_required big) = 96 * (?d * ?d)" using unat_bytes_required [OF v] jb by simp
  have ge: "25 * mem \<le> 16 * unat (bytes_required big)" using side(2) b by simp
  have ut: "unat (word_of_nat mem :: size_t) = mem"
    using assms(2) by (simp add: unsigned_of_nat take_bit_nat_eq_self)
  have max: "max_job_bytes opts s = word_of_nat mem - safety_margin_bytes opts" "max_job_bytes opts s > 0"
    using assms(1,6,7) ut by (auto simp: max_job_bytes_def word_less_nat_alt unat_sub word_le_nat_alt unat_eq_zero)
  have "unat (max_job_bytes opts s) \<le> mem"
    using assms(7) ut by (simp add: max(1) unat_sub word_le_nat_alt word_less_nat_alt)
  then have "bytes_required big > max_job_bytes opts s" using ge assms(1) by (simp add: word_less_nat_alt)
  then have rej: "reject_oversized opts [big] s = ([], fail_batch [big] (s\<lparr>rejected_jobs := rejected_jobs s + 1\<rparr>))"
    using max(2) by (simp add: reject_oversized_def Let_def)
  have "sint (ucast (word_of_nat k :: u64) :: i32) = int k" by (rule small_index [OF assms(5)])
  then have "bytes_required bulk = 56623104"
    using assms(4) by (simp add: assms(9) stress_job_def bytes_required_def size_of_int_def Let_def)
  then show ?thesis using v ge rej by simp
qed

theorem stress_jobs_oversized_witness:
  "unat (bytes_required (stress_job (stress_side 98304) 2)) = 56623104 \<and>
   fst (reject_oversized (default_options\<lparr>safety_margin_bytes := 0\<rparr>) [stress_job (stress_side 98304) 1]
     (new_sched\<lparr>total_mem_bytes := 98304\<rparr>)) = []"
  using stress_jobs_oversized [of 98304 1 2 "new_sched\<lparr>total_mem_bytes := 98304\<rparr>"
      "default_options\<lparr>safety_margin_bytes := 0\<rparr>"] by simp

subsection \<open>The end of a run\<close>

text \<open>
  C13.  The exit test of \<open>main\<close> is right: once the generator is done and all its calls of
  \<open>submit\<close> have returned, the wait ends without an interrupt exactly when at least one job was
  submitted, no job is in flight and no worker still has to count; then every submitted job has
  been reported exactly once, so \<open>stop\<close> drops nothing.
\<close>

theorem main_exit_test_sound:
  assumes "reach opts cap jobs s" "length jobs < 2 ^ 64" "counting s = 0"
  shows "(leaves_wait False True s \<longleftrightarrow> jobs \<noteq> [] \<and> in_flight s = {#} \<and> wsum uncounted s = 0) \<and>
    (leaves_wait False True s \<longrightarrow> mset (map m_tag (metrics s)) = mset (map job_tag jobs) \<and>
      unat (completed s) = length jobs) \<and> (\<not> leaves_wait False False s)"
proof -
  note n = reach_numbers [OF assms]
  have pos: "0 < submitted s \<longleftrightarrow> jobs \<noteq> []" and q: "queued s = 0 \<longleftrightarrow> queue s = []"
    and le: "submitted s \<le> completed s \<longleftrightarrow> length jobs \<le> length (metrics s) - wsum uncounted s"
    using n by (simp_all add: word_less_nat_alt word_le_nat_alt unat_eq_zero [symmetric])
  have fin: "length jobs \<le> length (metrics s) - wsum uncounted s \<longleftrightarrow> in_flight s = {#} \<and> wsum uncounted s = 0"
  proof
    assume "length jobs \<le> length (metrics s) - wsum uncounted s"
    then have "size (in_flight s) = 0" "wsum uncounted s = 0" using n(3,4) by linarith+
    then show "in_flight s = {#} \<and> wsum uncounted s = 0" by simp
  next
    assume "in_flight s = {#} \<and> wsum uncounted s = 0"
    then show "length jobs \<le> length (metrics s) - wsum uncounted s" using n(4) by simp
  qed
  have empty: "in_flight s = {#} \<Longrightarrow> queue s = []" using n(6) by simp
  show ?thesis
    using pos q le fin empty n(2,4) reach_conserves [OF assms(1)] by (auto simp: leaves_wait_def)
qed

theorem main_exit_test_sound_witness: "leaves_wait False True served \<and> in_flight served = {#}"
proof -
  have "leaves_wait False True served"
    using served_facts by (simp add: leaves_wait_def queued_def)
  with main_exit_test_sound [OF served_reach _ served_facts(3)] show ?thesis by simp
qed

lemma replay_loop_true: "replay_loop content out \<noteq> Inr (True, [])"
proof (induction content out rule: replay_loop.induct)
  case (1 content out)
  show ?case
  proof (cases "getline (CHR 0x0A) content")
    case None
    then show ?thesis by (subst replay_loop.simps) auto
  next
    case (Some lr)
    obtain line rest where lr: "lr = (line, rest)" by fastforce
    note IH = 1 [OF Some lr [symmetric]]
    from IH show ?thesis
      by (subst replay_loop.simps) (simp add: Some lr split: option.split sum.split)
  qed
qed

text \<open>
  The start of the daemon: it serves only with a well-formed configuration that does not ask
  for help, on a machine with a GPU or with \<open>--force-cpu\<close>, with a bound port unless the status
  server is disabled, with the scheduler options of the configuration, and with the jobs of the
  replay file exactly when one is given, which must then have at least one.  Every error of the
  command line or of the replay file ends it with a failure before any thread is started.
\<close>

theorem main_launch_checked:
  assumes "main_launch stod gpu file bind args = Serve cfg opts jobs"
  shows "config_ok cfg \<and> \<not> cfg_help cfg \<and> (gpu \<or> cfg_force_cpu cfg) \<and>
    (cfg_http_port cfg = 0 \<or> bind (cfg_http_port cfg)) \<and> opts = scheduler_options cfg \<and>
    (if cfg_replay_csv cfg = [] then jobs = []
     else jobs \<noteq> [] \<and> cfg_jobs cfg = 0 \<and> (\<exists>content. file (cfg_replay_csv cfg) = Some content \<and> replay_loop content [] = Inr (True, jobs)))"
proof -
  from assms obtain read where p: "parse_args stod args = Inr cfg"
    and h: "\<not> cfg_help cfg" "gpu \<or> cfg_force_cpu cfg"
    and r: "(if cfg_replay_csv cfg \<noteq> [] then parse_replay (file (cfg_replay_csv cfg)) else Inr (True, [])) = Inr (read, jobs)"
    and b: "read" "sint (cfg_http_port cfg) > 0 \<longrightarrow> bind (cfg_http_port cfg)" and o: "opts = scheduler_options cfg"
    by (auto simp: main_launch_def split: sum.splits if_splits)
  have ok: "config_ok cfg" using p by (auto simp: parse_args_def split: sum.splits dest: check_config_ok)
  have "0 \<le> sint (cfg_http_port cfg)" using ok by (simp add: config_ok_def)
  then have port: "cfg_http_port cfg = 0 \<or> sint (cfg_http_port cfg) > 0"
    by (cases "sint (cfg_http_port cfg) = 0") (auto dest: iffD1 [OF signed_eq_0_iff])
  show ?thesis
  proof (cases "cfg_replay_csv cfg = []")
    case True
    with ok h b o r port show ?thesis by auto
  next
    case False
    with r b(1) obtain content where c: "file (cfg_replay_csv cfg) = Some content" "replay_loop content [] = Inr (True, jobs)"
      by (auto simp: parse_replay_def split: option.splits)
    have "cfg_jobs cfg = 0" using ok False by (simp add: config_ok_def)
    with False ok h b o c replay_loop_true [of content "[]"] port show ?thesis by auto
  qed
qed

theorem main_launch_checked_witness:
  "config_ok (default_config\<lparr>cfg_replay_csv := ''r''\<rparr>)"
proof -
  let ?file = "\<lambda>p. Some (csv_row default_job)" and ?cfg = "default_config\<lparr>cfg_replay_csv := ''r''\<rparr>"
  have "parse_replay (?file ''r'') = Inr (True, [default_job])"
    using replay_rows [of "[default_job]" "[]"] by (simp add: parse_replay_def default_job_def)
  moreover have "parse_loop (daemon_arg (\<lambda>s. None)) [''--replay'', ''r''] (default_config, False) = Inr (?cfg, False)"
    by (simp add: daemon_arg_def Let_def is_option_name with_value_def option_value_apart parse_string_def)
  moreover have "check_config ?cfg False = Inr ?cfg"
    by (simp add: check_config_def saturate_def default_config_def)
  moreover have "\<not> cfg_help ?cfg" "cfg_replay_csv ?cfg = ''r''" by (simp_all add: default_config_def)
  ultimately have "main_launch (\<lambda>s. None) True ?file (\<lambda>p. True) [''--replay'', ''r''] =
      Serve ?cfg (scheduler_options ?cfg) [default_job]"
    by (simp add: main_launch_def parse_args_def)
  from main_launch_checked [OF this] show ?thesis by simp
qed

end
