(* ===== verification/BenchOverlap.thy ===== *)
theory BenchOverlap
  imports Pipeline CommandLine
begin

section \<open>The overlap benchmark (src/bench/bench_overlap.cpp)\<close>

text \<open>
  The options and shapes of \<open>bench_overlap\<close>, the issue orders of its four configurations as
  lists of commands over the happens-before relation of \<open>Pipeline\<close>, and what it computes from
  the measured times.  The times that events and clocks show are parameters.
\<close>

record Shape =
  sh_batch :: i32
  sh_m :: i32
  sh_n :: i32
  sh_k :: i32

record overlap_options =
  bo_shapes :: "Shape list"
  bo_jobs :: i32
  bo_reps :: i32
  bo_warmup :: i32
  bo_impl :: string
  bo_help :: bool

definition default_overlap :: overlap_options where
  "default_overlap = \<lparr>bo_shapes = [\<lparr>sh_batch = 8, sh_m = 512, sh_n = 512, sh_k = 512\<rparr>,
       \<lparr>sh_batch = 8, sh_m = 1024, sh_n = 1024, sh_k = 1024\<rparr>],
     bo_jobs = 20, bo_reps = 5, bo_warmup = 2, bo_impl = ''tiled'', bo_help = False\<rparr>"

subsection \<open>Shapes\<close>

text \<open>The loop of \<open>parse_shape\<close>: the numbers between the \<open>x\<close>, \<open>None\<close> when \<open>std::stoi\<close>
  throws.\<close>

function shape_numbers :: "string \<Rightarrow> i32 list option" where
  "shape_numbers s =
     (if s = [] then Some []
      else case stoi (takeWhile (\<lambda>c. c \<noteq> CHR ''x'') s) of None \<Rightarrow> None
        | Some (v, _) \<Rightarrow>
            let r = dropWhile (\<lambda>c. c \<noteq> CHR ''x'') s
            in if r = [] then Some [v] else map_option ((#) v) (shape_numbers (tl r)))"
  by pat_completeness auto

termination shape_numbers
proof (relation "measure length")
  fix s :: string and x v p r
  assume r: "r = dropWhile (\<lambda>c. c \<noteq> CHR ''x'') s" "r \<noteq> []"
  have "length r \<le> length s" unfolding r(1) by (rule length_dropWhile_le)
  with r(2) show "(tl r, s) \<in> measure length" by (cases r) simp_all
qed simp

declare shape_numbers.simps [simp del]

definition parse_shape :: "string \<Rightarrow> string + Shape" where
  "parse_shape text =
     (case shape_numbers text of None \<Rightarrow> Inl ''stoi''
      | Some v \<Rightarrow>
          if length v \<noteq> 4 then Inl (''shape must be BxMxNxK: '' @ text)
          else Inr \<lparr>sh_batch = v ! 0, sh_m = v ! 1, sh_n = v ! 2, sh_k = v ! 3\<rparr>)"

definition shape_label :: "Shape \<Rightarrow> string" where
  "shape_label s = to_string (sh_batch s) @ ''x'' @ to_string (sh_m s) @ ''x'' @ to_string (sh_n s) @ ''x'' @
     to_string (sh_k s)"

subsection \<open>Options\<close>

text \<open>\<open>std::stoi(value(name))\<close>: what follows the number is ignored.\<close>

definition plain_stoi :: "string \<Rightarrow> string \<Rightarrow> string + i32" where
  "plain_stoi name val = (case stoi val of None \<Rightarrow> Inl ''stoi'' | Some (v, _) \<Rightarrow> Inr v)"

definition overlap_arg ::
    "string \<Rightarrow> string list \<Rightarrow> overlap_options \<Rightarrow> string + (overlap_options \<times> nat)" where
  "overlap_arg arg rest opt =
     (if arg = ''--help'' \<or> arg = ''-h'' then Inr (opt\<lparr>bo_help := True\<rparr>, 0)
      else if is_option ''--shape'' arg then
        (let opt' = (if arg = ''--shape'' then opt\<lparr>bo_shapes := []\<rparr> else opt)
         in with_value (\<lambda>_. parse_shape) ''--shape'' arg rest (\<lambda>v. opt'\<lparr>bo_shapes := bo_shapes opt' @ [v]\<rparr>))
      else if is_option ''--jobs'' arg then with_value plain_stoi ''--jobs'' arg rest (\<lambda>v. opt\<lparr>bo_jobs := v\<rparr>)
      else if is_option ''--reps'' arg then with_value plain_stoi ''--reps'' arg rest (\<lambda>v. opt\<lparr>bo_reps := v\<rparr>)
      else if is_option ''--warmup'' arg then with_value plain_stoi ''--warmup'' arg rest (\<lambda>v. opt\<lparr>bo_warmup := v\<rparr>)
      else if is_option ''--impl'' arg then with_value parse_string ''--impl'' arg rest (\<lambda>v. opt\<lparr>bo_impl := v\<rparr>)
      else Inl (''unknown argument: '' @ arg))"

definition overlap_args :: "string list \<Rightarrow> string + overlap_options" where
  "overlap_args args =
     (case parse_loop overlap_arg args default_overlap of Inl e \<Rightarrow> Inl e
      | Inr opt \<Rightarrow>
          if sint (bo_jobs opt) \<le> 0 \<or> sint (bo_reps opt) \<le> 0 \<or> sint (bo_warmup opt) < 0
            then Inl ''invalid --jobs/--reps/--warmup''
          else if bo_impl opt \<noteq> ''tiled'' \<and> bo_impl opt \<noteq> ''cublas'' then Inl ''--impl must be tiled|cublas''
          else Inr opt)"

interpretation overlap: option_parser overlap_arg
  by unfold_locales (unfold overlap_arg_def [abs_def] Let_def, intro local_rules)

subsection \<open>The issue orders\<close>

text \<open>\<open>run_pageable\<close>: every command on the default stream; \<open>cudaMemcpy\<close> also holds the host.\<close>

definition pageable_block :: "nat \<Rightarrow> cmd list" where
  "pageable_block i = [Enqueue DefaultStream (CopyA i), Enqueue DefaultStream (CopyB i),
     Record (ev_k0 i) DefaultStream, Enqueue DefaultStream (Kernel i), Record (ev_k1 i) DefaultStream,
     Sync (ev_k1 i), Enqueue DefaultStream (CopyC i)]"

definition pageable_cmds :: "nat \<Rightarrow> cmd list" where
  "pageable_cmds n = blocks pageable_block n"

text \<open>\<open>run_pinned_single\<close>.\<close>

definition single_block :: "nat \<Rightarrow> cmd list" where
  "single_block i = [Record (ev_c0 i) DefaultStream, Enqueue DefaultStream (CopyA i),
     Enqueue DefaultStream (CopyB i), Record (ev_c1 i) DefaultStream, Record (ev_k0 i) DefaultStream,
     Enqueue DefaultStream (Kernel i), Record (ev_k1 i) DefaultStream, Record (ev_d0 i) DefaultStream,
     Enqueue DefaultStream (CopyC i), Record (ev_d1 i) DefaultStream]"

definition single_cmds :: "nat \<Rightarrow> cmd list" where
  "single_cmds n = [Record ev_start DefaultStream] @ blocks single_block n @
     [Record ev_end DefaultStream, Sync ev_end]"

text \<open>\<open>run_pinned_overlap\<close>.\<close>

definition overlap_block :: "nat \<Rightarrow> cmd list" where
  "overlap_block i = [Record (ev_c0 i) CopyStream, Enqueue CopyStream (CopyA i), Enqueue CopyStream (CopyB i),
     Record (ev_c1 i) CopyStream, Record ev_h2d CopyStream, Wait ComputeStream ev_h2d,
     Record (ev_k0 i) ComputeStream, Enqueue ComputeStream (Kernel i), Record (ev_k1 i) ComputeStream,
     Record ev_kern ComputeStream, Wait CopyStream ev_kern,
     Record (ev_d0 i) CopyStream, Enqueue CopyStream (CopyC i), Record (ev_d1 i) CopyStream]"

definition overlap_cmds :: "nat \<Rightarrow> cmd list" where
  "overlap_cmds n = [Record ev_start CopyStream] @ blocks overlap_block n @
     [Record ev_end CopyStream, Sync ev_end]"

text \<open>\<open>run_pinned_double_buffer\<close>.\<close>

definition bench_h2d :: "nat \<Rightarrow> cmd list" where
  "bench_h2d i = [Record (ev_c0 i) H2DStream, Enqueue H2DStream (CopyA i), Enqueue H2DStream (CopyB i),
     Record (ev_c1 i) H2DStream]"

definition bench_job :: "nat \<Rightarrow> cmd list" where
  "bench_job i = [Wait ComputeStream (ev_c1 i), Record (ev_k0 i) ComputeStream,
     Enqueue ComputeStream (Kernel i), Record (ev_k1 i) ComputeStream,
     Wait D2HStream (ev_k1 i), Record (ev_d0 i) D2HStream, Enqueue D2HStream (CopyC i),
     Record (ev_d1 i) D2HStream]"

definition double_turn :: "nat \<Rightarrow> nat \<Rightarrow> cmd list" where
  "double_turn n i = bench_job i @ (if i + 1 < n then bench_h2d (i + 1) else [])"

definition double_cmds :: "nat \<Rightarrow> cmd list" where
  "double_cmds n = [Record ev_start H2DStream] @ bench_h2d 0 @ concat (map (double_turn n) [0..<n]) @
     [Record ev_end D2HStream, Sync ev_end]"

subsection \<open>Medians\<close>

definition median :: "rat list \<Rightarrow> rat" where
  "median values =
     (let v = sort values; mid = length v div 2
      in if length v mod 2 = 1 then v ! mid else 1 / 2 * (v ! (mid - 1) + v ! mid))"

record Result =
  h2d_ms :: rat
  kernel_ms :: rat
  d2h_ms :: rat
  total_ms :: rat

text \<open>The sums of one timed sequence, from what \<open>cudaEventElapsedTime\<close> shows.\<close>

definition event_sums :: "nat \<Rightarrow> (event \<Rightarrow> event \<Rightarrow> rat) \<Rightarrow> Result" where
  "event_sums n elapsed_ms = \<lparr>h2d_ms = (\<Sum>i \<leftarrow> [0..<n]. elapsed_ms (ev_c0 i) (ev_c1 i)),
     kernel_ms = (\<Sum>i \<leftarrow> [0..<n]. elapsed_ms (ev_k0 i) (ev_k1 i)),
     d2h_ms = (\<Sum>i \<leftarrow> [0..<n]. elapsed_ms (ev_d0 i) (ev_d1 i)), total_ms = elapsed_ms ev_start ev_end\<rparr>"

text \<open>The four configurations share the rest: the sequences after the warm-up count.\<close>

definition per_job :: "nat \<Rightarrow> nat \<Rightarrow> nat \<Rightarrow> (nat \<Rightarrow> Result) \<Rightarrow> Result" where
  "per_job warmup reps n seq_of =
     (let kept = map seq_of (filter (\<lambda>rep. rep \<ge> warmup) [0..<warmup + reps])
      in \<lparr>h2d_ms = median (map h2d_ms kept) / of_nat n, kernel_ms = median (map kernel_ms kept) / of_nat n,
          d2h_ms = median (map d2h_ms kept) / of_nat n, total_ms = median (map total_ms kept) / of_nat n\<rparr>)"

text \<open>The four functions.  \<open>elapsed rep L\<close> is what \<open>cudaEventElapsedTime\<close> shows in sequence
  \<open>rep\<close> after the device has run \<open>L\<close>; for the pageable one \<open>host rep\<close> holds the times of the
  jobs (copies in, kernel, copy out), the copies by the clock of the host, and the wall time.\<close>

definition nat_of :: "i32 \<Rightarrow> nat" where
  "nat_of x = nat (sint x)"

definition timed_run :: "overlap_options \<Rightarrow> (nat \<Rightarrow> Result) \<Rightarrow> Result" where
  "timed_run opt seq_of = per_job (nat_of (bo_warmup opt)) (nat_of (bo_reps opt)) (nat_of (bo_jobs opt)) seq_of"

definition run_pageable :: "overlap_options \<Rightarrow> (nat \<Rightarrow> (rat \<times> rat \<times> rat) list \<times> rat) \<Rightarrow> Result" where
  "run_pageable opt host = timed_run opt (\<lambda>rep. case host rep of (jobs, wall) \<Rightarrow>
     \<lparr>h2d_ms = sum_list (map fst jobs), kernel_ms = sum_list (map (fst \<circ> snd) jobs),
      d2h_ms = sum_list (map (snd \<circ> snd) jobs), total_ms = wall\<rparr>)"

type_synonym elapsed = "nat \<Rightarrow> cmd list \<Rightarrow> event \<Rightarrow> event \<Rightarrow> rat"

definition run_pinned_single :: "overlap_options \<Rightarrow> elapsed \<Rightarrow> Result" where
  "run_pinned_single opt elapsed =
     (let n = nat_of (bo_jobs opt) in timed_run opt (\<lambda>rep. event_sums n (elapsed rep (single_cmds n))))"

definition run_pinned_overlap :: "overlap_options \<Rightarrow> elapsed \<Rightarrow> Result" where
  "run_pinned_overlap opt elapsed =
     (let n = nat_of (bo_jobs opt) in timed_run opt (\<lambda>rep. event_sums n (elapsed rep (overlap_cmds n))))"

definition run_pinned_double_buffer :: "overlap_options \<Rightarrow> elapsed \<Rightarrow> Result" where
  "run_pinned_double_buffer opt elapsed =
     (let n = nat_of (bo_jobs opt) in timed_run opt (\<lambda>rep. event_sums n (elapsed rep (double_cmds n))))"

text \<open>The lines that \<open>main\<close> prints for a shape: the configuration, the times of the transfers
  and of the kernel, the total time and the speedup.\<close>

definition speedup :: "Result \<Rightarrow> Result \<Rightarrow> rat" where
  "speedup pageable r = (if total_ms pageable > 0 then total_ms pageable / total_ms r else 0)"

definition report_rows ::
    "overlap_options \<Rightarrow> Shape \<Rightarrow> (nat \<Rightarrow> (rat \<times> rat \<times> rat) list \<times> rat) \<Rightarrow> elapsed
     \<Rightarrow> (string \<times> string \<times> i32 \<times> string \<times> rat \<times> rat \<times> rat \<times> rat) list" where
  "report_rows opt shape host elapsed =
     (let pageable = run_pageable opt host;
          results = [(''pageable_sync'', pageable), (''pinned_single_stream'', run_pinned_single opt elapsed),
            (''pinned_copy_compute'', run_pinned_overlap opt elapsed),
            (''pinned_double_buffer'', run_pinned_double_buffer opt elapsed)]
      in map (\<lambda>(name, r). (bo_impl opt, shape_label shape, bo_jobs opt, name, h2d_ms r + d2h_ms r,
            kernel_ms r, total_ms r, speedup pageable r)) results)"

text \<open>The elements of the buffers of a job.\<close>

definition workspace_sizes :: "Shape \<Rightarrow> size_t \<times> size_t \<times> size_t" where
  "workspace_sizes s =
     (size_of_int (sh_m s) * size_of_int (sh_k s) * size_of_int (sh_batch s),
      size_of_int (sh_k s) * size_of_int (sh_n s) * size_of_int (sh_batch s),
      size_of_int (sh_m s) * size_of_int (sh_n s) * size_of_int (sh_batch s))"

subsection \<open>Reading and printing shapes\<close>

lemma to_string_no_x: "CHR ''x'' \<notin> set (to_string v)" "to_string v \<noteq> []"
proof -
  have "CHR ''x'' \<notin> set (show_nat n)" for n
    using show_nat_digits [of n] digit_not_special by (auto simp: list_all_iff)
  then show "CHR ''x'' \<notin> set (to_string v)" by (simp add: to_string_def)
  show "to_string v \<noteq> []" using show_nat_digits by (simp add: to_string_def)
qed

lemma split_at: "d \<notin> set p \<Longrightarrow> takeWhile (\<lambda>c. c \<noteq> d) (p @ d # r) = p \<and> dropWhile (\<lambda>c. c \<noteq> d) (p @ d # r) = d # r"
  by (induction p) auto

lemma shape_numbers_more: "shape_numbers (to_string v @ ''x'' @ r) = map_option ((#) v) (shape_numbers r)"
proof -
  let ?s = "to_string v @ CHR ''x'' # r"
  have "takeWhile (\<lambda>c. c \<noteq> CHR ''x'') ?s = to_string v" "dropWhile (\<lambda>c. c \<noteq> CHR ''x'') ?s = CHR ''x'' # r"
    using split_at [OF to_string_no_x(1) [of v], of r] by blast+
  moreover have "stoi (to_string v) = Some (v, length (to_string v))" using stoi_to_string [of "[]" v] by simp
  ultimately show ?thesis by (subst shape_numbers.simps) simp
qed

lemma shape_numbers_last: "shape_numbers (to_string v) = Some [v]"
proof -
  have "takeWhile (\<lambda>c. c \<noteq> CHR ''x'') (to_string v) = to_string v" and d: "dropWhile (\<lambda>c. c \<noteq> CHR ''x'') (to_string v) = []"
    using to_string_no_x(1) [of v] by (auto simp: takeWhile_eq_all_conv dropWhile_eq_Nil_conv)
  moreover have "stoi (to_string v) = Some (v, length (to_string v))" using stoi_to_string [of "[]" v] by simp
  ultimately show ?thesis using to_string_no_x(2) [of v] by (subst shape_numbers.simps) (simp only: if_False d Let_def; simp)
qed

lemma label_back: "parse_shape (shape_label s) = Inr s"
  by (simp add: parse_shape_def shape_label_def shape_numbers_more [simplified] shape_numbers_last)

text \<open>
  \<open>parse_shape\<close> reads back every shape from its label, so the \<open>shape\<close> column of the
  benchmark's output can be used as a \<open>--shape\<close> argument; the values are not checked (negative
  ones and zero are accepted too).
\<close>

theorem shape_label_roundtrip:
  "parse_shape (shape_label s) = Inr s \<and> (shape_label s = shape_label s') = (s = s')"
  using label_back by (metis sum.inject(2))

text \<open>
  \<open>--shape\<close> is not repeatable, against the usage text: with the value as the next argument
  each occurrence throws away the shapes given before, so only the last one is run; the spelling
  \<open>--shape=v\<close> instead adds to the list, the default shapes included.
\<close>

theorem shape_option_not_repeatable:
  assumes "parse_shape a = Inr s1" "parse_shape b = Inr s2"
  shows "map_sum id bo_shapes (overlap_args [''--shape'', a, ''--shape'', b]) = Inr [s2] \<and>
    map_sum id bo_shapes (overlap_args [''--shape='' @ a, ''--shape='' @ b]) =
      Inr (bo_shapes default_overlap @ [s1, s2])"
proof -
  have apart: "overlap_arg ''--shape'' (v # rest) opt = Inr (opt\<lparr>bo_shapes := [s]\<rparr>, 1)" if "parse_shape v = Inr s" for v rest opt s
    using that by (simp add: overlap_arg_def is_option_name with_value_def option_value_apart)
  have joined: "overlap_arg (''--shape'' @ CHR ''='' # v) rest opt = Inr (opt\<lparr>bo_shapes := bo_shapes opt @ [s]\<rparr>, 0)"
    if "parse_shape v = Inr s" for v rest opt s
    using that option_value_joined [of "''--shape''" v rest]
    by (simp add: overlap_arg_def is_option_def with_value_def)
  show ?thesis
    using apart assms joined [OF assms(1)] joined [OF assms(2)]
    by (simp add: overlap_args_def default_overlap_def)
qed

theorem shape_option_not_repeatable_witness:
  "map_sum id bo_shapes (overlap_args [''--shape'', shape_label (bo_shapes default_overlap ! 1), ''--shape'',
     shape_label (bo_shapes default_overlap ! 0)]) = Inr [bo_shapes default_overlap ! 0]"
  using shape_option_not_repeatable [OF label_back label_back] by blast

subsection \<open>Chains of commands\<close>

text \<open>A command that waits for the one before it: on the same stream, or for the event that it
  records.\<close>

definition linked :: "cmd \<Rightarrow> cmd \<Rightarrow> bool" where
  "linked c d \<longleftrightarrow> (stream_of c \<noteq> None \<and> stream_of c = stream_of d) \<or> (records c \<noteq> None \<and> records c = awaits d) \<or>
     stream_of c = None"

lemma linked_hb: "Suc p < length L \<Longrightarrow> linked (L ! p) (L ! Suc p) \<Longrightarrow> hb L p (Suc p)"
  unfolding linked_def by (auto intro: hb_stream hb_host hb_event)

lemma chain_hb:
  assumes "\<And>r. p \<le> r \<Longrightarrow> r < q \<Longrightarrow> linked (L ! r) (L ! Suc r)" "p < q" "q < length L"
  shows "hb L p q"
  using assms
proof (induction q)
  case (Suc q)
  have last: "hb L q (Suc q)" using Suc.prems by (intro linked_hb) auto
  show ?case
  proof (cases "p = q")
    case False
    with Suc have "hb L p q" by simp
    from this last show ?thesis by (rule hb_trans)
  qed (use last in simp)
qed simp

lemma successively_chain:
  "successively linked B \<Longrightarrow> p < q \<Longrightarrow> q < length B \<Longrightarrow> hb (us @ B @ vs) (length us + p) (length us + q)"
proof (rule chain_hb)
  fix r assume B: "successively linked B" "q < length B" and r: "length us + p \<le> r" "r < length us + q"
  obtain k where "r = length us + k" using r(1) by (metis le_Suc_ex add.assoc)
  with B r show "linked ((us @ B @ vs) ! r) ((us @ B @ vs) ! Suc r)"
    by (simp add: nth_append successively_conv_nth)
qed simp_all

lemma successively_blocks:
  assumes "\<And>i. f i \<noteq> [] \<and> successively linked (f i)" "\<And>i. linked (last (f i)) (hd (f (Suc i)))"
  shows "successively linked (blocks f n) \<and> (0 < n \<longrightarrow> blocks f n \<noteq> [] \<and> last (blocks f n) = last (f (n - 1)) \<and> hd (blocks f n) = hd (f 0))"
proof (induction n)
  case (Suc n)
  show ?case
  proof (cases "n = 0")
    case False
    then have "linked (last (f (n - 1))) (hd (f n))" using assms(2) [of "n - 1"] by simp
    with False Suc.IH assms(1) [of n] show ?thesis
      by (simp add: blocks_Suc successively_append_iff last_append hd_append)
  qed (use assms in \<open>simp add: blocks_def\<close>)
qed (simp add: blocks_def)

lemma successively_bench:
  assumes "\<And>i. f i \<noteq> [] \<and> successively linked (f i)" "\<And>i. linked (last (f i)) (hd (f (Suc i)))"
    and "0 < n" "linked x (hd (f 0))" "\<And>i. linked (last (f i)) y" "linked y z"
  shows "successively linked ([x] @ blocks f n @ [y, z])"
proof -
  note b = successively_blocks [of f n, OF assms(1,2)]
  have "successively linked (blocks f n @ [y, z])"
    using b assms(3,5,6) by (simp add: successively_append_iff)
  moreover have "hd (blocks f n @ [y, z]) = hd (f 0)" using b assms(3) by simp
  ultimately show ?thesis using assms(4) by (simp add: successively_Cons)
qed

lemmas bench_blocks = single_block_def overlap_block_def linked_def

lemma single_chain: "0 < n \<Longrightarrow> successively linked (single_cmds n)"
  unfolding single_cmds_def by (rule successively_bench) (simp_all add: bench_blocks)

lemma overlap_chain: "0 < n \<Longrightarrow> successively linked (overlap_cmds n)"
  unfolding overlap_cmds_def by (rule successively_bench) (simp_all add: bench_blocks)

text \<open>
  The single-stream and the copy/compute configuration are serial: any two of their commands
  are ordered as they were issued, so the issue order is the only order in which the device can
  run them, and neither overlaps a transfer with a kernel.
\<close>

theorem bench_serial_configurations:
  assumes "0 < n" "L \<in> {single_cmds n, overlap_cmds n}"
  shows "(\<forall>q < length L. \<forall>p < q. hb L p q) \<and> (\<forall>c \<in> set L. \<forall>d \<in> set L. \<not> concurrent L c d \<or> c = d)"
proof -
  have "successively linked L" using assms single_chain overlap_chain by auto
  then have hb: "hb L p q" if "p < q" "q < length L" for p q
    using successively_chain [of L p q "[]" "[]"] that by simp
  moreover have "\<not> concurrent L c d \<or> c = d" if cd: "c \<in> set L" "d \<in> set L" for c d
  proof -
    obtain p q where pq: "p < length L" "L ! p = c" "q < length L" "L ! q = d"
      using cd by (auto simp: in_set_conv_nth)
    then have "p = q \<or> hb L p q \<or> hb L q p" using hb [of p q] hb [of q p] by linarith
    with pq show ?thesis unfolding concurrent_def by blast
  qed
  ultimately show ?thesis by blast
qed

theorem bench_serial_configurations_witness: "hb (overlap_cmds 3) 2 20"
proof -
  have "length (overlap_cmds 3) = 45"
    by (simp add: overlap_cmds_def length_blocks [of overlap_block 14] overlap_block_def)
  with bench_serial_configurations [of 3 "overlap_cmds 3"] show ?thesis by simp
qed

subsection \<open>The double-buffered configuration\<close>

definition double_block :: "nat \<Rightarrow> cmd list" where
  "double_block i = bench_h2d i @ bench_job i"

lemmas double_block_unfold = double_block_def bench_h2d_def bench_job_def

lemma length_double_block [simp]: "length (double_block i) = 12"
  by (simp add: double_block_unfold)

lemma double_prefix:
  "m < n \<Longrightarrow> bench_h2d 0 @ concat (map (double_turn n) [0..<m]) = blocks double_block m @ bench_h2d m"
proof (induction m)
  case (Suc m)
  then show ?case by (simp add: blocks_Suc double_turn_def double_block_def flip: append_assoc)
qed (simp add: blocks_def)

lemma double_blocks:
  assumes "0 < n"
  shows "double_cmds n = [Record ev_start H2DStream] @ blocks double_block n @ [Record ev_end D2HStream, Sync ev_end]"
proof -
  obtain m where n: "n = Suc m" using assms by (cases n) auto
  have "bench_h2d 0 @ concat (map (double_turn n) [0..<n]) = (bench_h2d 0 @ concat (map (double_turn n) [0..<m])) @ double_turn n m"
    by (simp add: n)
  also have "\<dots> = blocks double_block n"
    unfolding double_prefix [of m n, OF n [THEN ssubst, of "\<lambda>k. m < k", OF lessI]]
    by (simp add: n blocks_Suc double_block_def double_turn_def)
  finally show ?thesis by (simp add: double_cmds_def)
qed

lemma double_at: "i < n \<Longrightarrow> r < 12 \<Longrightarrow> double_cmds n ! (1 + (i * 12 + r)) = double_block i ! r"
  using nth_blocks_append [of double_block 12 i n r] by (simp add: double_blocks)

lemma length_double: "0 < n \<Longrightarrow> length (double_cmds n) = n * 12 + 3"
  by (simp add: double_blocks length_blocks [of double_block 12])

lemma less_12: "r < 12 \<Longrightarrow> r \<in> {0, 1, 2, 3, 4, 5, 6, 7, 8, 9, 10, 11 :: nat}"
  by (simp add: numeral_eq_Suc less_Suc_eq)

lemma double_in_block:
  assumes "i < n" "a < b" "b < 12"
  shows "hb (double_cmds n) (1 + (i * 12 + a)) (1 + (i * 12 + b))"
proof (rule chain_hb)
  have "i * 12 + b < n * 12" using assms by simp
  then show "1 + (i * 12 + b) < length (double_cmds n)" using assms by (simp add: length_double)
  fix r assume r: "1 + (i * 12 + a) \<le> r" "r < 1 + (i * 12 + b)"
  define k where "k = r - (1 + i * 12)"
  have k: "r = 1 + (i * 12 + k)" "Suc r = 1 + (i * 12 + Suc k)" "Suc k < 12" using r assms(3) by (simp_all add: k_def)
  have "linked (double_block i ! k) (double_block i ! Suc k)"
    using less_12 [of "Suc k"] k(3) by (auto simp: double_block_unfold linked_def)
  then show "linked (double_cmds n ! r) (double_cmds n ! Suc r)"
    using double_at [OF assms(1), of k] double_at [OF assms(1), of "Suc k"] k by (simp only:)
qed (use assms in simp)

lemma double_end:
  assumes "0 < n" "Suc p < length (double_cmds n)"
  shows "hb (double_cmds n) p (length (double_cmds n) - 1)"
proof -
  let ?L = "double_cmds n" and ?e = "n * 12 + 1"
  have len: "length ?L = n * 12 + 3" by (rule length_double [OF assms(1)])
  have at: "?L ! ?e = Record ev_end D2HStream" "?L ! Suc ?e = Sync ev_end" "?L ! 0 = Record ev_start H2DStream"
    using assms(1) by (simp_all add: double_blocks nth_append length_blocks [of double_block 12])
  have last: "hb ?L ?e (Suc ?e)" by (rule linked_hb) (use at in \<open>simp_all add: len linked_def\<close>)
  have block: "hb ?L (1 + (i * 12 + r)) ?e" if "i < n" "r < 12" for i r
  proof -
    have "i * 12 + 12 \<le> n * 12" using that(1) by simp
    then have "hb ?L (1 + (i * 12 + 11)) ?e"
      using that(1) len at(1) double_at [of i n 11] by (intro hb_stream [of _ _ _ D2HStream]) (simp_all add: double_block_unfold)
    moreover have "r < 11 \<Longrightarrow> hb ?L (1 + (i * 12 + r)) (1 + (i * 12 + 11))" using that by (intro double_in_block) auto
    ultimately show ?thesis using that(2) by (cases "r = 11") (auto intro: hb_trans)
  qed
  have first: "hb ?L 0 (Suc 0)"
    by (rule linked_hb) (use double_at [of 0 n 0] at(3) assms(1) len in \<open>simp_all add: linked_def double_block_unfold\<close>)
  consider "p = 0" | "p = ?e" | i r where "p = 1 + (i * 12 + r)" "i < n" "r < 12"
  proof (cases "p = 0 \<or> p = ?e")
    case False
    then have "p - 1 < n * 12" using assms(2) len by auto
    then obtain i r where "p - 1 = i * 12 + r" "i < n" "r < 12" by (rule position_in_block)
    moreover have "p = 1 + (p - 1)" using False by auto
    ultimately show ?thesis using that(3) [of i r] by simp
  qed (use that in blast)
  then have "hb ?L p (Suc ?e)"
  proof cases
    case 1
    with hb_trans [OF first] block [of 0 0] assms(1) last show ?thesis by (auto intro: hb_trans)
  next
    case 2
    with last show ?thesis by simp
  next
    case 3
    with hb_trans [OF block [OF 3(2,3)] last] show ?thesis by simp
  qed
  then show ?thesis by (simp add: len)
qed

text \<open>
  When the host has waited for the end event, everything of the timed sequence is complete,
  in all three pinned configurations: every command before the wait is ordered before it, so all
  timing events have been reached (\<open>cudaEventElapsedTime\<close> never reports \<open>not ready\<close>), and
  the total time covers all copies and kernels.
\<close>

theorem bench_end_waits_for_all:
  assumes "0 < n" "L \<in> {single_cmds n, overlap_cmds n, double_cmds n}" "Suc p < length L"
  shows "hb L p (length L - 1) \<and> L ! (length L - 1) = Sync ev_end"
proof -
  have "L = double_cmds n \<or> successively linked L" using assms(1,2) single_chain overlap_chain by auto
  then have "hb L p (length L - 1)"
  proof
    assume "successively linked L"
    from successively_chain [OF this, of p "length L - 1" "[]" "[]"] assms(3) show ?thesis by simp
  qed (use double_end assms in simp)
  moreover have "last L = Sync ev_end"
    using assms(2) by (auto simp: single_cmds_def overlap_cmds_def double_cmds_def)
  moreover have "L \<noteq> []" using assms(3) by auto
  ultimately show ?thesis by (simp add: last_conv_nth)
qed

theorem bench_end_waits_for_all_witness: "hb (double_cmds 2) 7 26"
proof -
  have "length (double_cmds 2) = 27" using length_double [of 2] by simp
  with bench_end_waits_for_all [of 2 "double_cmds 2" 7] show ?thesis by simp
qed

subsection \<open>Overlap\<close>

fun slot :: "op \<Rightarrow> nat" where
  "slot (CopyA i) = 1 + (i * 12 + 1)"
| "slot (CopyB i) = 1 + (i * 12 + 2)"
| "slot (Kernel i) = 1 + (i * 12 + 6)"
| "slot (CopyC i) = 1 + (i * 12 + 10)"

lemma double_slot:
  assumes "0 < n" "p < length (double_cmds n)" "double_cmds n ! p = Enqueue s x"
  shows "p = slot x"
proof (cases "p = 0 \<or> n * 12 < p")
  case True
  then have "p = 0 \<or> p = n * 12 + 1 \<or> p = n * 12 + 2" using assms(2) length_double [OF assms(1)] by auto
  with assms(3) show ?thesis
    by (auto simp: double_blocks [OF assms(1)] nth_append length_blocks [of double_block 12])
next
  case False
  then have "p - 1 < n * 12" by auto
  then obtain i r where ir: "p - 1 = i * 12 + r" "i < n" "r < 12" by (rule position_in_block)
  moreover have "p = 1 + (p - 1)" using False by auto
  ultimately have "p = 1 + (i * 12 + r)" by simp
  moreover from this have "double_block i ! r = Enqueue s x" using assms(3) double_at [OF ir(2,3)] by simp
  ultimately show ?thesis using less_12 [OF ir(3)] by (auto simp: double_block_unfold)
qed

text \<open>The H2D stream waits for nothing, and the host waits only at the end.\<close>

lemma hb_into_stream:
  assumes "hb L p q" "\<forall>c \<in> set L. stream_of c = Some H \<longrightarrow> awaits c = None"
    and "\<forall>r. Suc r < length L \<longrightarrow> stream_of (L ! r) \<noteq> None" "stream_of (L ! q) = Some H"
  shows "stream_of (L ! p) = Some H"
  using assms
proof (induction rule: hb.induct)
  case (hb_event p q e)
  then have "L ! q \<in> set L" by simp
  with hb_event show ?case by (metis option.distinct(1))
next
  case (hb_host p q)
  then show ?case by (metis Suc_lessI less_trans not_less_eq)
next
  case (hb_trans p q r)
  then show ?case by blast
qed simp

lemma double_streams:
  assumes "0 < n"
  shows "\<forall>c \<in> set (double_cmds n). stream_of c = Some H2DStream \<longrightarrow> awaits c = None"
    "\<forall>r. Suc r < length (double_cmds n) \<longrightarrow> stream_of (double_cmds n ! r) \<noteq> None"
proof -
  let ?X = "[Record ev_start H2DStream] @ blocks double_block n @ [Record ev_end D2HStream]"
  have L: "double_cmds n = ?X @ [Sync ev_end]" by (simp add: double_blocks [OF assms])
  have X: "\<forall>c \<in> set ?X. stream_of c \<noteq> None \<and> (stream_of c = Some H2DStream \<longrightarrow> awaits c = None)"
    by (auto simp: blocks_def double_block_unfold)
  then show "\<forall>c \<in> set (double_cmds n). stream_of c = Some H2DStream \<longrightarrow> awaits c = None" by (auto simp: L)
  show "\<forall>r. Suc r < length (double_cmds n) \<longrightarrow> stream_of (double_cmds n ! r) \<noteq> None"
  proof (intro allI impI)
    fix r assume "Suc r < length (double_cmds n)"
    then have r: "r < length ?X" by (simp add: L)
    then have "double_cmds n ! r = ?X ! r" unfolding L by (rule nth_append_left)
    with X nth_mem [OF r] show "stream_of (double_cmds n ! r) \<noteq> None" by metis
  qed
qed

text \<open>
  Double buffering orders every job (its copies in before its kernel, its kernel before its
  copy out) and lets jobs overlap: the input copies of the next job are ordered neither with the
  kernel nor with the result copy of the current job.
\<close>

theorem double_buffer_overlaps:
  assumes "i < n"
  shows "ordered (double_cmds n) (Enqueue H2DStream (CopyA i)) (Enqueue ComputeStream (Kernel i)) \<and>
    ordered (double_cmds n) (Enqueue H2DStream (CopyB i)) (Enqueue ComputeStream (Kernel i)) \<and>
    ordered (double_cmds n) (Enqueue ComputeStream (Kernel i)) (Enqueue D2HStream (CopyC i)) \<and>
    (Suc i < n \<longrightarrow>
      concurrent (double_cmds n) (Enqueue ComputeStream (Kernel i)) (Enqueue H2DStream (CopyA (Suc i))) \<and>
      concurrent (double_cmds n) (Enqueue D2HStream (CopyC i)) (Enqueue H2DStream (CopyA (Suc i))))"
proof -
  have n: "0 < n" using assms by simp
  have ord: "ordered (double_cmds n) (Enqueue s x) (Enqueue t y)"
    if "slot x = 1 + (i * 12 + a)" "slot y = 1 + (i * 12 + b)" "a < b" "b < 12" for s t x y a b
    unfolding ordered_def
    using double_slot [OF n] double_in_block [OF assms that(3,4)] that(1,2) by metis
  have con: "concurrent (double_cmds n) (Enqueue s x) (Enqueue H2DStream (CopyA (Suc i)))"
    if "s \<noteq> H2DStream" "slot x < slot (CopyA (Suc i))" for s x
    unfolding concurrent_def
  proof (intro allI impI conjI notI)
    fix p q assume pq: "p < length (double_cmds n)" "q < length (double_cmds n)" "double_cmds n ! p = Enqueue s x"
      "double_cmds n ! q = Enqueue H2DStream (CopyA (Suc i))"
    show False if "hb (double_cmds n) p q"
      using hb_into_stream [OF that double_streams [OF n]] pq \<open>s \<noteq> H2DStream\<close> by simp
    show False if "hb (double_cmds n) q p"
      using hb_less [OF that] double_slot [OF n pq(1,3)] double_slot [OF n pq(2,4)] \<open>slot x < _\<close> by simp
  qed
  show ?thesis
    using ord [of "CopyA i" 1 "Kernel i" 6] ord [of "CopyB i" 2 "Kernel i" 6] ord [of "Kernel i" 6 "CopyC i" 10]
    by (simp add: con)
qed

theorem double_buffer_overlaps_witness:
  "concurrent (double_cmds 2) (Enqueue ComputeStream (Kernel 0)) (Enqueue H2DStream (CopyA (Suc 0)))"
  using double_buffer_overlaps [of 0 2] by simp

subsection \<open>What the numbers are\<close>

lemma filter_drop_none: "\<forall>x \<in> set (drop i s). \<not> P x \<Longrightarrow> length (filter P s) \<le> i"
proof -
  assume "\<forall>x \<in> set (drop i s). \<not> P x"
  then have "filter P (take i s @ drop i s) = filter P (take i s)" by (simp only: filter_append) simp
  then have "length (filter P s) \<le> length (take i s)" using length_filter_le [of P "take i s"] by simp
  then show ?thesis by simp
qed

lemma filter_take_none: "\<forall>x \<in> set (take i s). \<not> P x \<Longrightarrow> length (filter P s) \<le> length s - i"
proof -
  assume "\<forall>x \<in> set (take i s). \<not> P x"
  then have "filter P (take i s @ drop i s) = filter P (drop i s)" by (simp only: filter_append) simp
  then show ?thesis using length_filter_le [of P "drop i s"] by simp
qed

text \<open>
  \<open>median\<close> is a median: no more than half of the values are below it and no more than half
  are above it, whether their number is odd or even.
\<close>

theorem median_halves:
  assumes "v \<noteq> []"
  shows "2 * length (filter (\<lambda>x. x < median v) v) \<le> length v \<and> 2 * length (filter (\<lambda>x. median v < x) v) \<le> length v"
proof -
  define s mid where "s = sort v" and "mid = length v div 2"
  have s: "sorted s" "length s = length v" by (simp_all add: s_def)
  have count: "length (filter P v) = length (filter P s)" for P
    unfolding s_def by (metis mset_filter mset_sort size_mset)
  have mid: "mid < length s" using assms s(2) by (simp add: mid_def)
  have lo: "\<forall>x \<in> set (take i s). x \<le> s ! j" if "i \<le> Suc j" "j < length s" for i j
    using s(1) that by (auto simp: in_set_conv_nth sorted_iff_nth_mono)
  have hi: "\<forall>x \<in> set (drop i s). s ! i \<le> x" if "i < length s" for i
    using s(1) that by (auto simp: in_set_conv_nth sorted_iff_nth_mono)
  show ?thesis
  proof (cases "length v mod 2 = 1")
    case True
    then have n: "length s = 2 * mid + 1" using s(2) by (simp add: mid_def) presburger
    have m: "median v = s ! mid" using True s(2) by (simp add: median_def s_def mid_def)
    have "length (filter (\<lambda>x. x < median v) s) \<le> mid" using hi [OF mid] by (intro filter_drop_none) (auto simp: m)
    moreover have "length (filter (\<lambda>x. median v < x) s) \<le> length s - Suc mid"
      using lo [of "Suc mid" mid] mid by (intro filter_take_none) (auto simp: m)
    ultimately show ?thesis using n s(2) by (simp add: count)
  next
    case False
    then have n: "length s = 2 * mid" using s(2) by (simp add: mid_def) presburger
    have m: "median v = 1 / 2 * (s ! (mid - 1) + s ! mid)" using False by (simp only: median_def s_def mid_def Let_def length_sort if_False)
    have "s ! (mid - 1) \<le> s ! mid" using s(1) mid by (simp add: sorted_iff_nth_mono)
    then have b: "s ! (mid - 1) \<le> median v" "median v \<le> s ! mid" using m by simp_all
    have "\<forall>x \<in> set (drop mid s). \<not> x < median v" using hi [OF mid] b(2) by force
    then have "length (filter (\<lambda>x. x < median v) s) \<le> mid" by (rule filter_drop_none)
    moreover have "\<forall>x \<in> set (take mid s). \<not> median v < x" using lo [of mid "mid - 1"] mid b(1) by force
    then have "length (filter (\<lambda>x. median v < x) s) \<le> length s - mid" by (rule filter_take_none)
    ultimately show ?thesis using n s(2) by (simp add: count)
  qed
qed

theorem median_halves_witness: "2 * length (filter (\<lambda>x. x < median [3, 1, 2, 9]) [3, 1, 2, 9]) \<le> 4"
  using median_halves [of "[3, 1, 2, 9]"] by simp

text \<open>The sequences that are kept: as many as \<open>--reps\<close>, so no median is taken of nothing.\<close>

lemma kept_sequences: "filter (\<lambda>rep. rep \<ge> warmup) [0..<warmup + reps] = [warmup..<warmup + reps]"
proof -
  have "[0..<warmup + reps] = [0..<warmup] @ [warmup..<warmup + reps]" by (rule upt_add_eq_append) simp
  then show ?thesis by simp
qed

text \<open>The row of the pageable configuration has speedup 1.\<close>

lemma pageable_speedup: "total_ms (run_pageable opt host) > 0 \<Longrightarrow> speedup (run_pageable opt host) (run_pageable opt host) = 1"
  by (simp add: speedup_def)

end
