(* ===== verification/BenchGemm.thy ===== *)
theory BenchGemm
  imports BenchOverlap Gemm
begin

section \<open>The kernel benchmark (src/bench/bench_gemm.cpp)\<close>

text \<open>
  The options of \<open>bench_gemm\<close>, its reference on the CPU, the error it measures against the
  reference, and what \<open>run_benchmark\<close> reports and returns.  The measured times are parameters.
\<close>

record gemm_options =
  bg_m :: i32
  bg_n :: i32
  bg_k :: i32
  bg_batch :: i32
  bg_iters :: i32
  bg_warmup :: i32
  bg_impl :: string
  bg_skip_check :: bool
  bg_help :: bool

definition default_gemm :: gemm_options where
  "default_gemm = \<lparr>bg_m = 512, bg_n = 512, bg_k = 512, bg_batch = 8, bg_iters = 50, bg_warmup = 10,
     bg_impl = ''tiled'', bg_skip_check = False, bg_help = False\<rparr>"

definition gemm_arg :: "string \<Rightarrow> string list \<Rightarrow> gemm_options \<Rightarrow> string + (gemm_options \<times> nat)" where
  "gemm_arg arg rest opt =
     (if arg = ''--help'' \<or> arg = ''-h'' then Inr (opt\<lparr>bg_help := True\<rparr>, 0)
      else if is_option ''--m'' arg then with_value parse_int ''--m'' arg rest (\<lambda>v. opt\<lparr>bg_m := v\<rparr>)
      else if is_option ''--n'' arg then with_value parse_int ''--n'' arg rest (\<lambda>v. opt\<lparr>bg_n := v\<rparr>)
      else if is_option ''--k'' arg then with_value parse_int ''--k'' arg rest (\<lambda>v. opt\<lparr>bg_k := v\<rparr>)
      else if is_option ''--batch'' arg then with_value parse_int ''--batch'' arg rest (\<lambda>v. opt\<lparr>bg_batch := v\<rparr>)
      else if is_option ''--iters'' arg then with_value parse_int ''--iters'' arg rest (\<lambda>v. opt\<lparr>bg_iters := v\<rparr>)
      else if is_option ''--warmup'' arg then with_value parse_int ''--warmup'' arg rest (\<lambda>v. opt\<lparr>bg_warmup := v\<rparr>)
      else if arg = ''--skip-check'' then Inr (opt\<lparr>bg_skip_check := True\<rparr>, 0)
      else if is_option ''--impl'' arg then with_value parse_string ''--impl'' arg rest (\<lambda>v. opt\<lparr>bg_impl := v\<rparr>)
      else Inl (''unknown argument: '' @ arg))"

definition gemm_args :: "string list \<Rightarrow> string + gemm_options" where
  "gemm_args args =
     (case parse_loop gemm_arg args default_gemm of Inl e \<Rightarrow> Inl e
      | Inr opt \<Rightarrow>
          if sint (bg_m opt) \<le> 0 \<or> sint (bg_n opt) \<le> 0 \<or> sint (bg_k opt) \<le> 0
            then Inl ''--m, --n and --k must be positive''
          else if sint (bg_batch opt) \<le> 0 then Inl ''--batch must be positive''
          else if sint (bg_iters opt) \<le> 0 then Inl ''--iters must be positive''
          else if sint (bg_warmup opt) < 0 then Inl ''--warmup must be >= 0''
          else if bg_impl opt \<noteq> ''naive'' \<and> bg_impl opt \<noteq> ''tiled'' \<and> bg_impl opt \<noteq> ''cublas'' \<and> bg_impl opt \<noteq> ''cpu''
            then Inl ''--impl must be one of naive|tiled|cublas|cpu''
          else Inr opt)"

interpretation gemm_cli: option_parser gemm_arg
  by unfold_locales (unfold gemm_arg_def [abs_def], intro local_rules)

definition gemm_cli_options :: "string list" where
  "gemm_cli_options = [''--m'', ''--n'', ''--k'', ''--batch'', ''--iters'', ''--warmup'', ''--impl'']"

lemma gemm_cli_spellings:
  assumes "joined name v arg" "name \<in> set gemm_cli_options"
  shows "parse_loop gemm_arg (arg # post) st = parse_loop gemm_arg (name # v # post) st"
  using assms(2) unfolding gemm_cli_options_def list.set insert_iff empty_iff simp_thms
  by (elim disjE; use assms(1) in \<open>simp add: gemm_arg_def spelling_rules\<close>)

lemma gemm_cli_spellings_behind:
  assumes "joined name v arg" "name \<in> set gemm_cli_options" "parse_loop gemm_arg pre default_gemm = Inr st"
  shows "gemm_args (pre @ arg # post) = gemm_args (pre @ name # v # post)"
  using gemm_cli.same_behind [OF assms(3) gemm_cli_spellings [OF assms(1,2)]] by (simp add: gemm_args_def)

subsection \<open>The reference on the CPU\<close>

text \<open>The stores of the loops; \<open>widen\<close> and \<open>narrow\<close> convert between \<open>float\<close> and the
  \<open>double\<close> of the accumulator.\<close>

definition gemm_cpu_reference :: "('f \<Rightarrow> 'd) \<Rightarrow> ('d \<Rightarrow> 'f) \<Rightarrow> ('d \<Rightarrow> 'd \<Rightarrow> 'd) \<Rightarrow> ('d \<Rightarrow> 'd \<Rightarrow> 'd) \<Rightarrow> 'd
    \<Rightarrow> 'f memory \<Rightarrow> 'f memory \<Rightarrow> nat \<Rightarrow> nat \<Rightarrow> nat \<Rightarrow> nat \<Rightarrow> (int \<times> 'f) list" where
  "gemm_cpu_reference widen narrow add mul zero A B M N K batch =
     concat (map (\<lambda>b. concat (map (\<lambda>m. map (\<lambda>n.
       (stride_offset b M N + s32 (m * N + n),
        narrow (foldl (\<lambda>acc k. add acc (mul (widen (A (stride_offset b M K + s32 (m * K + k))))
                                           (widen (B (stride_offset b K N + s32 (k * N + n)))))) zero [0..<K])))
       [0..<N]) [0..<M])) [0..<batch])"

subsection \<open>The measured error\<close>

text \<open>Subtraction and absolute value of doubles (differences are exact), the comparison \<open><\<close>,
  which is false on \<open>NaN\<close>, and \<open>std::max(a, b)\<close>, which is \<open>a < b ? b : a\<close>.\<close>

fun double_minus :: "double \<Rightarrow> double \<Rightarrow> double" where
  "double_minus (Fin a) (Fin b) = Fin (a - b)"
| "double_minus (Fin a) PosInf = NegInf"
| "double_minus (Fin a) NegInf = PosInf"
| "double_minus PosInf (Fin b) = PosInf"
| "double_minus PosInf NegInf = PosInf"
| "double_minus NegInf (Fin b) = NegInf"
| "double_minus NegInf PosInf = NegInf"
| "double_minus _ _ = NaN"

fun fabs :: "double \<Rightarrow> double" where
  "fabs (Fin a) = Fin \<bar>a\<bar>"
| "fabs NaN = NaN"
| "fabs _ = PosInf"

fun double_less :: "double \<Rightarrow> double \<Rightarrow> bool" where
  "double_less NaN _ = False"
| "double_less _ NaN = False"
| "double_less (Fin a) (Fin b) = (a < b)"
| "double_less NegInf b = (b \<noteq> NegInf)"
| "double_less a PosInf = (a \<noteq> PosInf)"
| "double_less _ _ = False"

fun double_geq :: "double \<Rightarrow> double \<Rightarrow> bool" where
  "double_geq NaN _ = False"
| "double_geq _ NaN = False"
| "double_geq a b = (\<not> double_less a b)"

definition std_max :: "double \<Rightarrow> double \<Rightarrow> double" where
  "std_max a b = (if double_less a b then b else a)"

definition max_abs_error :: "double list \<Rightarrow> double list \<Rightarrow> double" where
  "max_abs_error a b = foldl (\<lambda>m (x, y). std_max m (fabs (double_minus x y))) (Fin 0) (zip a b)"

subsection \<open>A run\<close>

definition median_or_zero :: "rat list \<Rightarrow> rat" where
  "median_or_zero values = (if values = [] then 0 else median values)"

text \<open>The commands of one timed turn, all on the default stream.\<close>

definition timed_turn :: "nat \<Rightarrow> cmd list" where
  "timed_turn i = [Record ev_start DefaultStream, Enqueue DefaultStream (CopyA i), Enqueue DefaultStream (CopyB i),
     Record ev_h2d DefaultStream, Record (ev_k0 i) DefaultStream, Enqueue DefaultStream (Kernel i),
     Record (ev_k1 i) DefaultStream, Enqueue DefaultStream (CopyC i), Record ev_end DefaultStream, Sync ev_end]"

datatype gemm_fn = Naive | Tiled | Cublas | NoFn

definition select_impl :: "string \<Rightarrow> gemm_fn" where
  "select_impl name = (if name = ''naive'' then Naive else if name = ''tiled'' then Tiled
     else if name = ''cublas'' then Cublas else NoFn)"

record gemm_row =
  row_h2d :: rat
  row_kernel :: rat
  row_d2h :: rat
  row_total :: rat
  row_kernel_gflops :: rat
  row_e2e_gflops :: rat
  row_cpu_gflops :: rat
  row_speedup :: rat
  row_max_err :: double

definition gflops :: "gemm_options \<Rightarrow> rat \<Rightarrow> rat" where
  "gflops opt ms =
     (let flops = 2 * of_int (sint (bg_m opt)) * of_int (sint (bg_n opt)) * of_int (sint (bg_k opt)) * of_int (sint (bg_batch opt))
      in if ms > 0 then flops / ms / 1000000 else 0)"

text \<open>The constant of the source is the \<open>double\<close> nearest to 1/1000.\<close>

definition kTolerance :: double where
  "kTolerance = Fin (1 / 1000)"

text \<open>The row and whether \<open>EXIT_SUCCESS\<close> is returned; the arguments are the time of the
  reference, the four elapsed times of each timed turn (or the message of a CUDA failure), the
  result that was copied back and the reference.\<close>

definition run_benchmark ::
    "gemm_options \<Rightarrow> rat \<Rightarrow> string + (rat \<times> rat \<times> rat \<times> rat) list \<Rightarrow> double list \<Rightarrow> double list \<Rightarrow> string + (gemm_row \<times> bool)" where
  "run_benchmark opt cpu_time runs h_c h_ref =
     (let cpu_ms = (if \<not> bg_skip_check opt \<or> bg_impl opt = ''cpu'' then cpu_time else 0);
          report = (\<lambda>h2d kernel d2h tot err.
            (\<lparr>row_h2d = h2d, row_kernel = kernel, row_d2h = d2h, row_total = tot, row_kernel_gflops = gflops opt kernel,
              row_e2e_gflops = gflops opt tot, row_cpu_gflops = gflops opt cpu_ms,
              row_speedup = (if kernel > 0 then cpu_ms / kernel else 0), row_max_err = err\<rparr>,
             \<not> (\<not> bg_skip_check opt \<and> double_geq err kTolerance)))
      in if bg_impl opt = ''cpu'' then Inr (report 0 cpu_ms 0 cpu_ms (Fin 0))
         else if sint (bg_batch opt) > 65535 then Inl ''--batch exceeds gridDim.z limit of 65535''
         else case runs of Inl e \<Rightarrow> Inl e
           | Inr ts \<Rightarrow> Inr (report (median_or_zero (map fst ts)) (median_or_zero (map (fst \<circ> snd) ts))
               (median_or_zero (map (fst \<circ> snd \<circ> snd) ts)) (median_or_zero (map (snd \<circ> snd \<circ> snd) ts))
               (if bg_skip_check opt then NaN else max_abs_error h_c h_ref)))"

subsection \<open>The reference and the kernels\<close>

lemma set_of_loops:
  "set (concat (map (\<lambda>b. concat (map (\<lambda>i. map (\<lambda>j. (f b i j, g b i j)) [0..<N]) [0..<M])) [0..<batch])) =
   {(f b i j, g b i j) | b i j. b < batch \<and> i < M \<and> j < N}"
proof -
  have "(\<Union>b \<in> {0..<batch}. \<Union>i \<in> {0..<M}. h b i ` {0..<N}) = {h b i j | b i j. b < batch \<and> i < M \<and> j < N}" for h :: "nat \<Rightarrow> nat \<Rightarrow> nat \<Rightarrow> 'a \<times> 'b"
    by fastforce
  from this [of "\<lambda>b i j. (f b i j, g b i j)"] show ?thesis by simp
qed

lemma cpu_reference_writes:
  assumes ok: "dims_ok M N K batch"
  shows "set (gemm_cpu_reference (\<lambda>x. x) (\<lambda>x. x) add mul zero A B M N K batch) =
    {(cell M N b i j, gemm_ref add mul zero A B M N K b i j) | b i j. b < batch \<and> i < M \<and> j < N}"
proof -
  note d = dims_okD [OF ok]
  have val: "(stride_offset b M N + s32 (m * N + n),
        foldl (\<lambda>acc k. add acc (mul (A (stride_offset b M K + s32 (m * K + k))) (B (stride_offset b K N + s32 (k * N + n))))) zero [0..<K]) =
      (cell M N b m n, gemm_ref add mul zero A B M N K b m n)" if "b < batch" "m < M" "n < N" for b m n
  proof -
    have b: "b < 2 ^ 31" using that(1) d(4) by simp
    have "s32 (m * N + n) = int (m * N + n)" using row_col_bound [OF that(2,3)] d(3) by (intro s32_exact) linarith
    moreover have "s32 (m * K + k) = int (m * K + k)" "s32 (k * N + n) = int (k * N + n)" if "k < K" for k
      using row_col_bound [OF \<open>m < M\<close> that] row_col_bound [OF that \<open>n < N\<close>] d(1,2) by (intro s32_exact; linarith)+
    ultimately show ?thesis
      unfolding gemm_ref_def cell_def stride_offset_exact [OF b d(1)] stride_offset_exact [OF b d(2)] stride_offset_exact [OF b d(3)]
      by (intro conjI prod_eqI) (auto simp del: of_nat_mult intro!: foldl_cong)
  qed
  have "gemm_cpu_reference (\<lambda>x. x) (\<lambda>x. x) add mul zero A B M N K batch =
      concat (map (\<lambda>b. concat (map (\<lambda>m. map (\<lambda>n. (cell M N b m n, gemm_ref add mul zero A B M N K b m n))
        [0..<N]) [0..<M])) [0..<batch])"
    unfolding gemm_cpu_reference_def
    by (intro arg_cong [where f = concat] map_cong refl) (simp only: val set_upt atLeastLessThan_iff)
  then show ?thesis by (simp only: set_of_loops)
qed

text \<open>
  C23.  The kernels agree with the CPU reference they are checked against: in an arithmetic in
  which widening to \<open>double\<close> and narrowing back change nothing (exact arithmetic), and for
  dimensions for which no index wraps and the device accepts the grid, the reference and the naive and tiled kernels leave the
  same value in every element of the result, so \<open>max_abs_error\<close> only measures rounding.
\<close>

theorem cpu_reference_equivalent:
  assumes "dims_ok M N K batch" "grid_ok 16 M N batch" "\<And>x. add x (mul zero zero) = x"
    and "impl_writes \<in> {gemm_naive_batched add mul zero A B M N K batch, gemm_tiled_batched add mul zero A B M N K batch}"
    and "b < batch" "i < M" "j < N"
  shows "apply_writes impl_writes C (cell M N b i j) =
    apply_writes (gemm_cpu_reference (\<lambda>x. x) (\<lambda>x. x) add mul zero A B M N K batch) C' (cell M N b i j)"
proof -
  note cpu = cpu_reference_writes [OF assms(1), of add mul zero A B]
  have "set impl_writes = {(cell M N b i j, gemm_ref add mul zero A B M N K b i j) | b i j. b < batch \<and> i < M \<and> j < N}"
    using assms(4) by (elim insertE emptyE)
      (simp_all only: naive_writes [OF assms(1,2)] tiled_writes [OF assms(1) grid_ok_larger [OF assms(2)], of add mul zero, OF assms(3)])
  from launch_result(1) [OF this assms(5-7)] launch_result(1) [OF cpu assms(5-7)] show ?thesis by simp
qed

theorem cpu_reference_equivalent_witness:
  "apply_writes (gemm_tiled_batched (+) (*) (0 :: int) (\<lambda>a. a) (\<lambda>a. a) 2 2 5 3) (\<lambda>_. 0) (cell 2 2 1 0 1) =
   apply_writes (gemm_cpu_reference (\<lambda>x. x) (\<lambda>x. x) (+) (*) (0 :: int) (\<lambda>a. a) (\<lambda>a. a) 2 2 5 3) (\<lambda>_. 0) (cell 2 2 1 0 1)"
proof -
  have "dims_ok 2 2 5 3" "grid_ok 16 2 2 3" by (simp_all add: dims_ok_def grid_ok_def grid_accepted_def)
  from cpu_reference_equivalent [OF this, of "(+)" "(*)" "0 :: int" "gemm_tiled_batched (+) (*) 0 (\<lambda>a. a) (\<lambda>a. a) 2 2 5 3"
      "\<lambda>a. a" "\<lambda>a. a" 1 0 1 "\<lambda>_. 0" "\<lambda>_. 0"]
  show ?thesis by simp
qed

subsection \<open>The check\<close>

lemma std_max_fold:
  "foldl (\<lambda>m (x, y). std_max m (fabs (double_minus x y))) (Fin m0) (map (\<lambda>(a, b). (Fin a, Fin b)) ps) =
   Fin (foldl (\<lambda>m (a, b). max m \<bar>a - b\<bar>) m0 ps)"
  by (induction ps arbitrary: m0) (auto simp: std_max_def max_def)

lemma nan_minus: "fabs (double_minus NaN y) = NaN"
  by (cases y) simp_all

lemma std_max_nan: "std_max m NaN = m"
  by (cases m) (simp_all add: std_max_def)

lemma foldl_max_ge: "t \<le> foldl (\<lambda>m (a, b). max m \<bar>a - b\<bar>) m0 ps \<longleftrightarrow> t \<le> m0 \<or> (\<exists>(a, b) \<in> set ps. t \<le> \<bar>a - b :: rat\<bar>)"
  by (induction ps arbitrary: m0) (auto simp: le_max_iff_disj)

text \<open>
  C34.  The check of \<open>run_benchmark\<close> is right on finite results: for a GPU implementation it
  fails exactly when some element differs from the reference by the tolerance or more.  On
  results that are not numbers it says nothing: a result of only \<open>NaN\<close> has error 0 and passes.
\<close>

theorem benchmark_check:
  assumes "bg_impl opt \<noteq> ''cpu''" "sint (bg_batch opt) \<le> 65535" "\<not> bg_skip_check opt"
  shows "(\<exists>row. run_benchmark opt t (Inr ts) (map Fin xs) (map Fin ys) =
      Inr (row, \<not> (\<exists>(x, y) \<in> set (zip xs ys). 1 / 1000 \<le> \<bar>x - y\<bar>))) \<and>
    (\<exists>row. run_benchmark opt t (Inr ts) (replicate n NaN) (map Fin ys) = Inr (row, True) \<and> row_max_err row = Fin 0)"
proof -
  have zip: "zip (map Fin xs) (map Fin ys) = map (\<lambda>(a, b). (Fin a, Fin b)) (zip xs ys)"
    by (simp add: zip_map_map)
  have "max_abs_error (map Fin xs) (map Fin ys) = Fin (foldl (\<lambda>m (a, b). max m \<bar>a - b\<bar>) 0 (zip xs ys))"
    unfolding max_abs_error_def zip by (rule std_max_fold)
  then have fin: "double_geq (max_abs_error (map Fin xs) (map Fin ys)) kTolerance \<longleftrightarrow>
      (\<exists>(x, y) \<in> set (zip xs ys). 1 / 1000 \<le> \<bar>x - y\<bar>)"
    using foldl_max_ge [of "1 / 1000" 0 "zip xs ys"] by (simp add: kTolerance_def not_less)
  have "foldl (\<lambda>m (x, y). std_max m (fabs (double_minus x y))) m (zip (replicate n NaN) zs) = m" for m zs
  proof (induction n arbitrary: zs)
    case (Suc n)
    then show ?case by (cases zs) (simp_all add: nan_minus std_max_nan)
  qed simp
  then have nan: "max_abs_error (replicate n NaN) (map Fin ys) = Fin 0" by (simp add: max_abs_error_def)
  have run: "\<exists>row. run_benchmark opt t (Inr ts) zs ws = Inr (row, \<not> double_geq (max_abs_error zs ws) kTolerance) \<and>
      row_max_err row = max_abs_error zs ws" for zs ws
    using assms by (simp add: run_benchmark_def Let_def)
  have "\<not> double_geq (Fin 0) kTolerance" by (simp add: kTolerance_def)
  then show ?thesis
    using run [of "map Fin xs" "map Fin ys"] run [of "replicate n NaN" "map Fin ys"] by (simp only: fin nan not_False_eq_True) blast
qed

theorem benchmark_check_witness:
  "\<exists>row. run_benchmark default_gemm 1 (Inr []) [NaN, NaN] [Fin 1, Fin 2] = Inr (row, True)"
  using benchmark_check [of default_gemm 1 "[]" "[]" "[1, 2]" 2]
  by (auto simp: default_gemm_def numeral_2_eq_2)

text \<open>The timed turn runs on one stream, so when the host has waited for its end event the copy
  of the result and all four timing events are complete.\<close>

lemma timed_turn_serial: "p < q \<Longrightarrow> q < length (timed_turn i) \<Longrightarrow> hb (timed_turn i) p q"
proof -
  have "successively linked (timed_turn i)" by (simp add: timed_turn_def linked_def)
  from successively_chain [OF this, of p q "[]" "[]"] show "p < q \<Longrightarrow> q < length (timed_turn i) \<Longrightarrow> hb (timed_turn i) p q"
    by simp
qed

end
