(* ===== verification/MemoryHog.thy ===== *)
theory MemoryHog
  imports Buffers CommandLine
begin

section \<open>The memory-pressure tool (src/bench/gpu_memory_hog.cpp)\<close>

text \<open>
  The options of \<open>gpu_memory_hog\<close> and its loop, which in each cycle allocates up to
  \<open>chunks\<close> blocks, holds them and frees them.  The heap and the allocator are those of
  \<open>Buffers\<close>; the number of cycles is how often the clock is found before the deadline.
\<close>

record hog_options =
  hg_chunk_mb :: size_t
  hg_chunks :: i32
  hg_hold_ms :: i32
  hg_sleep_ms :: i32
  hg_duration_s :: i32
  hg_help :: bool

definition default_hog :: hog_options where
  "default_hog = \<lparr>hg_chunk_mb = 1024, hg_chunks = 8, hg_hold_ms = 750, hg_sleep_ms = 500,
     hg_duration_s = 60, hg_help = False\<rparr>"

definition hog_arg :: "string \<Rightarrow> string list \<Rightarrow> hog_options \<Rightarrow> string + (hog_options \<times> nat)" where
  "hog_arg arg rest opt =
     (if arg = ''--help'' \<or> arg = ''-h'' then Inr (opt\<lparr>hg_help := True\<rparr>, 0)
      else if is_option ''--chunk-mb'' arg then
        with_value parse_int ''--chunk-mb'' arg rest (\<lambda>v. opt\<lparr>hg_chunk_mb := size_of_int v\<rparr>)
      else if is_option ''--chunks'' arg then with_value parse_int ''--chunks'' arg rest (\<lambda>v. opt\<lparr>hg_chunks := v\<rparr>)
      else if is_option ''--hold-ms'' arg then with_value parse_int ''--hold-ms'' arg rest (\<lambda>v. opt\<lparr>hg_hold_ms := v\<rparr>)
      else if is_option ''--sleep-ms'' arg then with_value parse_int ''--sleep-ms'' arg rest (\<lambda>v. opt\<lparr>hg_sleep_ms := v\<rparr>)
      else if is_option ''--duration-s'' arg then
        with_value parse_int ''--duration-s'' arg rest (\<lambda>v. opt\<lparr>hg_duration_s := v\<rparr>)
      else Inl (''unknown argument: '' @ arg))"

definition hog_args :: "string list \<Rightarrow> string + hog_options" where
  "hog_args args =
     (case parse_loop hog_arg args default_hog of Inl e \<Rightarrow> Inl e
      | Inr opt \<Rightarrow>
          if hg_chunk_mb opt = 0 \<or> sint (hg_chunks opt) \<le> 0 \<or> sint (hg_hold_ms opt) < 0 \<or>
              sint (hg_sleep_ms opt) < 0 \<or> sint (hg_duration_s opt) \<le> 0
            then Inl ''invalid chunk/hold/sleep/duration value''
          else Inr opt)"

interpretation hog_cli: option_parser hog_arg
  by unfold_locales (unfold hog_arg_def [abs_def], intro local_rules)

definition hog_cli_options :: "string list" where
  "hog_cli_options = [''--chunk-mb'', ''--chunks'', ''--hold-ms'', ''--sleep-ms'', ''--duration-s'']"

lemma hog_cli_spellings:
  assumes "joined name v arg" "name \<in> set hog_cli_options"
  shows "parse_loop hog_arg (arg # post) st = parse_loop hog_arg (name # v # post) st"
  using assms(2) unfolding hog_cli_options_def list.set insert_iff empty_iff simp_thms
  by (elim disjE; use assms(1) in \<open>simp add: hog_arg_def spelling_rules\<close>)

lemma hog_cli_spellings_behind:
  assumes "joined name v arg" "name \<in> set hog_cli_options" "parse_loop hog_arg pre default_hog = Inr st"
  shows "hog_args (pre @ arg # post) = hog_args (pre @ name # v # post)"
  using hog_cli.same_behind [OF assms(3) hog_cli_spellings [OF assms(1,2)]] by (simp add: hog_args_def)

definition chunk_bytes :: "hog_options \<Rightarrow> size_t" where
  "chunk_bytes opt = hg_chunk_mb opt * 1024 * 1024"

subsection \<open>A cycle\<close>

text \<open>The allocation loop from index \<open>i\<close> on, with \<open>n\<close> turns left: it ends at a failure.\<close>

fun hog_allocate :: "alloc \<Rightarrow> size_t \<Rightarrow> nat \<Rightarrow> nat \<Rightarrow> ptr list \<Rightarrow> heap \<Rightarrow> ptr list \<times> nat \<times> heap" where
  "hog_allocate alloc bytes i 0 blks h = (blks, 0, h)"
| "hog_allocate alloc bytes i (Suc n) blks h =
     (case cuda_malloc alloc bytes h of
        (Inl e, h') \<Rightarrow> (blks, 0, h')
      | (Inr p, h') \<Rightarrow>
          (case hog_allocate alloc bytes (Suc i) n (blks[i := p]) h' of (blks', k, h'') \<Rightarrow> (blks', Suc k, h'')))"

fun hog_free :: "ptr list \<Rightarrow> heap \<Rightarrow> ptr list \<times> heap" where
  "hog_free [] h = ([], h)"
| "hog_free (p # ps) h =
     (case hog_free ps (if p \<noteq> 0 then cuda_free p h else h) of (ps', h') \<Rightarrow> (0 # ps', h'))"

definition hog_cycle :: "alloc \<Rightarrow> hog_options \<Rightarrow> ptr list \<times> heap \<Rightarrow> ptr list \<times> heap" where
  "hog_cycle alloc opt st =
     (case hog_allocate alloc (chunk_bytes opt) 0 (nat (sint (hg_chunks opt))) (fst st) (snd st) of
        (blks, _, h) \<Rightarrow> hog_free blks h)"

definition hog_run :: "alloc \<Rightarrow> hog_options \<Rightarrow> nat \<Rightarrow> heap \<Rightarrow> ptr list \<times> heap" where
  "hog_run alloc opt cycles h =
     ((hog_cycle alloc opt) ^^ cycles) (replicate (nat (sint (hg_chunks opt))) 0, h)"

subsection \<open>No leak\<close>

definition held :: "ptr list \<Rightarrow> ptr multiset" where
  "held blks = filter_mset (\<lambda>p. p \<noteq> 0) (mset blks)"

definition hog_inv :: "ptr multiset \<Rightarrow> ptr list \<Rightarrow> heap \<Rightarrow> bool" where
  "hog_inv F blks h \<longleftrightarrow> mset (live h) = held blks + F \<and> distinct (live h) \<and> \<not> bad_free h"

lemma held_update: "i < length blks \<Longrightarrow> blks ! i = 0 \<Longrightarrow> p \<noteq> 0 \<Longrightarrow> held (blks[i := p]) = add_mset p (held blks)"
  by (simp add: held_def mset_update filter_mset_add_mset)

lemma hog_allocate_inv:
  assumes "alloc_ok alloc"
  shows "hog_inv F blks h \<Longrightarrow> length blks = i + n \<Longrightarrow> \<forall>j. i \<le> j \<and> j < i + n \<longrightarrow> blks ! j = 0 \<Longrightarrow>
    hog_allocate alloc bytes i n blks h = (blks', k, h') \<Longrightarrow>
    hog_inv F blks' h' \<and> length blks' = length blks \<and> k \<le> n \<and> size (held blks') = size (held blks) + k"
proof (induction n arbitrary: i blks h blks' k h')
  case (Suc n)
  show ?case
  proof (cases "alloc h bytes")
    case (Inl e)
    with Suc.prems show ?thesis by (auto simp: cuda_malloc_def hog_inv_def)
  next
    case (Inr p)
    let ?h = "h\<lparr>live := p # live h, alloc_calls := Suc (alloc_calls h)\<rparr>"
    have p: "p \<noteq> 0" "p \<notin> set (live h)" using assms Inr by (auto simp: alloc_ok_def)
    have hu: "held (blks[i := p]) = add_mset p (held blks)"
      using Suc.prems(2,3) p(1) by (intro held_update) simp_all
    obtain k' where r: "hog_allocate alloc bytes (Suc i) n (blks[i := p]) ?h = (blks', k', h')" "k = Suc k'"
      using Suc.prems(4) Inr by (auto simp: cuda_malloc_def split: prod.splits)
    have "hog_inv F (blks[i := p]) ?h" using Suc.prems(1) p(2) hu by (simp add: hog_inv_def)
    from Suc.IH [OF this _ _ r(1)] Suc.prems(2,3) hu r(2) show ?thesis by simp
  qed
qed simp

lemma hog_free_inv:
  "hog_inv F blks h \<Longrightarrow> hog_free blks h = (blks', h') \<Longrightarrow> hog_inv F blks' h' \<and> blks' = replicate (length blks) 0"
proof (induction blks arbitrary: h blks' h')
  case (Cons p ps)
  let ?h = "if p \<noteq> 0 then cuda_free p h else h"
  obtain ps' where r: "hog_free ps ?h = (ps', h')" "blks' = 0 # ps'"
    using Cons.prems(2) by (auto split: prod.splits)
  have "hog_inv F ps ?h"
  proof (cases "p = 0")
    case False
    then have m: "mset (live h) = add_mset p (held ps + F)" using Cons.prems(1) by (simp add: hog_inv_def held_def)
    then have "p \<in> set (live h)" by (metis set_mset_mset union_single_eq_member add_mset_add_single)
    with m False Cons.prems(1) show ?thesis by (simp add: hog_inv_def cuda_free_def distinct_remove1)
  qed (use Cons.prems(1) in \<open>simp add: hog_inv_def held_def\<close>)
  from Cons.IH [OF this r(1)] r(2) show ?case by (simp add: hog_inv_def held_def)
qed (simp add: hog_inv_def held_def)

lemma hog_cycle_inv:
  assumes "alloc_ok alloc" "hog_inv F blks h" "blks = replicate (nat (sint (hg_chunks opt))) 0"
    and "hog_cycle alloc opt (blks, h) = (blks', h')"
  shows "hog_inv F blks' h' \<and> blks' = blks"
proof -
  obtain b k g where a: "hog_allocate alloc (chunk_bytes opt) 0 (nat (sint (hg_chunks opt))) blks h = (b, k, g)"
    by (metis prod_cases3)
  have "hog_inv F b g" "length b = length blks"
    using hog_allocate_inv [OF assms(1,2) _ _ a] assms(3) by simp_all
  moreover have "hog_free b g = (blks', h')" using assms(4) a by (simp add: hog_cycle_def)
  ultimately show ?thesis using hog_free_inv [of F b g blks' h'] assms(3) by auto
qed

text \<open>
  The memory hog does not leak and frees nothing twice, however many cycles it runs and
  wherever allocations fail: after every cycle what is allocated is what was allocated before
  the run; and what one cycle holds are as many blocks as allocations succeeded, at most
  \<open>--chunks\<close>.
\<close>

theorem hog_no_leak:
  assumes "alloc_ok alloc" "distinct (live h)" "\<not> bad_free h" "hog_run alloc opt cycles h = (blks, h')"
  shows "mset (live h') = mset (live h) \<and> \<not> bad_free h' \<and> (\<forall>p \<in> set blks. p = 0) \<and>
    (\<forall>b k g. hog_allocate alloc (chunk_bytes opt) 0 (nat (sint (hg_chunks opt))) blks h' = (b, k, g) \<longrightarrow>
      k \<le> nat (sint (hg_chunks opt)) \<and> size (held b) = k \<and> mset (live g) = held b + mset (live h))"
proof -
  let ?n = "nat (sint (hg_chunks opt))" and ?F = "mset (live h)"
  have "hog_inv ?F (fst st) (snd st) \<and> fst st = replicate ?n 0"
    if "st = ((hog_cycle alloc opt) ^^ cycles) (replicate ?n 0, h)" for st
    using that
  proof (induction cycles arbitrary: st)
    case 0
    then show ?case using assms(2,3) by (simp add: hog_inv_def held_def)
  next
    case (Suc c)
    let ?s = "((hog_cycle alloc opt) ^^ c) (replicate ?n 0, h)"
    have ih: "hog_inv ?F (fst ?s) (snd ?s)" "fst ?s = replicate ?n 0" using Suc.IH [OF refl] by blast+
    have "hog_cycle alloc opt (fst ?s, snd ?s) = (fst st, snd st)" using Suc.prems by simp
    from hog_cycle_inv [OF assms(1) ih this] ih(2) show ?case by metis
  qed
  moreover have "(blks, h') = ((hog_cycle alloc opt) ^^ cycles) (replicate ?n 0, h)"
    using assms(4) by (simp add: hog_run_def)
  ultimately have inv: "hog_inv ?F blks h'" "blks = replicate ?n 0" unfolding fst_conv snd_conv by (metis fst_conv snd_conv)+
  then have "held blks = {#}" by (simp add: held_def)
  with inv hog_allocate_inv [OF assms(1) inv(1), of 0 ?n] show ?thesis
    by (auto simp: hog_inv_def)
qed

theorem hog_no_leak_witness:
  "live (snd (hog_run (bump_alloc 2) default_hog 3 \<lparr>live = [], bad_free = False, alloc_calls = 0\<rparr>)) = []"
  using hog_no_leak [OF bump_alloc_ok [of 2], of "\<lparr>live = [], bad_free = False, alloc_calls = 0\<rparr>" default_hog 3]
  by (metis prod.collapse heap.select_convs(1,2) distinct.simps(1) mset.simps(1) mset_zero_iff)

end
