(* ===== verification/Usage.thy ===== *)
theory Usage
  imports Daemon BenchGemm BenchOverlap MemoryHog
begin

section \<open>The usage texts (print_usage of the four programs)\<close>

text \<open>
  What \<open>--help\<close> prints, line by line, and what it promises: the options that exist and their
  defaults.  The texts are read back by \<open>usage_options\<close> and \<open>usage_defaults\<close>, and compared with
  the parsers of \<open>Daemon\<close>, \<open>BenchGemm\<close>, \<open>BenchOverlap\<close> and \<open>MemoryHog\<close>.
\<close>

definition daemon_usage :: "string list" where
  "daemon_usage = [
     ''Usage: scheduler_daemon [options]'',
     ''GPU batch inference scheduler daemon.'',
     '''',
     ''Options:'',
     ''  --jobs <N>          synthetic jobs to generate'',
     ''  --arrival-rate <R>  poisson arrival rate in jobs/sec (default 0)'',
     ''  --saturation        submit all --jobs at once (open-loop backlog);'',
     ''                      use with --jobs N to measure peak throughput'',
     ''  --replay <csv>      replay jobs from CSV (id,m,n,k,batch,priority)'',
     ''  --max-batch <N>     jobs per packed batch (default 8)'',
     ''  --workers <N>       worker threads / streams (default 2)'',
     ''  --impl <name>       tiled|cublas (default tiled)'',
     ''  --margin-mb <MB>    GPU memory safety margin (default 256)'',
     ''  --metrics-csv <p>   metrics CSV output path'',
     ''  --min-size <N>      min m/n/k for synthetic jobs (default 64)'',
     ''  --max-size <N>      max m/n/k for synthetic jobs (default 1024)'',
     ''  --job-batch-max <N> max internal batch per job (default 8)'',
     ''  --http-port <N>    status server port, 0 disables (default 8080)'',
     ''  --force-cpu        run without a GPU (jobs are dropped)'',
     ''  --stress           adversarial memory workload: queue several times'',
     ''                     the GPU'' @ [CHR 0x27] @ ''s memory plus two oversized jobs'',
     ''  --help              show this message'']"

definition gemm_usage :: "string list" where
  "gemm_usage = [
     ''Usage: bench_gemm [options]'',
     ''Batched GEMM benchmark: C[b] = A[b] * B[b], A:(M,K), B:(K,N), row-major, float32.'',
     '''',
     ''Options:'',
     ''  --m <int>       rows of A/C        (default 512)'',
     ''  --n <int>       cols of B/C        (default 512)'',
     ''  --k <int>       inner dimension    (default 512)'',
     ''  --batch <int>   batch size B       (default 8)'',
     ''  --iters <int>   timed runs, median reported (default 50)'',
     ''  --warmup <int>  untimed warmup runs (default 10)'',
     ''  --impl <name>   naive|tiled|cublas|cpu (default tiled)'',
     ''  --skip-check    skip the CPU reference (benchmark-only mode)'',
     ''  --help          show this message'']"

definition overlap_usage :: "string list" where
  "overlap_usage = [
     ''Usage: bench_overlap [options]'',
     ''  --shape BxMxNxK  shape to test (repeatable; default 8x512^3, 8x1024^3)'',
     ''  --jobs <N>       jobs per timed sequence (default 20)'',
     ''  --reps <N>       timed sequences, median reported (default 5)'',
     ''  --warmup <N>     warmup sequences (default 2)'',
     ''  --impl <name>    tiled|cublas (default tiled)'',
     ''  --help           show this message'']"

definition hog_usage :: "string list" where
  "hog_usage = [
     ''Usage: gpu_memory_hog [options]'',
     ''  --chunk-mb <N>   MiB per allocation chunk   (default 1024)'',
     ''  --chunks <N>     chunks held simultaneously (default 8)'',
     ''  --hold-ms <N>    hold time per cycle        (default 750)'',
     ''  --sleep-ms <N>   idle time between cycles   (default 500)'',
     ''  --duration-s <N> total run time             (default 60)'',
     ''  --help           show this message'']"

subsection \<open>Reading a usage text\<close>

text \<open>An option line starts with two spaces and the name; a value is named after one space, the
  description of an option without one after several.\<close>

definition usage_option :: "string \<Rightarrow> (string \<times> bool) option" where
  "usage_option line =
     (if starts_with ''  --'' line
      then let name = takeWhile (\<lambda>c. c \<noteq> CHR '' '') (drop 2 line);
               rest = drop (2 + length name) line
           in Some (name, starts_with '' '' rest \<and> \<not> starts_with ''  '' rest)
      else None)"

definition usage_options :: "string list \<Rightarrow> (string \<times> bool) list" where
  "usage_options ls = List.map_filter usage_option ls"

fun text_after :: "string \<Rightarrow> string \<Rightarrow> string option" where
  "text_after pat [] = None"
| "text_after pat (c # cs) = (if starts_with pat (c # cs) then Some (drop (length pat) (c # cs)) else text_after pat cs)"

definition usage_default :: "string \<Rightarrow> (string \<times> string) option" where
  "usage_default line =
     (case (usage_option line, text_after ''(default '' line) of
        (Some (name, _), Some rest) \<Rightarrow> Some (name, takeWhile (\<lambda>c. c \<noteq> CHR '')'') rest)
      | _ \<Rightarrow> None)"

definition usage_defaults :: "string list \<Rightarrow> (string \<times> string) list" where
  "usage_defaults ls = List.map_filter usage_default ls"

definition documented :: "string list \<Rightarrow> string \<Rightarrow> bool" where
  "documented ls arg \<longleftrightarrow>
     (\<exists>(name, has_value) \<in> set (usage_options ls). if has_value then is_option name arg else arg = name)"

subsection \<open>The options\<close>

lemma daemon_usage_options: "usage_options daemon_usage =
  [(''--jobs'', True), (''--arrival-rate'', True), (''--saturation'', False), (''--replay'', True), (''--max-batch'', True),
   (''--workers'', True), (''--impl'', True), (''--margin-mb'', True), (''--metrics-csv'', True), (''--min-size'', True),
   (''--max-size'', True), (''--job-batch-max'', True), (''--http-port'', True), (''--force-cpu'', False),
   (''--stress'', False), (''--help'', False)]"
  by code_simp

lemma gemm_usage_options: "usage_options gemm_usage =
  [(''--m'', True), (''--n'', True), (''--k'', True), (''--batch'', True), (''--iters'', True), (''--warmup'', True),
   (''--impl'', True), (''--skip-check'', False), (''--help'', False)]"
  by code_simp

lemma overlap_usage_options: "usage_options overlap_usage =
  [(''--shape'', True), (''--jobs'', True), (''--reps'', True), (''--warmup'', True), (''--impl'', True), (''--help'', False)]"
  by code_simp

lemma hog_usage_options: "usage_options hog_usage =
  [(''--chunk-mb'', True), (''--chunks'', True), (''--hold-ms'', True), (''--sleep-ms'', True), (''--duration-s'', True),
   (''--help'', False)]"
  by code_simp

lemma usage_default_lists:
  "usage_defaults daemon_usage = [(''--arrival-rate'', ''0''), (''--max-batch'', ''8''), (''--workers'', ''2''),
     (''--impl'', ''tiled''), (''--margin-mb'', ''256''), (''--min-size'', ''64''), (''--max-size'', ''1024''),
     (''--job-batch-max'', ''8''), (''--http-port'', ''8080'')]"
  "usage_defaults gemm_usage = [(''--m'', ''512''), (''--n'', ''512''), (''--k'', ''512''), (''--batch'', ''8''),
     (''--iters'', ''50''), (''--warmup'', ''10''), (''--impl'', ''tiled'')]"
  "usage_defaults overlap_usage = [(''--jobs'', ''20''), (''--reps'', ''5''), (''--warmup'', ''2''), (''--impl'', ''tiled'')]"
  "usage_defaults hog_usage = [(''--chunk-mb'', ''1024''), (''--chunks'', ''8''), (''--hold-ms'', ''750''),
     (''--sleep-ms'', ''500''), (''--duration-s'', ''60'')]"
  by code_simp+

subsection \<open>The texts against the parsers\<close>

text \<open>What the errors of an option's value look like: never like the error of an unknown argument.\<close>

definition speaks_of_unknown :: "string + 'a \<Rightarrow> bool" where
  "speaks_of_unknown r = (case r of Inl e \<Rightarrow> starts_with ''unknown argument: '' e | Inr _ \<Rightarrow> False)"

lemma with_value_known:
  assumes "\<And>val. \<not> speaks_of_unknown (parse name val)"
  shows "\<not> speaks_of_unknown (with_value parse name arg rest upd)"
proof -
  have "\<not> starts_with ''unknown argument: '' e" if "parse name v = Inl e" for v e
    using assms [of v] that by (simp add: speaks_of_unknown_def)
  then show ?thesis
    by (auto simp: with_value_def option_value_def speaks_of_unknown_def split: sum.splits list.splits if_splits)
qed

lemma known_values:
  "\<not> speaks_of_unknown (parse_int name val)" "\<not> speaks_of_unknown (parse_u64 name val)"
  "\<not> speaks_of_unknown (parse_string name val)" "\<not> speaks_of_unknown (parse_double stod name val)"
  "\<not> speaks_of_unknown (plain_stoi name val)" "\<not> speaks_of_unknown (parse_shape val)"
  by (auto simp: speaks_of_unknown_def parse_int_def parse_u64_def parse_string_def parse_double_def plain_stoi_def parse_shape_def
      invalid_integer_def Let_def split: option.split)

lemmas known_rules = with_value_known [OF known_values(1)] with_value_known [OF known_values(2)]
  with_value_known [OF known_values(3)] with_value_known [OF known_values(4)] with_value_known [OF known_values(5)]
  with_value_known [where parse = "\<lambda>_. parse_shape", OF known_values(6)]

lemma speaks_simps:
  "speaks_of_unknown (Inl e) \<longleftrightarrow> starts_with ''unknown argument: '' e" "\<not> speaks_of_unknown (Inr x)"
  by (simp_all add: speaks_of_unknown_def)

lemma daemon_unknown: "speaks_of_unknown (daemon_arg stod arg rest cg) \<longleftrightarrow> \<not> (documented daemon_usage arg \<or> arg = ''-h'')"
  unfolding documented_def daemon_usage_options daemon_arg_def Let_def
  by (simp add: known_rules speaks_simps if_distrib [of speaks_of_unknown])

lemma gemm_unknown: "speaks_of_unknown (gemm_arg arg rest opt) \<longleftrightarrow> \<not> (documented gemm_usage arg \<or> arg = ''-h'')"
  unfolding documented_def gemm_usage_options gemm_arg_def Let_def
  by (simp add: known_rules speaks_simps if_distrib [of speaks_of_unknown])

lemma overlap_unknown: "speaks_of_unknown (overlap_arg arg rest oo) \<longleftrightarrow> \<not> (documented overlap_usage arg \<or> arg = ''-h'')"
  unfolding documented_def overlap_usage_options overlap_arg_def Let_def
  by (simp add: known_rules speaks_simps if_distrib [of speaks_of_unknown])

lemma hog_unknown: "speaks_of_unknown (hog_arg arg rest ho) \<longleftrightarrow> \<not> (documented hog_usage arg \<or> arg = ''-h'')"
  unfolding documented_def hog_usage_options hog_arg_def Let_def
  by (simp add: known_rules speaks_simps if_distrib [of speaks_of_unknown])

text \<open>An option given its documented default changes nothing.\<close>

lemma gemm_defaults: "\<forall>(name, d) \<in> set (usage_defaults gemm_usage). gemm_arg name [d] default_gemm = Inr (default_gemm, 1)"
  unfolding usage_default_lists by code_simp

lemma overlap_defaults: "\<forall>(name, d) \<in> set (usage_defaults overlap_usage). overlap_arg name [d] default_overlap = Inr (default_overlap, 1)"
  unfolding usage_default_lists by code_simp

lemma hog_defaults: "\<forall>(name, d) \<in> set (usage_defaults hog_usage). hog_arg name [d] default_hog = Inr (default_hog, 1)"
  unfolding usage_default_lists by code_simp

lemma default_updates:
  "default_config\<lparr>cfg_max_batch := 8\<rparr> = default_config" "default_config\<lparr>cfg_workers := 2\<rparr> = default_config"
  "default_config\<lparr>cfg_impl := ''tiled''\<rparr> = default_config" "default_config\<lparr>cfg_margin_mb := 256\<rparr> = default_config"
  "default_config\<lparr>cfg_min_size := 64\<rparr> = default_config" "default_config\<lparr>cfg_max_size := 1024\<rparr> = default_config"
  "default_config\<lparr>cfg_max_job_batch := 8\<rparr> = default_config" "default_config\<lparr>cfg_http_port := 8080\<rparr> = default_config"
  by (simp_all add: default_config_def)

lemma number_texts:
  "stoi ''8'' = Some (8, 1)" "stoi ''2'' = Some (2, 1)" "stoi ''64'' = Some (64, 2)" "stoi ''1024'' = Some (1024, 4)"
  "stoi ''8080'' = Some (8080, 4)"
  by code_simp+

lemma margin_text: "stoull ''256'' = Some (256, 3)"
proof -
  have "scan_number ''256'' = Some (False, 256, 3)" by code_simp
  then show ?thesis by (simp add: stoull_def)
qed

lemma parsed_defaults:
  "parse_u64 name ''256'' = Inr 256" "parse_int name ''8'' = Inr 8" "parse_int name ''2'' = Inr 2"
  "parse_int name ''64'' = Inr 64" "parse_int name ''1024'' = Inr 1024" "parse_int name ''8080'' = Inr 8080"
  "parse_string name val = Inr val"
  by (simp_all add: parse_u64_def parse_int_def parse_string_def number_texts margin_text)

lemma default_values:
  "daemon_arg stod ''--max-batch'' [''8''] (cfg, given) = Inr ((cfg\<lparr>cfg_max_batch := 8\<rparr>, given), 1)"
  "daemon_arg stod ''--workers'' [''2''] (cfg, given) = Inr ((cfg\<lparr>cfg_workers := 2\<rparr>, given), 1)"
  "daemon_arg stod ''--impl'' [''tiled''] (cfg, given) = Inr ((cfg\<lparr>cfg_impl := ''tiled''\<rparr>, given), 1)"
  "daemon_arg stod ''--margin-mb'' [''256''] (cfg, given) = Inr ((cfg\<lparr>cfg_margin_mb := 256\<rparr>, given), 1)"
  "daemon_arg stod ''--min-size'' [''64''] (cfg, given) = Inr ((cfg\<lparr>cfg_min_size := 64\<rparr>, given), 1)"
  "daemon_arg stod ''--max-size'' [''1024''] (cfg, given) = Inr ((cfg\<lparr>cfg_max_size := 1024\<rparr>, given), 1)"
  "daemon_arg stod ''--job-batch-max'' [''8''] (cfg, given) = Inr ((cfg\<lparr>cfg_max_job_batch := 8\<rparr>, given), 1)"
  "daemon_arg stod ''--http-port'' [''8080''] (cfg, given) = Inr ((cfg\<lparr>cfg_http_port := 8080\<rparr>, given), 1)"
  by (simp add: daemon_arg_def is_option_def, simp add: with_value_def option_value_def parsed_defaults)+

lemma daemon_default_values:
  "\<forall>(name, d) \<in> set (tl (usage_defaults daemon_usage)).
     daemon_arg stod name [d] (default_config, False) = Inr ((default_config, False), 1)"
  unfolding usage_default_lists list.sel list.set ball_simps prod.case default_values default_updates by simp

lemma daemon_default_rate:
  assumes "stod ''0'' = Some (Fin 0, 1)"
  shows "daemon_arg stod ''--arrival-rate'' [''0''] (default_config, False) = Inr ((default_config, True), 1)"
proof -
  have "default_config\<lparr>cfg_arrival_rate := Fin 0\<rparr> = default_config" by (simp add: default_config_def)
  then show ?thesis
    by (simp add: daemon_arg_def is_option_def) (simp add: with_value_def option_value_def parse_double_def assms)
qed

lemma daemon_defaults:
  assumes "stod ''0'' = Some (Fin 0, 1)"
  shows "\<forall>(name, d) \<in> set (usage_defaults daemon_usage).
    \<exists>given. daemon_arg stod name [d] (default_config, False) = Inr ((default_config, given), 1)"
proof -
  have "set (usage_defaults daemon_usage) = insert (''--arrival-rate'', ''0'') (set (tl (usage_defaults daemon_usage)))"
    by (simp add: usage_default_lists)
  then show ?thesis
    using daemon_default_values [of stod] daemon_default_rate [of stod, OF assms]
    by (simp only: ball_simps prod.case) blast
qed

text \<open>
  The usage texts tell the truth.  Each program rejects an argument as unknown exactly when its
  usage text does not list it (as a flag, or as an option with its value in either spelling) and it is
  not \<open>-h\<close>, which no text lists; and giving an option the default that the text states leaves the
  default configuration as it is.
\<close>

theorem usage_texts_match_parsers:
  assumes "stod ''0'' = Some (Fin 0, 1)"
  shows "(speaks_of_unknown (daemon_arg stod arg rest cg) \<longleftrightarrow> \<not> (documented daemon_usage arg \<or> arg = ''-h'')) \<and>
    (speaks_of_unknown (gemm_arg arg rest go) \<longleftrightarrow> \<not> (documented gemm_usage arg \<or> arg = ''-h'')) \<and>
    (speaks_of_unknown (overlap_arg arg rest oo) \<longleftrightarrow> \<not> (documented overlap_usage arg \<or> arg = ''-h'')) \<and>
    (speaks_of_unknown (hog_arg arg rest ho) \<longleftrightarrow> \<not> (documented hog_usage arg \<or> arg = ''-h'')) \<and>
    (\<forall>(name, d) \<in> set (usage_defaults daemon_usage).
       \<exists>given. daemon_arg stod name [d] (default_config, False) = Inr ((default_config, given), 1)) \<and>
    (\<forall>(name, d) \<in> set (usage_defaults gemm_usage). gemm_arg name [d] default_gemm = Inr (default_gemm, 1)) \<and>
    (\<forall>(name, d) \<in> set (usage_defaults overlap_usage). overlap_arg name [d] default_overlap = Inr (default_overlap, 1)) \<and>
    (\<forall>(name, d) \<in> set (usage_defaults hog_usage). hog_arg name [d] default_hog = Inr (default_hog, 1))"
  using daemon_unknown [of stod arg rest cg] gemm_unknown [of arg rest go] overlap_unknown [of arg rest oo]
    hog_unknown [of arg rest ho] daemon_defaults [of stod, OF assms] gemm_defaults overlap_defaults hog_defaults
  by (intro conjI)

definition one_digit :: to_double where
  "one_digit val = (case val of [c] \<Rightarrow> Some (Fin (of_nat (of_char c - 48)), 1) | _ \<Rightarrow> None)"

theorem usage_texts_match_parsers_witness:
  "speaks_of_unknown (daemon_arg one_digit ''--stress=1'' [] (default_config, False))"
  using usage_texts_match_parsers [of one_digit "''--stress=1''" "[]" "(default_config, False)"]
  by (simp add: one_digit_def documented_def daemon_usage_options is_option_def)

end
