(* ===== verification/Handles.thy ===== *)
theory Handles
  imports Buffers
begin

section \<open>The classes that own one resource (scheduler.cpp, bench/*.cpp, gemm_cublas.cu)\<close>

text \<open>
  Besides \<open>DeviceBuffer\<close> the program has five classes that own one resource each: the events
  \<open>CudaEvent\<close> (scheduler.cpp), \<open>Event\<close> (bench_overlap.cpp) and \<open>CudaEvent\<close> (bench_gemm.cpp), the
  pinned buffers \<open>PinnedHostBuffer\<close> (scheduler.cpp) and \<open>PinnedBuffer\<close> (bench_overlap.cpp), and
  \<open>CublasHandle\<close> (gemm_cublas.cu).  A handle is a pointer, null when nothing is owned; the heap of
  \<open>Buffers\<close> stands for the handles that the library has given out and not taken back.  What they
  have in common, that a destructor gives back what the object owns and nothing else, is the
  locale \<open>owner\<close>; vectors and scopes of such objects are treated once, inside it.
\<close>

subsection \<open>Events\<close>

type_synonym handle = ptr

text \<open>\<open>CudaEvent\<close>: the constructor throws when the event cannot be made; the destructor skips a null
  handle; moving leaves null behind.  The assignment is the one between different objects.\<close>

definition CudaEvent_new :: "alloc \<Rightarrow> heap \<Rightarrow> (cuda_error + handle) \<times> heap" where
  "CudaEvent_new create h = cuda_malloc create 0 h"

definition CudaEvent_delete :: "handle \<Rightarrow> heap \<Rightarrow> heap" where
  "CudaEvent_delete event h = (if event \<noteq> 0 then cuda_free event h else h)"

definition CudaEvent_move :: "handle \<Rightarrow> handle \<times> handle" where
  "CudaEvent_move other = (other, 0)"

definition CudaEvent_move_assign :: "handle \<Rightarrow> handle \<Rightarrow> heap \<Rightarrow> (handle \<times> handle) \<times> heap" where
  "CudaEvent_move_assign event other h = ((other, 0), if event \<noteq> 0 then cuda_free event h else h)"

text \<open>\<open>Event\<close> of bench_overlap.cpp.\<close>

definition Event_new :: "alloc \<Rightarrow> heap \<Rightarrow> (cuda_error + handle) \<times> heap" where
  "Event_new create h = cuda_malloc create 0 h"

definition Event_delete :: "handle \<Rightarrow> heap \<Rightarrow> heap" where
  "Event_delete e h = (if e \<noteq> 0 then cuda_free e h else h)"

definition Event_move :: "handle \<Rightarrow> handle \<times> handle" where
  "Event_move other = (other, 0)"

definition Event_move_assign :: "handle \<Rightarrow> handle \<Rightarrow> heap \<Rightarrow> (handle \<times> handle) \<times> heap" where
  "Event_move_assign e other h = ((other, 0), if e \<noteq> 0 then cuda_free e h else h)"

text \<open>\<open>CudaEvent\<close> of bench_gemm.cpp: neither copied nor moved, and its destructor does not look at
  the handle.\<close>

definition plain_event_new :: "alloc \<Rightarrow> heap \<Rightarrow> (cuda_error + handle) \<times> heap" where
  "plain_event_new create h = cuda_malloc create 0 h"

definition plain_event_delete :: "handle \<Rightarrow> heap \<Rightarrow> heap" where
  "plain_event_delete event h = cuda_free event h"

text \<open>\<open>CublasHandle\<close>.\<close>

definition CublasHandle_new :: "alloc \<Rightarrow> heap \<Rightarrow> (cuda_error + handle) \<times> heap" where
  "CublasHandle_new create h = cuda_malloc create 0 h"

definition CublasHandle_delete :: "handle \<Rightarrow> heap \<Rightarrow> heap" where
  "CublasHandle_delete handle h = (if handle \<noteq> 0 then cuda_free handle h else h)"

subsection \<open>Pinned buffers\<close>

text \<open>\<open>PinnedHostBuffer<float>\<close>; \<open>allocate\<close> throws, there is no \<open>try_allocate\<close>.\<close>

definition PinnedHostBuffer_release :: "buffer \<Rightarrow> heap \<Rightarrow> buffer \<times> heap" where
  "PinnedHostBuffer_release b h =
     (let (b', h') = (if data_ptr b \<noteq> 0 then (b\<lparr>data_ptr := 0\<rparr>, cuda_free (data_ptr b) h) else (b, h))
      in (b'\<lparr>count := 0\<rparr>, h'))"

definition PinnedHostBuffer_allocate ::
    "alloc \<Rightarrow> size_t \<Rightarrow> buffer \<Rightarrow> heap \<Rightarrow> (cuda_error + unit) \<times> buffer \<times> heap" where
  "PinnedHostBuffer_allocate alloc n b h =
     (let (b1, h1) = PinnedHostBuffer_release b h
      in if n = 0 then (Inr (), b1, h1)
         else case cuda_malloc alloc (n * 4) h1 of
                (Inl e, h2) \<Rightarrow> (Inl e, b1, h2)
              | (Inr p, h2) \<Rightarrow> (Inr (), b1\<lparr>data_ptr := p, count := n\<rparr>, h2))"

definition PinnedHostBuffer_move_assign :: "buffer \<Rightarrow> buffer \<Rightarrow> heap \<Rightarrow> (buffer \<times> buffer) \<times> heap" where
  "PinnedHostBuffer_move_assign self other h =
     (let (b, h1) = PinnedHostBuffer_release self h
      in ((b\<lparr>data_ptr := data_ptr other, count := count other\<rparr>, other\<lparr>data_ptr := 0, count := 0\<rparr>), h1))"

definition PinnedHostBuffer_move :: "buffer \<Rightarrow> buffer \<times> buffer" where
  "PinnedHostBuffer_move other = (\<lparr>data_ptr = data_ptr other, count = count other\<rparr>, other\<lparr>data_ptr := 0, count := 0\<rparr>)"

text \<open>The constructor from a count, the destructor and the accessors.\<close>

definition PinnedHostBuffer_new :: "alloc \<Rightarrow> size_t \<Rightarrow> heap \<Rightarrow> (cuda_error + buffer) \<times> heap" where
  "PinnedHostBuffer_new alloc n h =
     (case PinnedHostBuffer_allocate alloc n empty_buffer h of
        (Inl e, b, h') \<Rightarrow> (Inl e, h') | (Inr _, b, h') \<Rightarrow> (Inr b, h'))"

definition PinnedHostBuffer_delete :: "buffer \<Rightarrow> heap \<Rightarrow> heap" where
  "PinnedHostBuffer_delete b h = snd (PinnedHostBuffer_release b h)"

definition PinnedHostBuffer_data :: "buffer \<Rightarrow> ptr" where
  "PinnedHostBuffer_data b = data_ptr b"

definition PinnedHostBuffer_size :: "buffer \<Rightarrow> size_t" where
  "PinnedHostBuffer_size b = count b"

definition PinnedHostBuffer_bytes :: "buffer \<Rightarrow> size_t" where
  "PinnedHostBuffer_bytes b = count b * 4"

text \<open>\<open>PinnedBuffer\<close> of bench_overlap.cpp.\<close>

definition PinnedBuffer_release :: "buffer \<Rightarrow> heap \<Rightarrow> buffer \<times> heap" where
  "PinnedBuffer_release b h =
     (let (b', h') = (if data_ptr b \<noteq> 0 then (b\<lparr>data_ptr := 0\<rparr>, cuda_free (data_ptr b) h) else (b, h))
      in (b'\<lparr>count := 0\<rparr>, h'))"

definition PinnedBuffer_allocate ::
    "alloc \<Rightarrow> size_t \<Rightarrow> buffer \<Rightarrow> heap \<Rightarrow> (cuda_error + unit) \<times> buffer \<times> heap" where
  "PinnedBuffer_allocate alloc n b h =
     (let (b1, h1) = PinnedBuffer_release b h
      in if n = 0 then (Inr (), b1, h1)
         else case cuda_malloc alloc (n * 4) h1 of
                (Inl e, h2) \<Rightarrow> (Inl e, b1, h2)
              | (Inr p, h2) \<Rightarrow> (Inr (), b1\<lparr>data_ptr := p, count := n\<rparr>, h2))"

definition PinnedBuffer_move_assign :: "buffer \<Rightarrow> buffer \<Rightarrow> heap \<Rightarrow> (buffer \<times> buffer) \<times> heap" where
  "PinnedBuffer_move_assign self other h =
     (let (b, h1) = PinnedBuffer_release self h
      in ((b\<lparr>data_ptr := data_ptr other, count := count other\<rparr>, other\<lparr>data_ptr := 0, count := 0\<rparr>), h1))"

definition PinnedBuffer_move :: "buffer \<Rightarrow> buffer \<times> buffer" where
  "PinnedBuffer_move other = (\<lparr>data_ptr = data_ptr other, count = count other\<rparr>, other\<lparr>data_ptr := 0, count := 0\<rparr>)"

definition PinnedBuffer_delete :: "buffer \<Rightarrow> heap \<Rightarrow> heap" where
  "PinnedBuffer_delete b h = snd (PinnedBuffer_release b h)"

definition PinnedBuffer_data :: "buffer \<Rightarrow> ptr" where
  "PinnedBuffer_data b = data_ptr b"

definition PinnedBuffer_size :: "buffer \<Rightarrow> size_t" where
  "PinnedBuffer_size b = count b"

text \<open>They behave as \<open>DeviceBuffer\<close> does.\<close>

lemma pinned_release: "PinnedHostBuffer_release = release" "PinnedBuffer_release = release"
  by (auto simp: fun_eq_iff PinnedHostBuffer_release_def PinnedBuffer_release_def release_def empty_buffer_def Let_def)

lemma released_empty: "fst (release b h) = empty_buffer"
  by (cases b) (simp add: release_def empty_buffer_def)

lemma pinned_allocate:
  assumes "alloc_ok alloc"
  shows "PinnedHostBuffer_allocate alloc = allocate alloc" "PinnedBuffer_allocate alloc = allocate alloc"
proof -
  have ok: "e \<noteq> cudaSuccess" if "cuda_malloc alloc n h = (Inl e, h')" for n h h' e
    using assms that by (auto simp: cuda_malloc_def alloc_ok_def split: sum.splits)
  have emp: "b1 = empty_buffer" if "release b h = (b1, h1)" for b h b1 h1
    using released_empty [of b h] that by simp
  show "PinnedHostBuffer_allocate alloc = allocate alloc" "PinnedBuffer_allocate alloc = allocate alloc"
    by (auto simp: fun_eq_iff PinnedHostBuffer_allocate_def PinnedBuffer_allocate_def allocate_def try_allocate_def
        pinned_release Let_def empty_buffer_def split: prod.splits sum.splits dest!: ok emp)
qed

text \<open>A pinned buffer reports what it was made with, and its destructor undoes the constructor.\<close>

lemma pinned_new:
  assumes "alloc_ok alloc" "heap_inv F [] h" "PinnedHostBuffer_new alloc n h = (Inr b, h')"
  shows "PinnedHostBuffer_size b = n" "PinnedHostBuffer_data b \<noteq> 0 \<longleftrightarrow> n \<noteq> 0" "PinnedHostBuffer_bytes b = n * 4"
    "heap_inv F [] (PinnedHostBuffer_delete b h')"
proof -
  have a: "allocate alloc n empty_buffer h = (Inr (), b, h')"
    using assms(3) by (auto simp: PinnedHostBuffer_new_def pinned_allocate [OF assms(1)] split: prod.splits sum.splits)
  note f = allocate_fresh [OF assms(1,2) a]
  show "PinnedHostBuffer_size b = n" "PinnedHostBuffer_data b \<noteq> 0 \<longleftrightarrow> n \<noteq> 0" "PinnedHostBuffer_bytes b = n * 4"
    using f by (simp_all add: PinnedHostBuffer_size_def PinnedHostBuffer_data_def PinnedHostBuffer_bytes_def
        buffer_size_def buffer_bool_def size_bytes_def)
  show "heap_inv F [] (PinnedHostBuffer_delete b h')"
    using release_empty [OF f(3)] by (simp add: PinnedHostBuffer_delete_def pinned_release)
qed

lemma pinned_deletes: "PinnedHostBuffer_delete b h = snd (release b h)" "PinnedBuffer_delete b h = snd (release b h)"
  by (simp_all add: PinnedHostBuffer_delete_def PinnedBuffer_delete_def pinned_release)

lemma pinned_moves:
  "PinnedHostBuffer_move_assign = move_assign" "PinnedBuffer_move_assign = move_assign"
  "PinnedHostBuffer_move = move_construct" "PinnedBuffer_move = move_construct"
  by (auto simp: fun_eq_iff PinnedHostBuffer_move_assign_def PinnedBuffer_move_assign_def move_assign_def
      PinnedHostBuffer_move_def PinnedBuffer_move_def move_construct_def pinned_release empty_buffer_def
      split: prod.splits)

subsection \<open>Owners\<close>

text \<open>What an object owns, in the frame \<open>F\<close> of everything else that is allocated.\<close>

definition heap_ok :: "ptr list \<Rightarrow> ptr multiset \<Rightarrow> heap \<Rightarrow> bool" where
  "heap_ok ps F h \<longleftrightarrow> mset (live h) = mset ps + F \<and> distinct (live h) \<and> \<not> bad_free h"

lemma heap_ok_append: "heap_ok (ps @ qs) F h \<longleftrightarrow> heap_ok ps (F + mset qs) h"
  by (auto simp: heap_ok_def add_ac)

lemma heap_ok_commute: "heap_ok (ps @ qs) F h \<longleftrightarrow> heap_ok (qs @ ps) F h"
  by (simp add: heap_ok_def add_ac)

lemma heap_ok_frame: "heap_ok ps (F + mset qs) h \<longleftrightarrow> heap_ok qs (F + mset ps) h"
  by (auto simp: heap_ok_def add_ac)

lemma heap_ok_malloc:
  assumes "alloc_ok al" "heap_ok [] F h" "cuda_malloc al n h = (r, h')"
  shows "(\<forall>p. r = Inr p \<longrightarrow> p \<noteq> 0 \<and> heap_ok [p] F h') \<and> (\<forall>e. r = Inl e \<longrightarrow> heap_ok [] F h')"
proof (cases "al h n")
  case (Inr p)
  with assms(1) have "p \<noteq> 0" "p \<notin> set (live h)" by (auto simp: alloc_ok_def)
  with Inr assms(2,3) show ?thesis by (auto simp: cuda_malloc_def heap_ok_def)
qed (use assms(2,3) in \<open>auto simp: cuda_malloc_def heap_ok_def\<close>)

lemma heap_ok_free: "heap_ok [p] F h \<Longrightarrow> heap_ok [] F (cuda_free p h)"
  by (auto simp: heap_ok_def cuda_free_def simp flip: set_mset_mset)

text \<open>Building several objects one after the other (the members of a scope, the elements of a
  vector): when one constructor throws, the objects built before it are destroyed in reverse.\<close>

fun make_all :: "('w \<Rightarrow> ('e + 'h) \<times> 'w) \<Rightarrow> ('h \<Rightarrow> 'w \<Rightarrow> 'w) \<Rightarrow> nat \<Rightarrow> 'w \<Rightarrow> ('e + 'h list) \<times> 'w" where
  "make_all new delete 0 w = (Inr [], w)"
| "make_all new delete (Suc n) w =
     (case new w of
        (Inl e, w') \<Rightarrow> (Inl e, w')
      | (Inr x, w') \<Rightarrow>
          (case make_all new delete n w' of
             (Inl e, w'') \<Rightarrow> (Inl e, delete x w'')
           | (Inr xs, w'') \<Rightarrow> (Inr (x # xs), w'')))"

text \<open>\<open>std::vector::resize\<close> to more elements than it has: the new elements are built first, then
  the old ones are moved to the new storage and the moved-from objects destroyed.\<close>

definition resize_vector :: "('w \<Rightarrow> ('e + 'h) \<times> 'w) \<Rightarrow> ('h \<Rightarrow> 'w \<Rightarrow> 'w) \<Rightarrow> ('h \<Rightarrow> 'h \<times> 'h) \<Rightarrow> nat \<Rightarrow> 'h list
    \<Rightarrow> 'w \<Rightarrow> ('e + unit) \<times> 'h list \<times> 'w" where
  "resize_vector new delete move n xs w =
     (case make_all new delete (n - length xs) w of
        (Inl e, w') \<Rightarrow> (Inl e, xs, w')
      | (Inr ys, w') \<Rightarrow> (Inr (), map (fst \<circ> move) xs @ ys, fold delete (map (snd \<circ> move) xs) w'))"

definition owns_all :: "('h \<Rightarrow> ptr list) \<Rightarrow> 'h list \<Rightarrow> ptr list" where
  "owns_all owns xs = concat (map owns xs)"

lemma owns_all_simps [simp]:
  "owns_all owns [] = []" "owns_all owns (x # xs) = owns x @ owns_all owns xs"
  "owns_all owns (xs @ ys) = owns_all owns xs @ owns_all owns ys"
  by (simp_all add: owns_all_def)

locale owner =
  fixes owns :: "'h \<Rightarrow> ptr list"
    and delete :: "'h \<Rightarrow> heap \<Rightarrow> heap"
  assumes delete_frees: "heap_ok (owns x) F h \<Longrightarrow> heap_ok [] F (delete x h)"
begin

lemma delete_one: "heap_ok (owns x @ ps) F h \<Longrightarrow> heap_ok ps F (delete x h)"
  using delete_frees [of x "F + mset ps" h] by (simp add: heap_ok_append) (simp add: heap_ok_def)

lemma delete_all: "heap_ok (owns_all owns xs @ ps) F h \<Longrightarrow> heap_ok ps F (fold delete xs h)"
proof (induction xs arbitrary: h)
  case (Cons x xs)
  then have "heap_ok (owns_all owns xs @ ps) F (delete x h)" by (intro delete_one) simp
  with Cons.IH show ?case by simp
qed simp

end

locale constructed = owner +
  fixes new :: "alloc \<Rightarrow> heap \<Rightarrow> (cuda_error + 'a) \<times> heap"
  assumes new_owns: "alloc_ok al \<Longrightarrow> heap_ok [] F h \<Longrightarrow> new al h = (Inr x, h') \<Longrightarrow> heap_ok (owns x) F h'"
    and new_throws: "alloc_ok al \<Longrightarrow> heap_ok [] F h \<Longrightarrow> new al h = (Inl e, h') \<Longrightarrow> heap_ok [] F h'"
begin

text \<open>Either all objects are built, or what was allocated before is allocated afterwards.\<close>

lemma make_all_ok:
  assumes "alloc_ok al"
  shows "heap_ok [] F h \<Longrightarrow> make_all (new al) delete n h = (r, h') \<Longrightarrow>
    (case r of Inr xs \<Rightarrow> length xs = n \<and> heap_ok (owns_all owns xs) F h' | Inl e \<Rightarrow> heap_ok [] F h')"
proof (induction n arbitrary: F h r h')
  case (Suc n)
  show ?case
  proof (cases "new al h")
    case (Pair r1 h1)
    show ?thesis
    proof (cases r1)
      case (Inl e)
      with Pair Suc.prems new_throws [OF assms] show ?thesis by auto
    next
      case (Inr x)
      obtain r2 h2 where m: "make_all (new al) delete n h1 = (r2, h2)" by fastforce
      have "heap_ok (owns x) F h1" using Pair Inr Suc.prems new_owns [OF assms] by auto
      then have "heap_ok [] (F + mset (owns x)) h1" by (simp add: heap_ok_def)
      from Suc.IH [OF this m]
      have ih: "case r2 of Inr xs \<Rightarrow> length xs = n \<and> heap_ok (owns_all owns xs) (F + mset (owns x)) h2
          | Inl e \<Rightarrow> heap_ok [] (F + mset (owns x)) h2" .
      then show ?thesis
      proof (cases r2)
        case (Inl e)
        with ih have "heap_ok (owns x) F h2" by (simp add: heap_ok_def)
        with delete_frees Suc.prems(2) Pair Inr m Inl show ?thesis by auto
      next
        case (Inr xs)
        with ih have "length xs = n" "heap_ok (owns x @ owns_all owns xs) F h2" by (auto simp: heap_ok_def)
        with Suc.prems(2) Pair \<open>r1 = Inr x\<close> m Inr show ?thesis by auto
      qed
    qed
  qed
qed auto

end

locale movable = constructed +
  fixes move :: "'a \<Rightarrow> 'a \<times> 'a"
  assumes moved_to: "owns (fst (move x)) = owns x"
    and moved_from: "owns (snd (move x)) = []"
begin

lemma owns_moved: "owns_all owns (map (fst \<circ> move) xs) = owns_all owns xs" "owns_all owns (map (snd \<circ> move) xs) = []"
  by (induction xs) (simp_all add: moved_to moved_from)

text \<open>A vector that grows keeps its old elements, and is unchanged when a constructor throws.\<close>

lemma resize_ok:
  assumes "alloc_ok al" "heap_ok (owns_all owns xs @ ps) F h"
    and "resize_vector (new al) delete move n xs h = (r, ys, h')"
  shows "heap_ok (owns_all owns ys @ ps) F h' \<and> (r = Inr () \<longrightarrow> length ys = max n (length xs)) \<and>
    (\<forall>e. r = Inl e \<longrightarrow> ys = xs)"
proof -
  let ?G = "F + mset (owns_all owns xs @ ps)"
  obtain r1 h1 where m: "make_all (new al) delete (n - length xs) h = (r1, h1)" by fastforce
  have "heap_ok [] ?G h" using assms(2) by (simp add: heap_ok_def)
  from make_all_ok [OF assms(1) this m]
  have *: "case r1 of Inr zs \<Rightarrow> length zs = n - length xs \<and> heap_ok (owns_all owns zs) ?G h1 | Inl e \<Rightarrow> heap_ok [] ?G h1" .
  show ?thesis
  proof (cases r1)
    case (Inl e)
    with * m assms(3) show ?thesis by (auto simp: resize_vector_def heap_ok_def add_ac)
  next
    case (Inr zs)
    let ?old = "map (snd \<circ> move) xs"
    from * Inr have len: "length zs = n - length xs" and ok: "heap_ok (owns_all owns zs) ?G h1" by simp_all
    from ok have "heap_ok (owns_all owns ?old @ owns_all owns xs @ owns_all owns zs @ ps) F h1"
      by (simp only: owns_moved) (simp add: heap_ok_def add_ac)
    from delete_all [OF this] have "heap_ok (owns_all owns (map (fst \<circ> move) xs @ zs) @ ps) F (fold delete ?old h1)"
      by (simp only: owns_all_simps owns_moved) simp
    with m assms(3) Inr len show ?thesis by (auto simp: resize_vector_def)
  qed
qed

end

subsection \<open>The classes are owners\<close>

definition handle_owns :: "handle \<Rightarrow> ptr list" where
  "handle_owns e = (if e = 0 then [] else [e])"

lemma malloc_new:
  assumes "alloc_ok al" "heap_ok [] F h"
  shows "cuda_malloc al n h = (Inr p, h') \<Longrightarrow> heap_ok (handle_owns p) F h'"
    and "cuda_malloc al n h = (Inr p, h') \<Longrightarrow> heap_ok [p] F h'"
    and "cuda_malloc al n h = (Inl e, h') \<Longrightarrow> heap_ok [] F h'"
  using heap_ok_malloc [OF assms, of n] by (auto simp: handle_owns_def)

lemmas handle_defs = handle_owns_def CudaEvent_new_def CudaEvent_delete_def CudaEvent_move_def Event_new_def
  Event_delete_def Event_move_def plain_event_new_def plain_event_delete_def CublasHandle_new_def CublasHandle_delete_def

interpretation cuda_event: movable handle_owns CudaEvent_delete CudaEvent_new CudaEvent_move
  by unfold_locales (auto simp: handle_defs heap_ok_free malloc_new [unfolded handle_owns_def])

interpretation bench_event: movable handle_owns Event_delete Event_new Event_move
  by unfold_locales (auto simp: handle_defs heap_ok_free malloc_new [unfolded handle_owns_def])

interpretation plain_event: constructed "\<lambda>e. [e]" plain_event_delete plain_event_new
  by unfold_locales (auto simp: handle_defs heap_ok_free malloc_new)

text \<open>\<open>DeviceBuffer(count)\<close>; an exception of the constructor leaves no object.\<close>

definition DeviceBuffer_new :: "size_t \<Rightarrow> alloc \<Rightarrow> heap \<Rightarrow> (cuda_error + buffer) \<times> heap" where
  "DeviceBuffer_new n alloc h =
     (case allocate alloc n empty_buffer h of
        (Inr _, b, h') \<Rightarrow> (Inr b, h')
      | (Inl e, b, h') \<Rightarrow> (Inl e, h'))"

definition DeviceBuffer_delete :: "buffer \<Rightarrow> heap \<Rightarrow> heap" where
  "DeviceBuffer_delete b h = snd (release b h)"

definition buffer_owns :: "buffer \<Rightarrow> ptr list" where
  "buffer_owns b = handle_owns (data_ptr b)"

interpretation device_buffer: constructed buffer_owns DeviceBuffer_delete "DeviceBuffer_new n" for n
proof unfold_locales
  show "heap_ok (buffer_owns x) F h \<Longrightarrow> heap_ok [] F (DeviceBuffer_delete x h)" for x F h
    by (auto simp: buffer_owns_def handle_owns_def DeviceBuffer_delete_def release_def heap_ok_free)
  have ok: "case r of Inr x \<Rightarrow> heap_ok (buffer_owns x) F h' | Inl e \<Rightarrow> heap_ok [] F h'"
    if "alloc_ok al" "heap_ok [] F h" "DeviceBuffer_new n al h = (r, h')" for al F h r h'
  proof (cases "n = 0")
    case False
    obtain r1 h1 where m: "cuda_malloc al (n * 4) h = (r1, h1)" by fastforce
    have "DeviceBuffer_new n al h = (case r1 of Inl e \<Rightarrow>
        (if e = cudaSuccess then (Inr empty_buffer, h1) else (Inl e, h1)) | Inr p \<Rightarrow> (Inr \<lparr>data_ptr = p, count = n\<rparr>, h1))"
      using False m by (simp add: DeviceBuffer_new_def allocate_def try_allocate_def release_def empty_buffer_def split: sum.split)
    with heap_ok_malloc [OF that(1,2) m] that(3) show ?thesis
      by (cases r1) (auto simp: buffer_owns_def handle_owns_def empty_buffer_def split: if_splits)
  qed (use that in \<open>auto simp: DeviceBuffer_new_def allocate_def try_allocate_def release_def empty_buffer_def
      buffer_owns_def handle_owns_def\<close>)
  show "alloc_ok al \<Longrightarrow> heap_ok [] F h \<Longrightarrow> DeviceBuffer_new n al h = (Inr x, h') \<Longrightarrow> heap_ok (buffer_owns x) F h'"
    for al F h x h' using ok by fastforce
  show "alloc_ok al \<Longrightarrow> heap_ok [] F h \<Longrightarrow> DeviceBuffer_new n al h = (Inl e, h') \<Longrightarrow> heap_ok [] F h'"
    for al F h e h' using ok by fastforce
qed

text \<open>The pinned buffers are built and given back as the device buffers are.\<close>

lemma pinned_new_device: "alloc_ok al \<Longrightarrow> PinnedHostBuffer_new al n h = DeviceBuffer_new n al h"
  by (simp add: PinnedHostBuffer_new_def DeviceBuffer_new_def pinned_allocate split: prod.split sum.split)

interpretation pinned_buffer: constructed buffer_owns PinnedHostBuffer_delete "\<lambda>al. PinnedHostBuffer_new al n" for n
proof unfold_locales
  show "heap_ok (buffer_owns x) F h \<Longrightarrow> heap_ok [] F (PinnedHostBuffer_delete x h)" for x F h
    using device_buffer.delete_frees [of x F h] by (simp add: pinned_deletes DeviceBuffer_delete_def)
qed (simp_all add: pinned_new_device device_buffer.new_owns device_buffer.new_throws)

interpretation cublas: constructed handle_owns CublasHandle_delete CublasHandle_new
  by unfold_locales (auto simp: handle_defs heap_ok_free malloc_new [unfolded handle_owns_def])

subsection \<open>The streams and events of a worker (WorkerContext in scheduler.cpp)\<close>

record WorkerContext =
  h2d_stream :: handle
  compute_stream :: handle
  d2h_stream :: handle
  h2d_done :: "handle list"
  kern_done :: "handle list"
  done_events :: "handle list"

definition new_context :: WorkerContext where
  "new_context = \<lparr>h2d_stream = 0, compute_stream = 0, d2h_stream = 0, h2d_done = [], kern_done = [], done_events = []\<rparr>"

text \<open>The start of \<open>execute_batch\<close>: the streams on first use, and one event of each kind per job.  An
  exception leaves the context as far as it was built.\<close>

definition make_streams :: "alloc \<Rightarrow> WorkerContext \<Rightarrow> heap \<Rightarrow> (cuda_error + unit) \<times> WorkerContext \<times> heap" where
  "make_streams create ctx h =
     (if h2d_stream ctx \<noteq> 0 then (Inr (), ctx, h)
      else case cuda_malloc create 0 h of
        (Inl e, h1) \<Rightarrow> (Inl e, ctx, h1)
      | (Inr p, h1) \<Rightarrow>
          (case cuda_malloc create 0 h1 of
             (Inl e, h2) \<Rightarrow> (Inl e, ctx\<lparr>h2d_stream := p\<rparr>, h2)
           | (Inr q, h2) \<Rightarrow>
               (case cuda_malloc create 0 h2 of
                  (Inl e, h3) \<Rightarrow> (Inl e, ctx\<lparr>h2d_stream := p, compute_stream := q\<rparr>, h3)
                | (Inr r, h3) \<Rightarrow> (Inr (), ctx\<lparr>h2d_stream := p, compute_stream := q, d2h_stream := r\<rparr>, h3))))"

definition grow :: "alloc \<Rightarrow> nat \<Rightarrow> handle list \<Rightarrow> heap \<Rightarrow> (cuda_error + unit) \<times> handle list \<times> heap" where
  "grow create n xs h = resize_vector (CudaEvent_new create) CudaEvent_delete CudaEvent_move n xs h"

definition grow_events :: "alloc \<Rightarrow> nat \<Rightarrow> WorkerContext \<Rightarrow> heap \<Rightarrow> (cuda_error + unit) \<times> WorkerContext \<times> heap" where
  "grow_events create n ctx h =
     (if n \<le> length (h2d_done ctx) then (Inr (), ctx, h)
      else case grow create n (h2d_done ctx) h of
        (Inl e, xs, h1) \<Rightarrow> (Inl e, ctx\<lparr>h2d_done := xs\<rparr>, h1)
      | (Inr _, xs, h1) \<Rightarrow>
          (case grow create n (kern_done ctx) h1 of
             (Inl e, ys, h2) \<Rightarrow> (Inl e, ctx\<lparr>h2d_done := xs, kern_done := ys\<rparr>, h2)
           | (Inr _, ys, h2) \<Rightarrow>
               (case grow create n (done_events ctx) h2 of
                  (r, zs, h3) \<Rightarrow> (r, ctx\<lparr>h2d_done := xs, kern_done := ys, done_events := zs\<rparr>, h3))))"

definition prepare_batch :: "alloc \<Rightarrow> alloc \<Rightarrow> nat \<Rightarrow> WorkerContext \<Rightarrow> heap \<Rightarrow> heap
    \<Rightarrow> (cuda_error + unit) \<times> WorkerContext \<times> heap \<times> heap" where
  "prepare_batch streams events n ctx sh eh =
     (case make_streams streams ctx sh of
        (Inl e, ctx1, sh1) \<Rightarrow> (Inl e, ctx1, sh1, eh)
      | (Inr _, ctx1, sh1) \<Rightarrow>
          (case grow_events events n ctx1 eh of (r, ctx2, eh1) \<Rightarrow> (r, ctx2, sh1, eh1)))"

text \<open>The destructor of the context destroys the events, in the reverse order of its members; it knows
  nothing of the streams.\<close>

definition destroy_context :: "WorkerContext \<Rightarrow> heap \<Rightarrow> heap" where
  "destroy_context ctx eh =
     fold CudaEvent_delete (h2d_done ctx) (fold CudaEvent_delete (kern_done ctx)
       (fold CudaEvent_delete (done_events ctx) eh))"

text \<open>The end of \<open>worker_loop\<close>: the streams are destroyed by hand.\<close>

definition destroy_stream :: "handle \<Rightarrow> heap \<Rightarrow> heap" where
  "destroy_stream s h = (if s \<noteq> 0 then cuda_free s h else h)"

definition end_worker :: "WorkerContext \<Rightarrow> heap \<Rightarrow> heap \<Rightarrow> heap \<times> heap" where
  "end_worker ctx sh eh =
     (destroy_stream (d2h_stream ctx) (destroy_stream (compute_stream ctx) (destroy_stream (h2d_stream ctx) sh)),
      destroy_context ctx eh)"

text \<open>A worker that prepares its context for a sequence of batches.\<close>

fun prepare_batches :: "alloc \<Rightarrow> alloc \<Rightarrow> nat list \<Rightarrow> WorkerContext \<Rightarrow> heap \<Rightarrow> heap
    \<Rightarrow> (cuda_error + unit) \<times> WorkerContext \<times> heap \<times> heap" where
  "prepare_batches streams events [] ctx sh eh = (Inr (), ctx, sh, eh)"
| "prepare_batches streams events (n # ns) ctx sh eh =
     (case prepare_batch streams events n ctx sh eh of
        (Inl e, ctx1, sh1, eh1) \<Rightarrow> (Inl e, ctx1, sh1, eh1)
      | (Inr _, ctx1, sh1, eh1) \<Rightarrow> prepare_batches streams events ns ctx1 sh1 eh1)"

text \<open>\<open>worker_loop\<close> as far as its context is concerned.  An exception of a stream or an event creation
  passes the handler that releases the bytes of the batch and leaves the function: the end of the
  function is skipped, and only the destructor of the context runs (if the stack is unwound at all:
  nothing catches the exception in the thread).\<close>

definition worker_context_run :: "alloc \<Rightarrow> alloc \<Rightarrow> nat list \<Rightarrow> heap \<Rightarrow> heap
    \<Rightarrow> (cuda_error + unit) \<times> WorkerContext \<times> heap \<times> heap" where
  "worker_context_run streams events ns sh eh =
     (case prepare_batches streams events ns new_context sh eh of
        (Inr u, ctx, sh1, eh1) \<Rightarrow> (Inr u, ctx, end_worker ctx sh1 eh1)
      | (Inl e, ctx, sh1, eh1) \<Rightarrow> (Inl e, ctx, sh1, destroy_context ctx eh1))"

definition ctx_streams :: "WorkerContext \<Rightarrow> ptr list" where
  "ctx_streams ctx = owns_all handle_owns [h2d_stream ctx, compute_stream ctx, d2h_stream ctx]"

definition ctx_events :: "WorkerContext \<Rightarrow> ptr list" where
  "ctx_events ctx = owns_all handle_owns (done_events ctx @ kern_done ctx @ h2d_done ctx)"

definition ctx_inv :: "ptr multiset \<Rightarrow> ptr multiset \<Rightarrow> WorkerContext \<Rightarrow> heap \<Rightarrow> heap \<Rightarrow> bool" where
  "ctx_inv S E ctx sh eh \<longleftrightarrow> heap_ok (ctx_streams ctx) S sh \<and> heap_ok (ctx_events ctx) E eh \<and>
     (h2d_stream ctx = 0 \<longrightarrow> compute_stream ctx = 0 \<and> d2h_stream ctx = 0)"

lemma malloc_frame:
  assumes "alloc_ok al" "heap_ok ps F h" "cuda_malloc al n h = (r, h')"
  shows "case r of Inr p \<Rightarrow> p \<noteq> 0 \<and> heap_ok (p # ps) F h' | Inl e \<Rightarrow> heap_ok ps F h'"
proof -
  have "heap_ok [] (F + mset ps) h" using assms(2) by (simp add: heap_ok_def add_ac)
  from heap_ok_malloc [OF assms(1) this assms(3)] show ?thesis by (auto simp: heap_ok_def split: sum.split)
qed

lemma make_streams_inv:
  assumes "alloc_ok al" "ctx_inv S E ctx sh eh" "make_streams al ctx sh = (r, ctx', sh')"
  shows "ctx_inv S E ctx' sh' eh \<and> (r = Inr () \<longrightarrow> h2d_stream ctx' \<noteq> 0)"
proof (cases "h2d_stream ctx = 0")
  case True
  then have z: "compute_stream ctx = 0" "d2h_stream ctx = 0" and ok: "heap_ok [] S sh"
    and ev: "heap_ok (ctx_events ctx) E eh"
    using assms(2) by (auto simp: ctx_inv_def ctx_streams_def handle_owns_def)
  have inv: "ctx_inv S E c g eh"
    if "h2d_stream c = p" "compute_stream c = q" "d2h_stream c = d" "ctx_events c = ctx_events ctx"
      "heap_ok (handle_owns d @ handle_owns q @ handle_owns p) S g" "p = 0 \<Longrightarrow> q = 0 \<and> d = 0" for p q d c g
    using that ev by (auto simp: ctx_inv_def ctx_streams_def heap_ok_def add_ac)
  obtain r1 h1 where m1: "cuda_malloc al 0 sh = (r1, h1)" by fastforce
  note f1 = malloc_frame [OF assms(1) ok m1]
  show ?thesis
  proof (cases r1)
    case (Inl e)
    with f1 m1 assms(3) True z inv [of ctx 0 0 0 h1] show ?thesis by (auto simp: make_streams_def handle_owns_def)
  next
    case (Inr p)
    with f1 have p: "p \<noteq> 0" "heap_ok [p] S h1" by simp_all
    obtain r2 h2 where m2: "cuda_malloc al 0 h1 = (r2, h2)" by fastforce
    note f2 = malloc_frame [OF assms(1) p(2) m2]
    show ?thesis
    proof (cases r2)
      case (Inl e)
      with f2 m1 m2 p Inr assms(3) True z inv [of ctx' p 0 0 h2] show ?thesis
        by (auto simp: make_streams_def handle_owns_def ctx_events_def)
    next
      case (Inr q)
      with f2 have q: "q \<noteq> 0" "heap_ok [q, p] S h2" by simp_all
      obtain r3 h3 where m3: "cuda_malloc al 0 h2 = (r3, h3)" by fastforce
      note f3 = malloc_frame [OF assms(1) q(2) m3]
      show ?thesis
      proof (cases r3)
        case (Inl e)
        with f3 m1 m2 m3 p q \<open>r1 = Inr p\<close> Inr assms(3) True z inv [of ctx' p q 0 h3] show ?thesis
          by (auto simp: make_streams_def handle_owns_def ctx_events_def)
      next
        case (Inr d)
        with f3 m1 m2 m3 p q \<open>r1 = Inr p\<close> \<open>r2 = Inr q\<close> assms(3) True inv [of ctx' p q d h3] show ?thesis
          by (auto simp: make_streams_def handle_owns_def ctx_events_def)
      qed
    qed
  qed
qed (use assms in \<open>auto simp: make_streams_def\<close>)

lemma grow_ok:
  assumes "alloc_ok al" "heap_ok (owns_all handle_owns xs @ ps) E h" "grow al n xs h = (r, ys, h')"
  shows "heap_ok (owns_all handle_owns ys @ ps) E h'" "r = Inr () \<Longrightarrow> length ys = max n (length xs)"
    "r = Inl e \<Longrightarrow> ys = xs"
  using cuda_event.resize_ok [OF assms(1,2), of n r ys h'] assms(3) by (simp_all add: grow_def)

lemma ctx_events_perm:
  "heap_ok (ctx_events ctx) E h \<longleftrightarrow>
   heap_ok (owns_all handle_owns (h2d_done ctx) @ owns_all handle_owns (kern_done ctx) @ owns_all handle_owns (done_events ctx)) E h"
  by (simp add: ctx_events_def heap_ok_def add_ac)

lemma grow_events_inv:
  assumes "alloc_ok al" "heap_ok (ctx_events ctx) E eh" "grow_events al n ctx eh = (r, ctx', eh')"
  shows "heap_ok (ctx_events ctx') E eh' \<and> ctx_streams ctx' = ctx_streams ctx \<and> h2d_stream ctx' = h2d_stream ctx \<and>
    compute_stream ctx' = compute_stream ctx \<and> d2h_stream ctx' = d2h_stream ctx"
proof (cases "n \<le> length (h2d_done ctx)")
  case False
  obtain r1 xs h1 where g1: "grow al n (h2d_done ctx) eh = (r1, xs, h1)" by (metis prod_cases3)
  obtain r2 ys h2 where g2: "grow al n (kern_done ctx) h1 = (r2, ys, h2)" by (metis prod_cases3)
  obtain r3 zs h3 where g3: "grow al n (done_events ctx) h2 = (r3, zs, h3)" by (metis prod_cases3)
  note o1 = grow_ok(1) [OF assms(1) assms(2) [unfolded ctx_events_perm] g1]
  have "heap_ok (owns_all handle_owns (kern_done ctx) @ owns_all handle_owns (done_events ctx) @ owns_all handle_owns xs) E h1"
    using o1 by (simp add: heap_ok_def add_ac)
  note o2 = grow_ok(1) [OF assms(1) this g2]
  have "heap_ok (owns_all handle_owns (done_events ctx) @ owns_all handle_owns xs @ owns_all handle_owns ys) E h2"
    using o2 by (simp add: heap_ok_def add_ac)
  note o3 = grow_ok(1) [OF assms(1) this g3]
  have *: "heap_ok (ctx_events (ctx\<lparr>h2d_done := a, kern_done := b, done_events := c\<rparr>)) E g"
    if "heap_ok (owns_all handle_owns a @ owns_all handle_owns b @ owns_all handle_owns c) E g" for a b c g
    using that by (simp add: ctx_events_perm)
  have s: "ctx_streams (ctx\<lparr>h2d_done := a, kern_done := b, done_events := c\<rparr>) = ctx_streams ctx" for a b c
    by (simp add: ctx_streams_def)
  have 1: "heap_ok (ctx_events (ctx\<lparr>h2d_done := xs\<rparr>)) E h1" "heap_ok (ctx_events (ctx\<lparr>h2d_done := xs, kern_done := ys\<rparr>)) E h2"
    "heap_ok (ctx_events (ctx\<lparr>h2d_done := xs, kern_done := ys, done_events := zs\<rparr>)) E h3"
    using * [of xs "kern_done ctx" "done_events ctx" h1] * [of xs ys "done_events ctx" h2] * [of xs ys zs h3] o1 o2 o3
    by (simp_all add: heap_ok_def add_ac)
  show ?thesis using assms(3) False g1 g2 g3 1 s
    by (cases r1; cases r2) (auto simp: grow_events_def ctx_streams_def)
qed (use assms in \<open>auto simp: grow_events_def\<close>)

lemma prepare_batch_inv:
  assumes "alloc_ok sal" "alloc_ok eal" "ctx_inv S E ctx sh eh"
    and "prepare_batch sal eal n ctx sh eh = (r, ctx', sh', eh')"
  shows "ctx_inv S E ctx' sh' eh'"
proof -
  obtain r1 ctx1 sh1 where m: "make_streams sal ctx sh = (r1, ctx1, sh1)" by (metis prod_cases3)
  have inv: "ctx_inv S E ctx1 sh1 eh" and nz: "r1 = Inr () \<Longrightarrow> h2d_stream ctx1 \<noteq> 0"
    using make_streams_inv [OF assms(1,3) m] by simp_all
  show ?thesis
  proof (cases r1)
    case (Inr u)
    obtain r2 ctx2 eh2 where g: "grow_events eal n ctx1 eh = (r2, ctx2, eh2)" by (metis prod_cases3)
    from grow_events_inv [OF assms(2) _ g, of E] inv nz Inr m g assms(4) show ?thesis
      by (auto simp: prepare_batch_def ctx_inv_def)
  qed (use inv m assms(4) in \<open>simp add: prepare_batch_def\<close>)
qed

lemma prepare_batches_inv:
  assumes "alloc_ok sal" "alloc_ok eal"
  shows "ctx_inv S E c a b \<Longrightarrow> prepare_batches sal eal ns c a b = (r, c', a', b') \<Longrightarrow> ctx_inv S E c' a' b'"
proof (induction ns arbitrary: c a b)
  case (Cons n ns)
  obtain r1 c1 a1 b1 where p: "prepare_batch sal eal n c a b = (r1, c1, a1, b1)" by (metis prod_cases4)
  from prepare_batch_inv [OF assms Cons.prems(1) p] Cons.IH [of c1 a1 b1] Cons.prems(2) p show ?case
    by (cases r1) auto
qed simp

lemma ctx_inv_destroyed:
  assumes "ctx_inv S E ctx sh eh" "end_worker ctx sh eh = (sh', eh')"
  shows "heap_ok [] S sh'" "heap_ok [] E eh'" "eh' = destroy_context ctx eh"
proof -
  have "heap_ok (ctx_streams ctx) S sh" "heap_ok (ctx_events ctx) E eh" using assms(1) by (simp_all add: ctx_inv_def)
  moreover have "destroy_stream = CudaEvent_delete"
    by (simp add: fun_eq_iff destroy_stream_def CudaEvent_delete_def)
  then have "sh' = fold CudaEvent_delete [h2d_stream ctx, compute_stream ctx, d2h_stream ctx] sh"
    "eh' = fold CudaEvent_delete (done_events ctx @ kern_done ctx @ h2d_done ctx) eh"
    using assms(2) by (simp_all add: end_worker_def destroy_context_def)
  ultimately show "heap_ok [] S sh'" "heap_ok [] E eh'"
    using cuda_event.delete_all [of _ "[]"] by (simp_all only: ctx_streams_def ctx_events_def append_Nil2)
  show "eh' = destroy_context ctx eh" using assms(2) by (simp add: end_worker_def)
qed

text \<open>
  C28.  What a worker gives back of its streams and events, for any sequence of batches and any
  answers of CUDA.  When \<open>worker_loop\<close> ends, it gives back every stream and event it made.  When
  the creation of a stream or of an event fails, the exception leaves \<open>worker_loop\<close> and skips the
  destruction of the streams: the events are still given back, but exactly the streams of the
  context, at most three, stay allocated.  Nothing is ever destroyed twice.  (The exception then
  ends the thread as well; the statement is about what the members of the context release when
  the stack is unwound.)
\<close>

theorem worker_context_no_leak:
  assumes "alloc_ok sal" "alloc_ok eal" "distinct (live sh)" "\<not> bad_free sh" "distinct (live eh)" "\<not> bad_free eh"
    and "worker_context_run sal eal ns sh eh = (r, ctx, sh', eh')"
  shows "mset (live eh') = mset (live eh) \<and> \<not> bad_free eh' \<and> \<not> bad_free sh' \<and> length (ctx_streams ctx) \<le> 3 \<and>
    mset (live sh') = mset (live sh) + (case r of Inr _ \<Rightarrow> {#} | Inl _ \<Rightarrow> mset (ctx_streams ctx))"
proof -
  let ?S = "mset (live sh)" and ?E = "mset (live eh)"
  obtain c sh1 eh1 where p: "prepare_batches sal eal ns new_context sh eh = (r, c, sh1, eh1)" and c: "c = ctx"
    using assms(7) by (auto simp: worker_context_run_def split: prod.splits sum.splits)
  have "ctx_inv ?S ?E new_context sh eh"
    using assms(3-6) by (simp add: ctx_inv_def new_context_def ctx_streams_def ctx_events_def handle_owns_def heap_ok_def)
  note inv = prepare_batches_inv [OF assms(1,2) this p, unfolded c]
  obtain sh2 eh2 where e: "end_worker ctx sh1 eh1 = (sh2, eh2)" by fastforce
  note d = ctx_inv_destroyed [OF inv e]
  have "length (ctx_streams ctx) \<le> 3" by (simp add: ctx_streams_def handle_owns_def)
  moreover have "heap_ok (ctx_streams ctx) ?S sh1" using inv by (simp add: ctx_inv_def)
  ultimately show ?thesis
    using assms(7) p c e d by (cases r) (auto simp: worker_context_run_def heap_ok_def)
qed

theorem worker_context_no_leak_witness:
  "let h = \<lparr>live = [1], bad_free = False, alloc_calls = 0\<rparr>;
       (r, ctx, sh, eh) = worker_context_run (bump_alloc 9) (bump_alloc 3) [1, 2] h h;
       (r', ctx', sh', eh') = worker_context_run (bump_alloc 9) (bump_alloc 9) [1, 2] h h
   in r = Inl cudaErrorMemoryAllocation \<and> length (live sh) = 4 \<and> mset (live eh) = {#1#} \<and>
      r' = Inr () \<and> mset (live sh') = {#1#} \<and> mset (live eh') = {#1#}"
proof -
  let ?h = "\<lparr>live = [1], bad_free = False, alloc_calls = 0\<rparr>"
  obtain r ctx sh eh where p: "worker_context_run (bump_alloc 9) (bump_alloc 3) [1, 2] ?h ?h = (r, ctx, sh, eh)"
    by (metis prod_cases4)
  obtain r' ctx' sh' eh' where p': "worker_context_run (bump_alloc 9) (bump_alloc 9) [1, 2] ?h ?h = (r', ctx', sh', eh')"
    by (metis prod_cases4)
  have "case worker_context_run (bump_alloc 9) (bump_alloc 3) [1, 2] ?h ?h of (r, ctx, sh, eh) \<Rightarrow>
      r = Inl cudaErrorMemoryAllocation \<and> length (live sh) = 4"
    by code_simp
  moreover have "case worker_context_run (bump_alloc 9) (bump_alloc 9) [1, 2] ?h ?h of (r, ctx, sh, eh) \<Rightarrow> r = Inr ()"
    by code_simp
  ultimately show ?thesis
    using worker_context_no_leak [OF bump_alloc_ok bump_alloc_ok _ _ _ _ p]
      worker_context_no_leak [OF bump_alloc_ok bump_alloc_ok _ _ _ _ p'] p p' by simp
qed

end
