(* ===== verification/BenchMemory.thy ===== *)
theory BenchMemory
  imports BenchGemm Handles
begin

section \<open>The resources of the benchmarks (bench_overlap.cpp, bench_gemm.cpp)\<close>

text \<open>
  What \<open>bench_overlap\<close> and \<open>bench_gemm\<close> allocate: the workspace of a shape (pinned and device
  buffers, events) with its inputs, and the device buffers and events of a run.  Objects live in
  C++ scopes, so every computation here is one that, on success and on any exception, leaves
  allocated what it found allocated: \<open>framed\<close>.  A scope of objects around a framed computation
  is framed again, whatever the library answers; the benchmarks are built from these scopes.
\<close>

record gpu =
  dev_heap :: heap
  pin_heap :: heap
  event_heap :: heap

record gpu_alloc =
  dev_al :: alloc
  pin_al :: alloc
  event_al :: alloc

definition allocs_ok :: "gpu_alloc \<Rightarrow> bool" where
  "allocs_ok al \<longleftrightarrow> alloc_ok (dev_al al) \<and> alloc_ok (pin_al al) \<and> alloc_ok (event_al al)"

text \<open>A computation that may throw: \<open>Inl\<close> is the exception.\<close>

type_synonym 'a compute = "gpu \<Rightarrow> (cuda_error + 'a) \<times> gpu"

subsection \<open>Scopes\<close>

definition on_dev :: "(heap \<Rightarrow> 'r \<times> heap) \<Rightarrow> gpu \<Rightarrow> 'r \<times> gpu" where
  "on_dev f g = (case f (dev_heap g) of (r, h) \<Rightarrow> (r, g\<lparr>dev_heap := h\<rparr>))"

definition on_events :: "(heap \<Rightarrow> 'r \<times> heap) \<Rightarrow> gpu \<Rightarrow> 'r \<times> gpu" where
  "on_events f g = (case f (event_heap g) of (r, h) \<Rightarrow> (r, g\<lparr>event_heap := h\<rparr>))"

text \<open>An object in a scope: it is built, the rest of the scope runs, its destructor runs on every
  way out.\<close>

definition scoped :: "'x compute \<Rightarrow> ('x \<Rightarrow> gpu \<Rightarrow> gpu) \<Rightarrow> ('x \<Rightarrow> 'a compute) \<Rightarrow> 'a compute" where
  "scoped new delete body g =
     (case new g of
        (Inl e, g1) \<Rightarrow> (Inl e, g1)
      | (Inr x, g1) \<Rightarrow> (case body x g1 of (r, g2) \<Rightarrow> (r, delete x g2)))"

definition device_buffer :: "gpu_alloc \<Rightarrow> size_t \<Rightarrow> (buffer \<Rightarrow> 'a compute) \<Rightarrow> 'a compute" where
  "device_buffer al n =
     scoped (on_dev (DeviceBuffer_new n (dev_al al))) (\<lambda>b g. g\<lparr>dev_heap := DeviceBuffer_delete b (dev_heap g)\<rparr>)"

text \<open>Events declared one after the other, destroyed in reverse.\<close>

definition plain_events :: "gpu_alloc \<Rightarrow> nat \<Rightarrow> (handle list \<Rightarrow> 'a compute) \<Rightarrow> 'a compute" where
  "plain_events al n =
     scoped (on_events (make_all (plain_event_new (event_al al)) plain_event_delete n))
       (\<lambda>es g. g\<lparr>event_heap := fold plain_event_delete (rev es) (event_heap g)\<rparr>)"

definition gpu_ok :: "ptr multiset \<Rightarrow> ptr multiset \<Rightarrow> ptr multiset \<Rightarrow> gpu \<Rightarrow> bool" where
  "gpu_ok D P E g \<longleftrightarrow> heap_ok [] D (dev_heap g) \<and> heap_ok [] P (pin_heap g) \<and> heap_ok [] E (event_heap g)"

definition framed :: "'a compute \<Rightarrow> bool" where
  "framed f \<longleftrightarrow> (\<forall>D P E g. gpu_ok D P E g \<longrightarrow> gpu_ok D P E (snd (f g)))"

named_theorems framed_intros \<open>computations that leave the resources as they find them\<close>

lemma framedI: "(\<And>D P E g r g'. gpu_ok D P E g \<Longrightarrow> f g = (r, g') \<Longrightarrow> gpu_ok D P E g') \<Longrightarrow> framed f"
  by (metis framed_def prod.collapse)

lemma framedD: "framed f \<Longrightarrow> gpu_ok D P E g \<Longrightarrow> f g = (r, g') \<Longrightarrow> gpu_ok D P E g'"
  by (metis framed_def snd_conv)

lemma framed_pure [framed_intros]: "framed (\<lambda>g. (r, g))"
  by (simp add: framed_def)

lemma scoped_framed:
  assumes "\<And>x. framed (body x)"
    and "\<And>D P E g g' e. gpu_ok D P E g \<Longrightarrow> new g = (Inl e, g') \<Longrightarrow> gpu_ok D P E g'"
    and "\<And>D P E g g' x. gpu_ok D P E g \<Longrightarrow> new g = (Inr x, g') \<Longrightarrow> gpu_ok (D + d x) P (E + ev x) g'"
    and "\<And>D P E g x. gpu_ok (D + d x) P (E + ev x) g \<Longrightarrow> gpu_ok D P E (delete x g)"
  shows "framed (scoped new delete body)"
proof (rule framedI)
  fix D P E g r g' assume ok: "gpu_ok D P E g" and s: "scoped new delete body g = (r, g')"
  show "gpu_ok D P E g'"
  proof (cases "new g")
    case (Pair r1 g1)
    show ?thesis
    proof (cases r1)
      case (Inl e)
      with s Pair assms(2) [OF ok] show ?thesis by (auto simp: scoped_def)
    next
      case (Inr x)
      with Pair assms(3) [OF ok] have "gpu_ok (D + d x) P (E + ev x) g1" by simp
      moreover obtain r2 g2 where b: "body x g1 = (r2, g2)" by fastforce
      ultimately have "gpu_ok (D + d x) P (E + ev x) g2" using framedD [OF assms(1)] by blast
      from assms(4) [OF this] b s Pair Inr show ?thesis by (simp add: scoped_def)
    qed
  qed
qed

lemma heap_ok_owned: "heap_ok ps F h \<longleftrightarrow> heap_ok [] (F + mset ps) h"
  by (auto simp: heap_ok_def add_ac)

lemma framed_device_buffer [framed_intros]:
  assumes "allocs_ok al" "\<And>b. framed (body b)"
  shows "framed (device_buffer al n body)"
  unfolding device_buffer_def
proof (rule scoped_framed [where d = "\<lambda>b. mset (buffer_owns b)" and ev = "\<lambda>_. {#}", OF assms(2)])
  fix D P E g g' e x assume ok: "gpu_ok D P E g"
  have al: "alloc_ok (dev_al al)" and d: "heap_ok [] D (dev_heap g)" using assms(1) ok by (simp_all add: allocs_ok_def gpu_ok_def)
  show "on_dev (DeviceBuffer_new n (dev_al al)) g = (Inl e, g') \<Longrightarrow> gpu_ok D P E g'"
    using ok by (auto simp: on_dev_def gpu_ok_def split: prod.splits dest: device_buffer.new_throws [OF al d])
  show "on_dev (DeviceBuffer_new n (dev_al al)) g = (Inr x, g') \<Longrightarrow> gpu_ok (D + mset (buffer_owns x)) P (E + {#}) g'"
    using ok by (auto simp: on_dev_def gpu_ok_def heap_ok_owned [of "buffer_owns x"] split: prod.splits
      dest!: device_buffer.new_owns [OF al d])
next
  fix D P E g x assume "gpu_ok (D + mset (buffer_owns x)) P (E + {#}) g"
  then show "gpu_ok D P E (g\<lparr>dev_heap := DeviceBuffer_delete x (dev_heap g)\<rparr>)"
    using device_buffer.delete_frees [of x D "dev_heap g"] by (simp add: gpu_ok_def heap_ok_owned [of "buffer_owns x"])
qed

lemma framed_plain_events [framed_intros]:
  assumes "allocs_ok al" "\<And>es. framed (body es)"
  shows "framed (plain_events al n body)"
  unfolding plain_events_def
proof (rule scoped_framed [where d = "\<lambda>_. {#}" and ev = "\<lambda>es. mset (owns_all (\<lambda>e. [e]) es)", OF assms(2)])
  fix D P E g g' e x assume ok: "gpu_ok D P E g"
  have al: "alloc_ok (event_al al)" using assms(1) by (simp add: allocs_ok_def)
  show "on_events (make_all (plain_event_new (event_al al)) plain_event_delete n) g = (Inl e, g') \<Longrightarrow> gpu_ok D P E g'"
    using plain_event.make_all_ok [OF al, of E "event_heap g" n] ok
    by (fastforce simp: on_events_def gpu_ok_def split: prod.splits)
  show "on_events (make_all (plain_event_new (event_al al)) plain_event_delete n) g = (Inr x, g') \<Longrightarrow>
      gpu_ok (D + {#}) P (E + mset (owns_all (\<lambda>e. [e]) x)) g'"
    using plain_event.make_all_ok [OF al, of E "event_heap g" n] ok
    by (fastforce simp: on_events_def gpu_ok_def heap_ok_owned [of "owns_all (\<lambda>e. [e]) x"] split: prod.splits)
next
  fix D P E g x assume ok: "gpu_ok (D + {#}) P (E + mset (owns_all (\<lambda>e. [e]) x)) g"
  have "mset (owns_all (\<lambda>e. [e]) (rev x)) = mset (owns_all (\<lambda>e. [e]) x)" for x :: "handle list"
    by (induction x) simp_all
  then have "heap_ok (owns_all (\<lambda>e. [e]) (rev x) @ []) E (event_heap g)"
    using ok by (simp add: gpu_ok_def heap_ok_def)
  from plain_event.delete_all [OF this] ok
  show "gpu_ok D P E (g\<lparr>event_heap := fold plain_event_delete (rev x) (event_heap g)\<rparr>)" by (simp add: gpu_ok_def)
qed

subsection \<open>The GPU part of bench_gemm\<close>

text \<open>The buffers \<open>d_a\<close>, \<open>d_b\<close>, \<open>d_c\<close> and the five events of \<open>run_benchmark\<close>; \<open>turns\<close> is how the
  warm-up and the timed turns end.  They allocate nothing themselves.\<close>

definition gemm_sizes :: "gemm_options \<Rightarrow> size_t \<times> size_t \<times> size_t" where
  "gemm_sizes opt =
     (size_of_int (bg_m opt) * size_of_int (bg_k opt) * size_of_int (bg_batch opt),
      size_of_int (bg_k opt) * size_of_int (bg_n opt) * size_of_int (bg_batch opt),
      size_of_int (bg_m opt) * size_of_int (bg_n opt) * size_of_int (bg_batch opt))"

definition gemm_gpu_part :: "gpu_alloc \<Rightarrow> gemm_options \<Rightarrow> (buffer list \<Rightarrow> handle list \<Rightarrow> cuda_error + 'r) \<Rightarrow> 'r compute" where
  "gemm_gpu_part al opt turns =
     (case gemm_sizes opt of (size_a, size_b, size_c) \<Rightarrow>
        device_buffer al size_a (\<lambda>d_a. device_buffer al size_b (\<lambda>d_b. device_buffer al size_c (\<lambda>d_c.
          plain_events al 5 (\<lambda>es g. (turns [d_a, d_b, d_c] es, g))))))"

lemma framed_gemm [framed_intros]: "allocs_ok al \<Longrightarrow> framed (gemm_gpu_part al opt turns)"
  by (simp add: gemm_gpu_part_def gemm_sizes_def framed_intros)

subsection \<open>The workspace of bench_overlap\<close>

text \<open>\<open>pins ! (3 * i), ...\<close> are \<open>pin_a[i]\<close>, \<open>pin_b[i]\<close>, \<open>pin_c[i]\<close>, and \<open>devs\<close> likewise; \<open>events\<close> are
  the vectors \<open>c0, c1, k0, k1, d0, d1\<close>, \<open>marks\<close> the events \<open>start, end, ev_h2d, ev_kern\<close>.\<close>

record Workspace =
  pins :: "buffer list"
  devs :: "buffer list"
  events :: "handle list list"
  marks :: "handle list"

text \<open>The constructor makes the four events and leaves the vectors empty.\<close>

definition Workspace_new :: "gpu_alloc \<Rightarrow> Workspace compute" where
  "Workspace_new al =
     on_events (\<lambda>h. case make_all (Event_new (event_al al)) Event_delete 4 h of
        (Inl e, h') \<Rightarrow> (Inl e, h')
      | (Inr ms, h') \<Rightarrow> (Inr \<lparr>pins = [], devs = [], events = replicate 6 [], marks = ms\<rparr>, h'))"

definition Workspace_delete :: "Workspace \<Rightarrow> gpu \<Rightarrow> gpu" where
  "Workspace_delete w g =
     g\<lparr>event_heap := fold Event_delete (concat (rev (events w))) (fold Event_delete (rev (marks w)) (event_heap g)),
       dev_heap := destroy_all (devs w) (dev_heap g), pin_heap := destroy_all (pins w) (pin_heap g)\<rparr>"

text \<open>Resizing the vectors of events, one after the other.\<close>

fun resize_all :: "alloc \<Rightarrow> nat \<Rightarrow> handle list list \<Rightarrow> heap \<Rightarrow> (cuda_error + unit) \<times> handle list list \<times> heap" where
  "resize_all al n [] h = (Inr (), [], h)"
| "resize_all al n (v # vs) h =
     (case resize_vector (Event_new al) Event_delete Event_move n v h of
        (Inl e, v', h') \<Rightarrow> (Inl e, v' # vs, h')
      | (Inr _, v', h') \<Rightarrow>
          (case resize_all al n vs h' of (r, vs', h'') \<Rightarrow> (r, v' # vs', h'')))"

text \<open>The allocations of the loop over the jobs: for each job pinned, then device memory.  The loop
  fills the inputs of a job before it goes on to the next; that allocates nothing and is kept apart
  (\<open>fill_jobs\<close>).\<close>

datatype memory = Pin | Dev

definition bench_plan :: "size_t \<times> size_t \<times> size_t \<Rightarrow> nat \<Rightarrow> (memory \<times> nat \<times> size_t) list" where
  "bench_plan sizes n =
     (case sizes of (sa, sb, sc) \<Rightarrow>
        concat (map (\<lambda>i. [(Pin, 3 * i, sa), (Pin, 3 * i + 1, sb), (Pin, 3 * i + 2, sc),
          (Dev, 3 * i, sa), (Dev, 3 * i + 1, sb), (Dev, 3 * i + 2, sc)]) [0..<n]))"

fun allocate_bench :: "gpu_alloc \<Rightarrow> (memory \<times> nat \<times> size_t) list \<Rightarrow> Workspace \<Rightarrow> gpu
    \<Rightarrow> (cuda_error + unit) \<times> Workspace \<times> gpu" where
  "allocate_bench al [] w g = (Inr (), w, g)"
| "allocate_bench al ((Pin, k, n) # plan) w g =
     (case PinnedBuffer_allocate (pin_al al) n (pins w ! k) (pin_heap g) of (r, b, h) \<Rightarrow>
        let w' = w\<lparr>pins := (pins w)[k := b]\<rparr>; g' = g\<lparr>pin_heap := h\<rparr>
        in case r of Inl e \<Rightarrow> (Inl e, w', g') | Inr _ \<Rightarrow> allocate_bench al plan w' g')"
| "allocate_bench al ((Dev, k, n) # plan) w g =
     (case allocate (dev_al al) n (devs w ! k) (dev_heap g) of (r, b, h) \<Rightarrow>
        let w' = w\<lparr>devs := (devs w)[k := b]\<rparr>; g' = g\<lparr>dev_heap := h\<rparr>
        in case r of Inl e \<Rightarrow> (Inl e, w', g') | Inr _ \<Rightarrow> allocate_bench al plan w' g')"

definition Workspace_setup :: "gpu_alloc \<Rightarrow> nat \<Rightarrow> size_t \<times> size_t \<times> size_t \<Rightarrow> Workspace \<Rightarrow> gpu
    \<Rightarrow> (cuda_error + unit) \<times> Workspace \<times> gpu" where
  "Workspace_setup al n sizes w g =
     (let w1 = w\<lparr>pins := replicate (3 * n) empty_buffer, devs := replicate (3 * n) empty_buffer\<rparr>
      in case resize_all (event_al al) n (events w1) (event_heap g) of (r, evs, h) \<Rightarrow>
           let w2 = w1\<lparr>events := evs\<rparr>; g2 = g\<lparr>event_heap := h\<rparr>
           in case r of Inl e \<Rightarrow> (Inl e, w2, g2) | Inr _ \<Rightarrow> allocate_bench al (bench_plan sizes n) w2 g2)"

text \<open>The body of \<open>main\<close> for one shape: \<open>runs\<close> is how the four configurations end.\<close>

definition bench_shape :: "gpu_alloc \<Rightarrow> nat \<Rightarrow> (Workspace \<Rightarrow> cuda_error + 'r) \<Rightarrow> Shape \<Rightarrow> 'r compute" where
  "bench_shape al n runs shape g =
     (case Workspace_new al g of
        (Inl e, g1) \<Rightarrow> (Inl e, g1)
      | (Inr w, g1) \<Rightarrow>
          (case Workspace_setup al n (workspace_sizes shape) w g1 of
             (Inl e, w', g2) \<Rightarrow> (Inl e, Workspace_delete w' g2)
           | (Inr _, w', g2) \<Rightarrow> (runs w', Workspace_delete w' g2)))"

fun bench_shapes :: "gpu_alloc \<Rightarrow> nat \<Rightarrow> (Shape \<Rightarrow> Workspace \<Rightarrow> cuda_error + 'r) \<Rightarrow> Shape list \<Rightarrow> 'r list compute" where
  "bench_shapes al n runs [] g = (Inr [], g)"
| "bench_shapes al n runs (s # ss) g =
     (case bench_shape al n (runs s) s g of
        (Inl e, g1) \<Rightarrow> (Inl e, g1)
      | (Inr r, g1) \<Rightarrow>
          (case bench_shapes al n runs ss g1 of (Inl e, g2) \<Rightarrow> (Inl e, g2) | (Inr rs, g2) \<Rightarrow> (Inr (r # rs), g2)))"

text \<open>What a workspace owns.\<close>

definition ws_events :: "Workspace \<Rightarrow> ptr list" where
  "ws_events w = owns_all handle_owns (concat (events w) @ marks w)"

definition ws_inv :: "ptr multiset \<Rightarrow> ptr multiset \<Rightarrow> ptr multiset \<Rightarrow> Workspace \<Rightarrow> gpu \<Rightarrow> bool" where
  "ws_inv D P E w g \<longleftrightarrow> heap_inv D (devs w) (dev_heap g) \<and> heap_inv P (pins w) (pin_heap g) \<and>
     heap_ok (ws_events w) E (event_heap g)"

lemma heap_inv_ok: "heap_inv F [] h \<longleftrightarrow> heap_ok [] F h"
  by (simp add: heap_inv_def heap_ok_def)

lemma Workspace_new_inv:
  assumes "allocs_ok al" "gpu_ok D P E g" "Workspace_new al g = (r, g')"
  shows "case r of Inr w \<Rightarrow> ws_inv D P E w g' \<and> pins w = [] \<and> devs w = [] | Inl e \<Rightarrow> gpu_ok D P E g'"
proof -
  have al: "alloc_ok (event_al al)" and ok: "heap_ok [] E (event_heap g)"
    using assms(1,2) by (simp_all add: allocs_ok_def gpu_ok_def)
  obtain r1 h1 where m: "make_all (Event_new (event_al al)) Event_delete 4 (event_heap g) = (r1, h1)" by fastforce
  from bench_event.make_all_ok [OF al ok m] m assms(2,3) show ?thesis
    by (cases r1) (auto simp: Workspace_new_def on_events_def ws_inv_def ws_events_def gpu_ok_def heap_inv_ok
      concat_replicate_trivial)
qed

lemma mset_owns_concat_rev: "mset (owns_all f (concat (rev xss))) = mset (owns_all f (concat xss))"
  by (induction xss) simp_all

lemma mset_owns_rev: "mset (owns_all f (rev xs)) = mset (owns_all f xs)"
  by (induction xs) simp_all

lemma Workspace_delete_ok:
  assumes "ws_inv D P E w g"
  shows "gpu_ok D P E (Workspace_delete w g)"
proof -
  have "heap_ok (owns_all handle_owns (rev (marks w)) @ owns_all handle_owns (concat (rev (events w)))) E (event_heap g)"
    using assms by (simp add: ws_inv_def ws_events_def heap_ok_def mset_owns_concat_rev mset_owns_rev add_ac)
  then have "heap_ok (owns_all handle_owns (concat (rev (events w))) @ []) E (fold Event_delete (rev (marks w)) (event_heap g))"
    by (simp add: bench_event.delete_all)
  from bench_event.delete_all [OF this] assms show ?thesis
    by (simp add: Workspace_delete_def gpu_ok_def ws_inv_def heap_inv_ok [symmetric] destroy_all_inv)
qed

lemma resize_all_inv:
  assumes "alloc_ok al"
  shows "heap_ok (owns_all handle_owns (concat vs) @ ps) E h \<Longrightarrow> resize_all al n vs h = (r, vs', h') \<Longrightarrow>
    heap_ok (owns_all handle_owns (concat vs') @ ps) E h' \<and>
    (r = Inr () \<longrightarrow> map length vs' = map (\<lambda>v. max n (length v)) vs)"
proof (induction vs arbitrary: ps h r vs' h')
  case (Cons v vs)
  obtain r1 v1 h1 where z: "resize_vector (Event_new al) Event_delete Event_move n v h = (r1, v1, h1)" by (metis prod_cases3)
  have "heap_ok (owns_all handle_owns v @ (owns_all handle_owns (concat vs) @ ps)) E h" using Cons.prems(1) by simp
  note o = bench_event.resize_ok [OF assms this z]
  show ?case
  proof (cases r1)
    case (Inl e)
    with o Cons.prems(2) z show ?thesis by auto
  next
    case (Inr u)
    obtain r2 vs2 h2 where rec: "resize_all al n vs h1 = (r2, vs2, h2)" by (metis prod_cases3)
    have "heap_ok (owns_all handle_owns (concat vs) @ (owns_all handle_owns v1 @ ps)) E h1"
      using o by (simp add: heap_ok_def add_ac)
    from Cons.IH [OF this rec] o Cons.prems(2) z Inr rec show ?thesis
      by (auto simp: heap_ok_def add_ac)
  qed
qed simp

lemma allocate_array_inv:
  assumes "alloc_ok al" "k < length bs" "heap_inv F bs h" "allocate al n (bs ! k) h = (r, b, h')"
  shows "heap_inv F (bs[k := b]) h'"
proof -
  obtain e where "try_allocate al n (bs ! k) h = (e, b, h')"
    using assms(4) by (auto simp: allocate_def split: prod.splits)
  from heap_inv_unfocus [OF assms(2) heap_inv_wf [OF assms(3)] try_allocate_inv(1) [OF assms(1)
    heap_inv_focus [OF assms(2,3)] this]] show ?thesis .
qed

lemma allocate_bench_inv:
  assumes "allocs_ok al"
  shows "ws_inv D P E w g \<Longrightarrow> \<forall>(m, k, n) \<in> set plan. k < length (pins w) \<and> k < length (devs w) \<Longrightarrow>
    allocate_bench al plan w g = (r, w', g') \<Longrightarrow> ws_inv D P E w' g'"
proof (induction plan arbitrary: w g)
  case (Cons step plan)
  obtain m k n where s: "step = (m, k, n)" by (metis prod_cases3)
  with Cons.prems(2) have k: "k < length (pins w)" "k < length (devs w)" by auto
  have al: "alloc_ok (pin_al al)" "alloc_ok (dev_al al)" using assms by (simp_all add: allocs_ok_def)
  show ?case
  proof (cases m)
    case Pin
    obtain r1 b h where a: "PinnedBuffer_allocate (pin_al al) n (pins w ! k) (pin_heap g) = (r1, b, h)" by (metis prod_cases3)
    then have "allocate (pin_al al) n (pins w ! k) (pin_heap g) = (r1, b, h)" by (simp add: pinned_allocate [OF al(1)])
    from allocate_array_inv [OF al(1) k(1) _ this, of P] have "heap_inv P ((pins w)[k := b]) h"
      using Cons.prems(1) by (simp add: ws_inv_def)
    then have "ws_inv D P E (w\<lparr>pins := (pins w)[k := b]\<rparr>) (g\<lparr>pin_heap := h\<rparr>)"
      using Cons.prems(1) by (simp add: ws_inv_def ws_events_def)
    with Cons.IH [OF this] Cons.prems(2,3) a s Pin show ?thesis by (cases r1) (auto simp: Let_def)
  next
    case Dev
    obtain r1 b h where a: "allocate (dev_al al) n (devs w ! k) (dev_heap g) = (r1, b, h)" by (metis prod_cases3)
    from allocate_array_inv [OF al(2) k(2) _ this, of D] have "heap_inv D ((devs w)[k := b]) h"
      using Cons.prems(1) by (simp add: ws_inv_def)
    then have "ws_inv D P E (w\<lparr>devs := (devs w)[k := b]\<rparr>) (g\<lparr>dev_heap := h\<rparr>)"
      using Cons.prems(1) by (simp add: ws_inv_def ws_events_def)
    with Cons.IH [OF this] Cons.prems(2,3) a s Dev show ?thesis by (cases r1) (auto simp: Let_def)
  qed
qed simp

lemma bench_plan_indices: "(m, k, b) \<in> set (bench_plan sizes n) \<Longrightarrow> k < 3 * n"
  by (auto simp: bench_plan_def split: prod.splits)

lemma replicate_empty_inv: "heap_inv F [] h \<Longrightarrow> heap_inv F (replicate n empty_buffer) h"
  by (auto simp: heap_inv_def owned_def empty_buffer_def buffer_wf_def filter_empty_conv)

lemma Workspace_setup_inv:
  assumes "allocs_ok al" "ws_inv D P E w g" "pins w = []" "devs w = []" "Workspace_setup al n sizes w g = (r, w', g')"
  shows "ws_inv D P E w' g'"
proof -
  let ?w = "w\<lparr>pins := replicate (3 * n) empty_buffer, devs := replicate (3 * n) empty_buffer\<rparr>"
  obtain r1 evs h where z: "resize_all (event_al al) n (events w) (event_heap g) = (r1, evs, h)" by (metis prod_cases3)
  have al: "alloc_ok (event_al al)" using assms(1) by (simp add: allocs_ok_def)
  have "heap_ok (owns_all handle_owns (concat (events w)) @ owns_all handle_owns (marks w)) E (event_heap g)"
    using assms(2) by (simp add: ws_inv_def ws_events_def)
  from resize_all_inv [OF al this z] assms(2-4)
  have inv: "ws_inv D P E (?w\<lparr>events := evs\<rparr>) (g\<lparr>event_heap := h\<rparr>)"
    by (simp add: ws_inv_def ws_events_def replicate_empty_inv)
  show ?thesis
  proof (cases r1)
    case (Inr u)
    show ?thesis
      by (rule allocate_bench_inv [OF assms(1) inv])
        (use assms(5) z Inr in \<open>auto simp: Workspace_setup_def Let_def dest: bench_plan_indices\<close>)
  qed (use inv assms(5) z in \<open>auto simp: Workspace_setup_def Let_def\<close>)
qed

lemma framed_shape [framed_intros]:
  assumes "allocs_ok al"
  shows "framed (bench_shape al n runs shape)"
proof (rule framedI)
  fix D P E g r g' assume ok: "gpu_ok D P E g" and b: "bench_shape al n runs shape g = (r, g')"
  obtain r1 g1 where new: "Workspace_new al g = (r1, g1)" by fastforce
  note n = Workspace_new_inv [OF assms ok new]
  show "gpu_ok D P E g'"
  proof (cases r1)
    case (Inl e)
    with n b new show ?thesis by (simp add: bench_shape_def)
  next
    case (Inr w)
    obtain r2 w' g2 where s: "Workspace_setup al n (workspace_sizes shape) w g1 = (r2, w', g2)" by (metis prod_cases3)
    have "ws_inv D P E w' g2" using n Inr by (intro Workspace_setup_inv [OF assms _ _ _ s]) simp_all
    from Workspace_delete_ok [OF this] b new Inr s show ?thesis by (cases r2) (auto simp: bench_shape_def)
  qed
qed

lemma framed_shapes [framed_intros]:
  assumes "allocs_ok al"
  shows "framed (bench_shapes al n runs shapes)"
proof (induction shapes)
  case (Cons s ss)
  show ?case
  proof (rule framedI)
    fix D P E g r g' assume ok: "gpu_ok D P E g" and b: "bench_shapes al n runs (s # ss) g = (r, g')"
    obtain r1 g1 where 1: "bench_shape al n (runs s) s g = (r1, g1)" by fastforce
    obtain r2 g2 where 2: "bench_shapes al n runs ss g1 = (r2, g2)" by fastforce
    have ok1: "gpu_ok D P E g1" by (rule framedD [OF framed_shape [OF assms] ok 1])
    have "gpu_ok D P E g2" by (rule framedD [OF Cons.IH ok1 2])
    with ok1 b 1 2 show "gpu_ok D P E g'" by (cases r1; cases r2) auto
  qed
qed (simp add: framed_def)

text \<open>
  The benchmarks leak nothing: for all shapes and job counts, all answers of the allocation and
  event calls and all ways in which the timed runs end, \<open>bench_overlap\<close> and the GPU part of
  \<open>bench_gemm\<close> leave allocated exactly the device memory, pinned memory and events that they found,
  and free nothing twice.  This covers an exception half-way through the construction of the
  workspace, of its vectors and of its buffers.
\<close>

theorem benchmarks_leak_nothing:
  assumes "allocs_ok al"
    and "(\<exists>n runs shapes r. bench_shapes al n runs shapes g = (r, g')) \<or> (\<exists>opt turns r. gemm_gpu_part al opt turns g = (r, g'))"
    and "\<forall>h \<in> {dev_heap g, pin_heap g, event_heap g}. distinct (live h) \<and> \<not> bad_free h"
  shows "mset (live (dev_heap g')) = mset (live (dev_heap g)) \<and> mset (live (pin_heap g')) = mset (live (pin_heap g)) \<and>
    mset (live (event_heap g')) = mset (live (event_heap g)) \<and>
    \<not> bad_free (dev_heap g') \<and> \<not> bad_free (pin_heap g') \<and> \<not> bad_free (event_heap g')"
proof -
  have "gpu_ok (mset (live (dev_heap g))) (mset (live (pin_heap g))) (mset (live (event_heap g))) g"
    using assms(3) by (simp add: gpu_ok_def heap_ok_def)
  with assms(2) have "gpu_ok (mset (live (dev_heap g))) (mset (live (pin_heap g))) (mset (live (event_heap g))) g'"
    by (elim disjE exE) (metis framedD framed_shapes [OF assms(1)] framed_gemm [OF assms(1)])+
  then show ?thesis by (simp add: gpu_ok_def heap_ok_def)
qed

subsection \<open>A workspace that is ready\<close>

lemma allocate_count:
  assumes "alloc_ok al" "heap_inv F bs h" "k < length bs" "allocate al n (bs ! k) h = (Inr u, b, h')"
  shows "count b = n"
proof -
  have "try_allocate al n (bs ! k) h = (cudaSuccess, b, h')"
    using assms(4) by (auto simp: allocate_def split: prod.splits if_splits)
  from try_allocate_inv(2) [OF assms(1) heap_inv_focus [OF assms(3,2)] this] show ?thesis by simp
qed

definition buffers_of :: "memory \<Rightarrow> Workspace \<Rightarrow> buffer list" where
  "buffers_of m w = (case m of Pin \<Rightarrow> pins w | Dev \<Rightarrow> devs w)"

lemma allocate_bench_counts:
  assumes "allocs_ok al"
  shows "ws_inv D P E w g \<Longrightarrow> \<forall>(m, k, n) \<in> set plan. k < length (pins w) \<and> k < length (devs w) \<Longrightarrow>
    distinct (map (\<lambda>(m, k, n). (m, k)) plan) \<Longrightarrow> allocate_bench al plan w g = (Inr u, w', g') \<Longrightarrow>
    (\<forall>(m, k, n) \<in> set plan. count (buffers_of m w' ! k) = n) \<and> events w' = events w \<and> marks w' = marks w \<and>
    (\<forall>m k. (m, k) \<notin> set (map (\<lambda>(m, k, n). (m, k)) plan) \<longrightarrow> buffers_of m w' ! k = buffers_of m w ! k)"
proof (induction plan arbitrary: w g)
  case (Cons step plan)
  obtain m k n where s: "step = (m, k, n)" by (metis prod_cases3)
  with Cons.prems(2) have k: "k < length (pins w)" "k < length (devs w)" by auto
  have al: "alloc_ok (pin_al al)" "alloc_ok (dev_al al)" using assms by (simp_all add: allocs_ok_def)
  have fresh: "(m, k) \<notin> set (map (\<lambda>(m, k, n). (m, k)) plan)" using Cons.prems(3) s by simp
  obtain b w1 g1 where one: "allocate_bench al [step] w g = (Inr (), w1, g1)" "allocate_bench al plan w1 g1 = (Inr u, w', g')"
    "count b = n" "w1 = (case m of Pin \<Rightarrow> w\<lparr>pins := (pins w)[k := b]\<rparr> | Dev \<Rightarrow> w\<lparr>devs := (devs w)[k := b]\<rparr>)"
  proof (cases m)
    case Pin
    obtain r1 b h where a: "PinnedBuffer_allocate (pin_al al) n (pins w ! k) (pin_heap g) = (r1, b, h)" by (metis prod_cases3)
    then have a': "allocate (pin_al al) n (pins w ! k) (pin_heap g) = (r1, b, h)" by (simp add: pinned_allocate [OF al(1)])
    from Cons.prems(4) a s Pin obtain v where r: "r1 = Inr v" by (cases r1) (auto simp: Let_def)
    have "count b = n" by (rule allocate_count [where F = P, OF al(1) _ k(1) a' [unfolded r]]) (use Cons.prems(1) in \<open>simp add: ws_inv_def\<close>)
    with that [of "w\<lparr>pins := (pins w)[k := b]\<rparr>" "g\<lparr>pin_heap := h\<rparr>" b] Cons.prems(4) a s Pin r show thesis
      by (simp add: Let_def)
  next
    case Dev
    obtain r1 b h where a: "allocate (dev_al al) n (devs w ! k) (dev_heap g) = (r1, b, h)" by (metis prod_cases3)
    from Cons.prems(4) a s Dev obtain v where r: "r1 = Inr v" by (cases r1) (auto simp: Let_def)
    have "count b = n" by (rule allocate_count [where F = D, OF al(2) _ k(2) a [unfolded r]]) (use Cons.prems(1) in \<open>simp add: ws_inv_def\<close>)
    with that [of "w\<lparr>devs := (devs w)[k := b]\<rparr>" "g\<lparr>dev_heap := h\<rparr>" b] Cons.prems(4) a s Dev r show thesis
      by (simp add: Let_def)
  qed
  have inv1: "ws_inv D P E w1 g1" by (rule allocate_bench_inv [OF assms Cons.prems(1) _ one(1)]) (use s k in simp)
  have len: "length (pins w1) = length (pins w)" "length (devs w1) = length (devs w)"
    using one(4) by (cases m; simp)+
  note ih = Cons.IH [OF inv1 _ _ one(2)]
  have at: "buffers_of m w1 ! k = b" using one(4) k by (cases m) (simp_all add: buffers_of_def)
  have off: "buffers_of m' w1 ! k' = buffers_of m' w ! k'" if "(m', k') \<noteq> (m, k)" for m' k'
    using one(4) that by (cases m; cases m') (auto simp: buffers_of_def nth_list_update)
  have ev: "events w1 = events w" "marks w1 = marks w" using one(4) by (cases m; simp)+
  have ih': "(\<forall>(m, k, n) \<in> set plan. count (buffers_of m w' ! k) = n) \<and> events w' = events w1 \<and> marks w' = marks w1 \<and>
    (\<forall>m k. (m, k) \<notin> set (map (\<lambda>(m, k, n). (m, k)) plan) \<longrightarrow> buffers_of m w' ! k = buffers_of m w1 ! k)"
    by (rule ih) (use Cons.prems(2,3) s len in auto)
  then have "count (buffers_of m w' ! k) = n" using fresh at one(3) by simp
  with ih' ev off s show ?case by auto
qed simp

lemma distinct_bench_plan: "distinct (map (\<lambda>(m, k, n). (m, k)) (bench_plan sizes n))"
proof (induction n)
  case (Suc n)
  obtain sa sb sc where s: "sizes = (sa, sb, sc)" by (metis prod_cases3)
  have snoc: "bench_plan sizes (Suc n) = bench_plan sizes n @ [(Pin, 3 * n, sa), (Pin, 3 * n + 1, sb), (Pin, 3 * n + 2, sc),
          (Dev, 3 * n, sa), (Dev, 3 * n + 1, sb), (Dev, 3 * n + 2, sc)]"
    by (simp add: bench_plan_def s)
  have "(m, k) \<notin> set (map (\<lambda>(m, k, n). (m, k)) (bench_plan sizes n))" if "3 * n \<le> k" for m k
    using that bench_plan_indices by (fastforce dest: bench_plan_indices)
  with Suc show ?case by (simp add: snoc)
qed (simp add: bench_plan_def split: prod.split)

text \<open>
  A workspace that is set up is the one the four configurations need: for a shape and a number of
  jobs, when no call fails, every job has pinned and device buffers of exactly the sizes of its
  matrices, and one event of each of the six kinds, and there are the four events of the run.
\<close>

theorem workspace_ready:
  assumes "allocs_ok al" "gpu_ok D P E g"
    and "Workspace_new al g = (Inr w, g1)" "Workspace_setup al n (sa, sb, sc) w g1 = (Inr u, w', g')"
  shows "(\<forall>i < n. \<forall>bs \<in> {pins w', devs w'}. count (bs ! (3 * i)) = sa \<and> count (bs ! (3 * i + 1)) = sb \<and>
      count (bs ! (3 * i + 2)) = sc) \<and>
    map length (events w') = replicate 6 n \<and> length (marks w') = 4"
proof -
  let ?w = "w\<lparr>pins := replicate (3 * n) empty_buffer, devs := replicate (3 * n) empty_buffer\<rparr>"
  have new: "ws_inv D P E w g1" "pins w = []" "devs w = []" using Workspace_new_inv [OF assms(1-3)] by simp_all
  have al: "alloc_ok (event_al al)" and ok: "heap_ok [] E (event_heap g)" using assms(1,2) by (simp_all add: allocs_ok_def gpu_ok_def)
  have ev: "events w = replicate 6 []" "length (marks w) = 4"
    using assms(3) bench_event.make_all_ok [OF al ok, of 4]
    by (fastforce simp: Workspace_new_def on_events_def split: prod.splits sum.splits)+
  obtain r1 evs h where z: "resize_all (event_al al) n (events w) (event_heap g1) = (r1, evs, h)" by (metis prod_cases3)
  have "heap_ok (owns_all handle_owns (concat (events w)) @ owns_all handle_owns (marks w)) E (event_heap g1)"
    using new(1) by (simp add: ws_inv_def ws_events_def)
  note r = resize_all_inv [OF al this z]
  from assms(4) z have r1: "r1 = Inr ()" by (cases r1) (auto simp: Workspace_setup_def Let_def)
  have inv: "ws_inv D P E (?w\<lparr>events := evs\<rparr>) (g1\<lparr>event_heap := h\<rparr>)"
    using r new by (simp add: ws_inv_def ws_events_def replicate_empty_inv)
  have a: "allocate_bench al (bench_plan (sa, sb, sc) n) (?w\<lparr>events := evs\<rparr>) (g1\<lparr>event_heap := h\<rparr>) = (Inr u, w', g')"
    using assms(4) z r1 by (simp add: Workspace_setup_def Let_def)
  have idx: "\<forall>(m, k, b) \<in> set (bench_plan (sa, sb, sc) n). k < 3 * n" using bench_plan_indices by blast
  have c: "(\<forall>(m, k, b) \<in> set (bench_plan (sa, sb, sc) n). count (buffers_of m w' ! k) = b) \<and>
      events w' = evs \<and> marks w' = marks w"
    using allocate_bench_counts [OF assms(1) inv _ distinct_bench_plan a] idx by simp
  have "count (buffers_of m w' ! (3 * i)) = sa \<and> count (buffers_of m w' ! (3 * i + 1)) = sb \<and>
      count (buffers_of m w' ! (3 * i + 2)) = sc" if "i < n" for i m
  proof -
    have "{(m, 3 * i, sa), (m, 3 * i + 1, sb), (m, 3 * i + 2, sc)} \<subseteq> set (bench_plan (sa, sb, sc) n)"
      using that by (cases m) (auto simp: bench_plan_def)
    with c show ?thesis by fastforce
  qed
  from this [of _ Pin] this [of _ Dev] c r r1 ev show ?thesis
    by (auto simp: buffers_of_def map_replicate_const)
qed

subsection \<open>The inputs\<close>

text \<open>The loops that fill a pageable and a pinned buffer with the same numbers; \<open>left\<close> elements are
  still to be written.\<close>

fun fill_loop :: "('g \<Rightarrow> 'f \<times> 'g) \<Rightarrow> nat \<Rightarrow> nat \<Rightarrow> 'f list \<Rightarrow> 'f list \<Rightarrow> 'g \<Rightarrow> ('f list \<times> 'f list) \<times> 'g" where
  "fill_loop draw 0 j page pin g = ((page, pin), g)"
| "fill_loop draw (Suc left) j page pin g =
     (let (v, g') = draw g in fill_loop draw left (Suc j) (page[j := v]) (pin[j := v]) g')"

text \<open>All jobs, from one generator: \<open>page\<close> vectors start with zeros, a new pinned buffer holds
  \<open>garbage\<close>.\<close>

fun fill_jobs :: "('g \<Rightarrow> 'f \<times> 'g) \<Rightarrow> 'f \<Rightarrow> 'f list \<Rightarrow> 'f list \<Rightarrow> nat \<Rightarrow> 'g
    \<Rightarrow> (('f list \<times> 'f list) \<times> ('f list \<times> 'f list)) list \<times> 'g" where
  "fill_jobs draw zero garbage_a garbage_b 0 g = ([], g)"
| "fill_jobs draw zero garbage_a garbage_b (Suc n) g =
     (let (a, g1) = fill_loop draw (length garbage_a) 0 (replicate (length garbage_a) zero) garbage_a g;
          (b, g2) = fill_loop draw (length garbage_b) 0 (replicate (length garbage_b) zero) garbage_b g1;
          (rest, g3) = fill_jobs draw zero garbage_a garbage_b n g2
      in ((a, b) # rest, g3))"

text \<open>The inputs of \<open>run_benchmark\<close>: \<open>h_a\<close> and then \<open>h_b\<close> from one generator.\<close>

fun draw_list :: "('g \<Rightarrow> 'f \<times> 'g) \<Rightarrow> nat \<Rightarrow> 'g \<Rightarrow> 'f list \<times> 'g" where
  "draw_list draw 0 g = ([], g)"
| "draw_list draw (Suc n) g = (let (v, g') = draw g; (vs, g'') = draw_list draw n g' in (v # vs, g''))"

definition gemm_inputs :: "('g \<Rightarrow> 'f \<times> 'g) \<Rightarrow> nat \<Rightarrow> nat \<Rightarrow> 'g \<Rightarrow> 'f list \<times> 'f list" where
  "gemm_inputs draw size_a size_b g =
     (let (h_a, g') = draw_list draw size_a g; (h_b, _) = draw_list draw size_b g' in (h_a, h_b))"

lemma length_draw_list: "draw_list draw n g = (vs, g') \<Longrightarrow> length vs = n"
  by (induction n arbitrary: g vs) (auto simp: Let_def split: prod.splits)

lemma fill_loop_draws:
  "length page = j + left \<Longrightarrow> length pin = j + left \<Longrightarrow> draw_list draw left g = (vs, g') \<Longrightarrow>
   fill_loop draw left j page pin g = ((take j page @ vs, take j pin @ vs), g')"
proof (induction left arbitrary: j page pin g vs)
  case (Suc left)
  obtain v g1 where d: "draw g = (v, g1)" by fastforce
  obtain ws g2 where ds: "draw_list draw left g1 = (ws, g2)" by fastforce
  have "take (Suc j) (xs[j := v]) = take j xs @ [v]" if "length xs = j + Suc left" for xs
    using that by (simp add: take_Suc_conv_app_nth)
  with Suc.IH [of "page[j := v]" "Suc j" "pin[j := v]" g1 ws] Suc.prems d ds show ?case by simp
qed simp

lemma fill_jobs_Suc:
  assumes "draw_list draw (length garbage_a) g = (A, g1)" "draw_list draw (length garbage_b) g1 = (B, g2)"
  shows "fst (fill_jobs draw zero garbage_a garbage_b (Suc n) g) =
    ((A, A), (B, B)) # fst (fill_jobs draw zero garbage_a garbage_b n g2)"
  using fill_loop_draws [of "replicate (length garbage_a) zero" 0, OF _ _ assms(1)]
    fill_loop_draws [of "replicate (length garbage_b) zero" 0, OF _ _ assms(2)]
  by (simp add: case_prod_unfold Let_def)

text \<open>
  The configurations are compared on the same inputs: after the fill every job has in its pinned
  buffers the numbers of its pageable vectors, all of them written, whatever the generator draws
  and whatever the new buffers held.
\<close>

theorem configurations_same_inputs:
  "\<forall>((page_a, pin_a), (page_b, pin_b)) \<in> set (fst (fill_jobs draw zero garbage_a garbage_b n g)).
     page_a = pin_a \<and> page_b = pin_b \<and> length pin_a = length garbage_a \<and> length pin_b = length garbage_b"
proof (induction n arbitrary: g)
  case (Suc n)
  obtain A g1 where a: "draw_list draw (length garbage_a) g = (A, g1)" by fastforce
  obtain B g2 where b: "draw_list draw (length garbage_b) g1 = (B, g2)" by fastforce
  show ?case unfolding fill_jobs_Suc [OF a b]
    using Suc.IH [of g2] length_draw_list [OF a] length_draw_list [OF b] by simp
qed simp

text \<open>The two benchmarks use the same numbers: with the same generator and sizes, the inputs of
  \<open>bench_gemm\<close> are those of the first job of \<open>bench_overlap\<close>.\<close>

theorem benchmarks_same_inputs:
  "case gemm_inputs draw (length garbage_a) (length garbage_b) g of (A, B) \<Rightarrow>
     \<exists>rest. fst (fill_jobs draw zero garbage_a garbage_b (Suc n) g) = ((A, A), (B, B)) # rest"
proof -
  obtain A g1 where a: "draw_list draw (length garbage_a) g = (A, g1)" by fastforce
  obtain B g2 where b: "draw_list draw (length garbage_b) g1 = (B, g2)" by fastforce
  from fill_jobs_Suc [OF a b] a b show ?thesis by (simp add: gemm_inputs_def)
qed

subsection \<open>Witnesses\<close>

definition tiny_gpu :: gpu where
  "tiny_gpu = (let h = \<lparr>live = [], bad_free = False, alloc_calls = 0\<rparr> in \<lparr>dev_heap = h, pin_heap = h, event_heap = h\<rparr>)"

text \<open>Allocators that give the number after the largest one in use, \<open>room\<close> at a time.\<close>

definition next_alloc :: "nat \<Rightarrow> alloc" where
  "next_alloc room h n =
     (if length (live h) < room then Inr (Suc (foldr max (live h) 0)) else Inl cudaErrorMemoryAllocation)"

lemma next_alloc_ok: "alloc_ok (next_alloc room)"
proof -
  have "p \<le> foldr max xs 0" if "p \<in> set xs" for p and xs :: "nat list"
    using that by (induction xs) (auto simp: le_max_iff_disj)
  then show ?thesis by (fastforce simp: alloc_ok_def next_alloc_def split: if_splits)
qed

definition tiny_alloc :: "nat \<Rightarrow> gpu_alloc" where
  "tiny_alloc room = \<lparr>dev_al = next_alloc room, pin_al = next_alloc 20, event_al = next_alloc 20\<rparr>"

definition tiny_shape :: Shape where
  "tiny_shape = \<lparr>sh_batch = 1, sh_m = 1, sh_n = 2, sh_k = 1\<rparr>"

lemma tiny_ok: "allocs_ok (tiny_alloc room)" "gpu_ok {#} {#} {#} tiny_gpu"
  by (simp_all add: allocs_ok_def tiny_alloc_def next_alloc_ok gpu_ok_def heap_ok_def tiny_gpu_def Let_def)

theorem benchmarks_leak_nothing_witness:
  "case bench_shapes (tiny_alloc 2) 1 (\<lambda>_ _. Inr ()) [tiny_shape] tiny_gpu of (r, g) \<Rightarrow>
     r = Inl cudaErrorMemoryAllocation \<and> alloc_calls (event_heap g) = 10 \<and>
     mset (live (event_heap g)) = {#} \<and> mset (live (dev_heap g)) = {#} \<and> \<not> bad_free (dev_heap g)"
proof -
  have sizes: "workspace_sizes tiny_shape = (1, 2, 2)" by (simp add: workspace_sizes_def tiny_shape_def size_of_int_def)
  have "case Workspace_new (tiny_alloc 2) tiny_gpu of (Inl e, g) \<Rightarrow> False
     | (Inr w, g) \<Rightarrow> (case Workspace_setup (tiny_alloc 2) 1 (1, 2, 2) w g of (r, w', g') \<Rightarrow>
         r = Inl cudaErrorMemoryAllocation \<and> alloc_calls (event_heap g') = 10)"
    by code_simp
  moreover have "alloc_calls (fold Event_delete es h) = alloc_calls h" for es h
    by (induction es arbitrary: h) (simp_all add: Event_delete_def cuda_free_def)
  ultimately have "case bench_shapes (tiny_alloc 2) 1 (\<lambda>_ _. Inr ()) [tiny_shape] tiny_gpu of (r, g) \<Rightarrow>
      r = Inl cudaErrorMemoryAllocation \<and> alloc_calls (event_heap g) = 10"
    by (auto simp: bench_shape_def sizes Workspace_delete_def split: prod.splits sum.splits)
  moreover obtain r g where b: "bench_shapes (tiny_alloc 2) 1 (\<lambda>_ _. Inr ()) [tiny_shape] tiny_gpu = (r, g)" by fastforce
  moreover have "mset (live (dev_heap g)) = {#} \<and> mset (live (event_heap g)) = {#} \<and> \<not> bad_free (dev_heap g)"
    using benchmarks_leak_nothing [where g = tiny_gpu and g' = g, OF tiny_ok(1) disjI1, OF exI, OF exI, OF exI, OF exI, OF b]
    by (simp add: tiny_gpu_def Let_def)
  ultimately show ?thesis by simp
qed

theorem workspace_ready_witness:
  "case Workspace_new (tiny_alloc 9) tiny_gpu of (Inl e, g) \<Rightarrow> False
   | (Inr w, g) \<Rightarrow> (case Workspace_setup (tiny_alloc 9) 2 (1, 2, 2) w g of (r, w', g') \<Rightarrow>
       r = Inr () \<and> count (devs w' ! 4) = 2 \<and> map length (events w') = replicate 6 2)"
proof -
  have ev: "case Workspace_new (tiny_alloc 9) tiny_gpu of (Inl e, g) \<Rightarrow> False
     | (Inr w, g) \<Rightarrow> (case Workspace_setup (tiny_alloc 9) 2 (1, 2, 2) w g of (r, w', g') \<Rightarrow> r = Inr ())"
    by code_simp
  obtain n g where new: "Workspace_new (tiny_alloc 9) tiny_gpu = (n, g)" by fastforce
  with ev obtain w where n: "n = Inr w" by (cases n) auto
  obtain r w' g' where "Workspace_setup (tiny_alloc 9) 2 (1, 2, 2) w g = (r, w', g')" by (metis prod_cases3)
  with ev new n have s: "Workspace_new (tiny_alloc 9) tiny_gpu = (Inr w, g)"
    "Workspace_setup (tiny_alloc 9) 2 (1, 2, 2) w g = (r, w', g')" "r = Inr ()" by auto
  note ready = workspace_ready [OF tiny_ok s(1) s(2) [unfolded s(3)]]
  have "count (devs w' ! (3 * 1 + 1)) = 2" using ready [THEN conjunct1, rule_format, of 1 "devs w'"] by simp
  with s ready show ?thesis by simp
qed

theorem configurations_same_inputs_witness:
  "\<forall>((page_a, pin_a), (page_b, pin_b)) \<in> set (fst (fill_jobs (\<lambda>s. (s, s + 1)) (0 :: int) [9, 9] [8] 2 3)).
     page_a = pin_a \<and> page_b = pin_b"
  using configurations_same_inputs [of "\<lambda>s. (s, s + 1)" "0 :: int" "[9, 9]" "[8]" 2 3] by fastforce

end
