(* ===== verification/BenchRun.thy ===== *)
theory BenchRun
  imports BenchMemory Execute
begin

section \<open>A whole run of the kernel benchmark (src/bench/bench_gemm.cpp)\<close>

text \<open>
  The warm-up and the timed turns of \<open>run_benchmark\<close> call by call, with every answer of every
  CUDA call, what they leave in the memories, and \<open>main\<close>: options, inputs, reference, buffers and
  events, turns, check and exit code.  Everything runs on the default stream, so a command takes
  effect in the order of issue (\<open>timed_turn_serial\<close>), and the host reads the result after it
  has waited for the last event.
\<close>

subsection \<open>The turns\<close>

text \<open>\<open>run_once\<close>; the number only names the turn.\<close>

definition run_once :: "nat \<Rightarrow> cmd list" where
  "run_once i = [Enqueue DefaultStream (CopyA i), Enqueue DefaultStream (CopyB i),
     Enqueue DefaultStream (Kernel i), Enqueue DefaultStream (CopyC i)]"

text \<open>The implementation decides what a kernel command calls, as in \<open>execute_batch\<close>.\<close>

abbreviation kernel_opts :: "gemm_options \<Rightarrow> Options" where
  "kernel_opts opt \<equiv> default_options\<lparr>impl := bg_impl opt\<rparr>"

text \<open>The warm-up and the \<open>cudaDeviceSynchronize\<close> after it.\<close>

definition warm_up :: "env \<Rightarrow> gemm_options \<Rightarrow> run_st \<Rightarrow> (exn + unit) \<times> run_st" where
  "warm_up env opt st =
     (case issue_all env (kernel_opts opt) (blocks run_once (nat_of (bg_warmup opt))) st of
        (Inl x, st1) \<Rightarrow> (Inl x, st1)
      | (Inr _, st1) \<Rightarrow> check env st1)"

text \<open>The timed turns; \<open>elapsed i e e'\<close> is the time between two events of turn \<open>i\<close>.  The four
  calls of \<open>elapsed_ms\<close> are checked.\<close>

type_synonym times = "rat \<times> rat \<times> rat \<times> rat"

fun timed_turns :: "env \<Rightarrow> gemm_options \<Rightarrow> (nat \<Rightarrow> event \<Rightarrow> event \<Rightarrow> rat) \<Rightarrow> nat list \<Rightarrow> run_st
    \<Rightarrow> (exn + times list) \<times> run_st" where
  "timed_turns env opt elapsed [] st = (Inr [], st)"
| "timed_turns env opt elapsed (i # is) st =
     (case issue_all env (kernel_opts opt) (timed_turn i) st of
        (Inl x, st1) \<Rightarrow> (Inl x, st1)
      | (Inr _, st1) \<Rightarrow>
          (case check_n env 4 st1 of
             (Inl x, st2) \<Rightarrow> (Inl x, st2)
           | (Inr _, st2) \<Rightarrow>
               (case timed_turns env opt elapsed is st2 of
                  (Inl x, st3) \<Rightarrow> (Inl x, st3)
                | (Inr ts, st3) \<Rightarrow>
                    (Inr ((elapsed i ev_start ev_h2d, elapsed i (ev_k0 i) (ev_k1 i), elapsed i (ev_k1 i) ev_end,
                       elapsed i ev_start ev_end) # ts), st3))))"

definition gemm_turns :: "env \<Rightarrow> gemm_options \<Rightarrow> (nat \<Rightarrow> event \<Rightarrow> event \<Rightarrow> rat) \<Rightarrow> run_st \<Rightarrow> (exn + times list) \<times> run_st" where
  "gemm_turns env opt elapsed st =
     (case warm_up env opt st of
        (Inl x, st1) \<Rightarrow> (Inl x, st1)
      | (Inr _, st1) \<Rightarrow> timed_turns env opt elapsed [0..<nat_of (bg_iters opt)] st1)"

text \<open>No CUDA call made, no cuBLAS handle yet.\<close>

definition fresh_run :: run_st where
  "fresh_run = start_run fresh_ctx [] \<lparr>live = [], bad_free = False, alloc_calls = 0\<rparr>
     \<lparr>live = [], bad_free = False, alloc_calls = 0\<rparr>"

subsection \<open>The memories\<close>

record 'f buffers =
  d_a :: "'f Gemm.memory"
  d_b :: "'f Gemm.memory"
  d_c :: "'f Gemm.memory"
  h_c :: "'f Gemm.memory"

fun bench_cmd :: "('f Gemm.memory \<Rightarrow> 'f Gemm.memory \<Rightarrow> 'f Gemm.memory \<Rightarrow> 'f Gemm.memory) \<Rightarrow> 'f Gemm.memory \<Rightarrow> 'f Gemm.memory \<Rightarrow> cmd
    \<Rightarrow> 'f buffers \<Rightarrow> 'f buffers" where
  "bench_cmd gemm h_a h_b (Enqueue s (CopyA i)) m = m\<lparr>d_a := h_a\<rparr>"
| "bench_cmd gemm h_a h_b (Enqueue s (CopyB i)) m = m\<lparr>d_b := h_b\<rparr>"
| "bench_cmd gemm h_a h_b (Enqueue s (Kernel i)) m = m\<lparr>d_c := gemm (d_a m) (d_b m) (d_c m)\<rparr>"
| "bench_cmd gemm h_a h_b (Enqueue s (CopyC i)) m = m\<lparr>h_c := d_c m\<rparr>"
| "bench_cmd gemm h_a h_b c m = m"

text \<open>The function that \<open>select_impl\<close> chooses, as an effect on the result; \<open>sgemm\<close> stands for
  \<open>cublasSgemmStridedBatched\<close>.  \<open>float\<close> is exact here.\<close>

definition gemm_effect :: "rat sgemm
    \<Rightarrow> gemm_fn \<Rightarrow> nat \<Rightarrow> nat \<Rightarrow> nat \<Rightarrow> nat \<Rightarrow> rat Gemm.memory \<Rightarrow> rat Gemm.memory \<Rightarrow> rat Gemm.memory \<Rightarrow> rat Gemm.memory" where
  "gemm_effect sgemm fn M N K batch A B C =
     (case fn of
        Naive \<Rightarrow> apply_writes (gemm_naive_batched (+) (*) 0 A B M N K batch) C
      | Tiled \<Rightarrow> apply_writes (gemm_tiled_batched (+) (*) 0 A B M N K batch) C
      | Cublas \<Rightarrow> gemm_cublas_batched 1 0 sgemm A B C M N K batch
      | NoFn \<Rightarrow> C)"

text \<open>A vector as memory and back, and the zeros that \<open>std::vector<float>\<close> starts with.\<close>

definition memory_of :: "'f list \<Rightarrow> 'f Gemm.memory \<Rightarrow> 'f Gemm.memory" where
  "memory_of xs other a = (if 0 \<le> a \<and> a < int (length xs) then xs ! nat a else other a)"

definition vector_of :: "nat \<Rightarrow> rat Gemm.memory \<Rightarrow> double list" where
  "vector_of n mem = map (\<lambda>c. Fin (mem (int c))) [0..<n]"

subsection \<open>\<open>run_benchmark\<close> and \<open>main\<close>\<close>

text \<open>What the run reads from outside: the times, the random numbers, the answers of CUDA, the
  library and what uninitialised memory holds.\<close>

record bench_world =
  w_env :: env
  w_alloc :: gpu_alloc
  w_elapsed :: "nat \<Rightarrow> event \<Rightarrow> event \<Rightarrow> rat"
  w_cpu_time :: rat
  w_dist :: "nat \<Rightarrow> rat"
  w_sgemm :: "rat sgemm"
  w_garbage :: "rat Gemm.memory"
  w_message :: "cuda_error \<Rightarrow> string"

fun error_code :: "exn \<Rightarrow> cuda_error" where
  "error_code (CudaFail e) = e"
| "error_code (CublasFail e) = e"
| "error_code (AllocFail e) = e"

text \<open>The part of \<open>run_benchmark\<close> that uses the GPU: the times of the turns and the commands whose
  effect the host then sees.\<close>

definition gpu_turns :: "bench_world \<Rightarrow> gemm_options \<Rightarrow> (times list \<times> cmd list) compute" where
  "gpu_turns w opt =
     gemm_gpu_part (w_alloc w) opt (\<lambda>bufs es.
       case gemm_turns (w_env w) opt (w_elapsed w) fresh_run of
         (Inl x, st) \<Rightarrow> Inl (error_code x)
       | (Inr ts, st) \<Rightarrow> Inr (ts, issued st))"

definition whole_benchmark :: "bench_world \<Rightarrow> gemm_options \<Rightarrow> gpu \<Rightarrow> (string + (gemm_row \<times> bool)) \<times> gpu" where
  "whole_benchmark w opt g =
     (let M = nat_of (bg_m opt); N = nat_of (bg_n opt); K = nat_of (bg_k opt); batch = nat_of (bg_batch opt);
          (size_a, size_b, size_c) = gemm_sizes opt;
          (h_a, h_b) = gemm_inputs (\<lambda>i. (w_dist w i, Suc i)) (unat size_a) (unat size_b) 0;
          A = memory_of h_a (w_garbage w); B = memory_of h_b (w_garbage w);
          h_ref = (if \<not> bg_skip_check opt \<or> bg_impl opt = ''cpu''
            then apply_writes (gemm_cpu_reference (\<lambda>x. x) (\<lambda>x. x) (+) (*) 0 A B M N K batch) (\<lambda>_. 0) else (\<lambda>_. 0))
      in if bg_impl opt = ''cpu'' \<or> sint (bg_batch opt) > 65535
         then (run_benchmark opt (w_cpu_time w) (Inr []) (vector_of (unat size_c) h_ref) (vector_of (unat size_c) h_ref), g)
         else case gpu_turns w opt g of (r, g') \<Rightarrow>
           (let start = \<lparr>d_a = w_garbage w, d_b = w_garbage w, d_c = w_garbage w, h_c = (\<lambda>_. 0)\<rparr>;
                gemm = gemm_effect (w_sgemm w) (select_impl (bg_impl opt)) M N K batch;
                end = (case r of Inl e \<Rightarrow> start | Inr (ts, cs) \<Rightarrow> fold (bench_cmd gemm A B) cs start)
            in (run_benchmark opt (w_cpu_time w) (case r of Inl e \<Rightarrow> Inl (w_message w e) | Inr (ts, cs) \<Rightarrow> Inr ts)
                  (vector_of (unat size_c) (h_c end)) (vector_of (unat size_c) h_ref), g')))"

text \<open>\<open>main\<close>: \<open>None\<close> is the usage text; the flag is \<open>EXIT_SUCCESS\<close>, an \<open>Inl\<close> the message of
  an exception.\<close>

definition bench_gemm_main :: "bench_world \<Rightarrow> string list \<Rightarrow> gpu \<Rightarrow> (string + (gemm_row \<times> bool) option) \<times> gpu" where
  "bench_gemm_main w args g =
     (case gemm_args args of
        Inl e \<Rightarrow> (Inl e, g)
      | Inr opt \<Rightarrow>
          if bg_help opt then (Inr None, g)
          else apfst (map_sum (\<lambda>e. e) Some) (whole_benchmark w opt g))"

subsection \<open>What the turns issue and measure\<close>

lemma timed_turns_result:
  "timed_turns env opt elapsed is st = (Inr ts, st') \<Longrightarrow>
   issued st' = issued st @ concat (map timed_turn is) \<and>
   ts = map (\<lambda>i. (elapsed i ev_start ev_h2d, elapsed i (ev_k0 i) (ev_k1 i), elapsed i (ev_k1 i) ev_end,
     elapsed i ev_start ev_end)) is"
proof (induction "is" arbitrary: st ts st')
  case (Cons i "is")
  obtain r1 st1 where 1: "issue_all env (kernel_opts opt) (timed_turn i) st = (r1, st1)" by fastforce
  obtain r2 st2 where 2: "check_n env 4 st1 = (r2, st2)" by fastforce
  obtain r3 st3 where 3: "timed_turns env opt elapsed is st2 = (r3, st3)" by fastforce
  from Cons.prems 1 2 3 obtain u v ts' where r: "r1 = Inr u" "r2 = Inr v" "r3 = Inr ts'"
    "st' = st3" "ts = (elapsed i ev_start ev_h2d, elapsed i (ev_k0 i) (ev_k1 i), elapsed i (ev_k1 i) ev_end,
       elapsed i ev_start ev_end) # ts'"
    by (cases r1; cases r2; cases r3) auto
  from issue_all_frame [OF 1] check_n_frame [OF 2] Cons.IH [OF 3 [unfolded r]] r show ?case by simp
qed simp

lemma gemm_turns_result:
  assumes "gemm_turns env opt elapsed st = (Inr ts, st')"
  shows "issued st' = issued st @ blocks run_once (nat_of (bg_warmup opt)) @ blocks timed_turn (nat_of (bg_iters opt))"
    and "ts = map (\<lambda>i. (elapsed i ev_start ev_h2d, elapsed i (ev_k0 i) (ev_k1 i), elapsed i (ev_k1 i) ev_end,
     elapsed i ev_start ev_end)) [0..<nat_of (bg_iters opt)]"
proof -
  obtain r1 st1 where 1: "issue_all env (kernel_opts opt) (blocks run_once (nat_of (bg_warmup opt))) st = (r1, st1)" by fastforce
  obtain r2 st2 where 2: "check env st1 = (r2, st2)" by fastforce
  have r: "r1 = Inr ()" "r2 = Inr ()" "timed_turns env opt elapsed [0..<nat_of (bg_iters opt)] st2 = (Inr ts, st')"
    using assms 1 2 by (cases r1; cases r2; simp add: gemm_turns_def warm_up_def)+
  have "issued st2 = issued st1" using 2 by (auto simp: check_def Let_def split: if_splits)
  with issue_all_frame [OF 1] timed_turns_result [OF r(3)] r
  show "issued st' = issued st @ blocks run_once (nat_of (bg_warmup opt)) @ blocks timed_turn (nat_of (bg_iters opt))"
    "ts = map (\<lambda>i. (elapsed i ev_start ev_h2d, elapsed i (ev_k0 i) (ev_k1 i), elapsed i (ev_k1 i) ev_end,
     elapsed i ev_start ev_end)) [0..<nat_of (bg_iters opt)]"
    by (simp_all add: blocks_def)
qed

lemma timed_turns_ok: "no_errors env \<Longrightarrow> \<exists>ts st'. timed_turns env opt elapsed is st = (Inr ts, st')"
proof (induction "is" arbitrary: st)
  case (Cons i "is")
  obtain st1 where 1: "issue_all env (kernel_opts opt) (timed_turn i) st = (Inr (), st1)"
    using issue_all_ok [OF Cons.prems] by blast
  obtain st2 where 2: "check_n env 4 st1 = (Inr (), st2)" using check_n_ok [OF Cons.prems] by blast
  obtain ts st3 where "timed_turns env opt elapsed is st2 = (Inr ts, st3)" using Cons.IH [OF Cons.prems] by blast
  with 1 2 show ?case by simp
qed simp

lemma gemm_turns_ok:
  assumes "no_errors env"
  shows "\<exists>ts st'. gemm_turns env opt elapsed st = (Inr ts, st')"
proof -
  obtain st1 where 1: "issue_all env (kernel_opts opt) (blocks run_once (nat_of (bg_warmup opt))) st = (Inr (), st1)"
    using issue_all_ok [OF assms] by blast
  have "check env st1 = (Inr (), st1\<lparr>calls := Suc (calls st1)\<rparr>)"
    using assms by (simp add: check_def no_errors_def Let_def)
  with 1 timed_turns_ok [OF assms] show ?thesis by (simp add: gemm_turns_def warm_up_def)
qed

subsection \<open>What the turns compute\<close>

lemma fold_turn:
  "fold (bench_cmd gemm A B) (run_once i) m = m\<lparr>d_a := A, d_b := B, d_c := gemm A B (d_c m), h_c := gemm A B (d_c m)\<rparr>"
  "fold (bench_cmd gemm A B) (timed_turn i) m = m\<lparr>d_a := A, d_b := B, d_c := gemm A B (d_c m), h_c := gemm A B (d_c m)\<rparr>"
  by (simp_all add: run_once_def timed_turn_def)

text \<open>After at least one timed turn the host has the result of a kernel on the inputs, whatever the
  turns before it left on the device.\<close>

lemma turns_result:
  assumes "0 < n"
  shows "\<exists>C. h_c (fold (bench_cmd gemm A B) (cs @ blocks timed_turn n) m) = gemm A B C"
proof -
  obtain k where "n = Suc k" using assms by (cases n) auto
  then have "fold (bench_cmd gemm A B) (cs @ blocks timed_turn n) m =
      fold (bench_cmd gemm A B) (timed_turn k) (fold (bench_cmd gemm A B) (cs @ blocks timed_turn k) m)"
    by (simp add: blocks_Suc)
  then show ?thesis unfolding fold_turn by auto
qed

subsection \<open>Buffers and events are there\<close>

lemma scoped_result: "fst (scoped new delete body g) =
  (case new g of (Inl e, g1) \<Rightarrow> Inl e | (Inr x, g1) \<Rightarrow> fst (body x g1))"
  by (simp add: scoped_def split: prod.splits sum.splits)

lemma device_buffer_result:
  assumes "never_refuses (dev_al al)"
  shows "\<exists>b g1. fst (device_buffer al n body g) = fst (body b g1)"
proof -
  obtain b1 h1 where r: "release empty_buffer (dev_heap g) = (b1, h1)" by fastforce
  obtain p where "dev_al al h1 (n * 4) = Inr p" using assms unfolding never_refuses_def by blast
  with r have "\<exists>b h. DeviceBuffer_new n (dev_al al) (dev_heap g) = (Inr b, h)"
    by (simp add: DeviceBuffer_new_def allocate_def try_allocate_def cuda_malloc_def)
  then obtain b h where "DeviceBuffer_new n (dev_al al) (dev_heap g) = (Inr b, h)" by blast
  then show ?thesis
    unfolding device_buffer_def scoped_result
    by (intro exI [of _ b] exI [of _ "g\<lparr>dev_heap := h\<rparr>"]) (simp add: on_dev_def)
qed

lemma make_all_succeeds:
  assumes "never_refuses create"
  shows "\<exists>es h'. make_all (plain_event_new create) plain_event_delete n h = (Inr es, h')"
proof (induction n arbitrary: h)
  case (Suc n)
  obtain p where "create h 0 = Inr p" using assms unfolding never_refuses_def by blast
  then have "plain_event_new create h = (Inr p, h\<lparr>live := p # live h, alloc_calls := Suc (alloc_calls h)\<rparr>)"
    by (simp add: plain_event_new_def cuda_malloc_def)
  with Suc.IH [of "h\<lparr>live := p # live h, alloc_calls := Suc (alloc_calls h)\<rparr>"] show ?case by auto
qed simp

lemma plain_events_result:
  assumes "never_refuses (event_al al)"
  shows "\<exists>es g1. fst (plain_events al n body g) = fst (body es g1)"
proof -
  obtain es h' where "make_all (plain_event_new (event_al al)) plain_event_delete n (event_heap g) = (Inr es, h')"
    using make_all_succeeds [OF assms] by blast
  then show ?thesis unfolding plain_events_def scoped_result by (auto simp: on_events_def)
qed

lemma gemm_gpu_part_result:
  assumes "never_refuses (dev_al al)" "never_refuses (event_al al)"
  shows "\<exists>bufs es. fst (gemm_gpu_part al opt turns g) = turns bufs es"
proof -
  obtain sa sb sc where sizes: "gemm_sizes opt = (sa, sb, sc)" by (metis prod_cases3)
  let ?ev = "\<lambda>a b c. plain_events al 5 (\<lambda>es g. (turns [a, b, c] es, g))"
  obtain a g1 where 1: "fst (gemm_gpu_part al opt turns g) = fst (device_buffer al sb (\<lambda>b. device_buffer al sc (\<lambda>c. ?ev a b c)) g1)"
    using device_buffer_result [OF assms(1), of sa "\<lambda>a. device_buffer al sb (\<lambda>b. device_buffer al sc (\<lambda>c. ?ev a b c))" g]
    by (auto simp: gemm_gpu_part_def sizes)
  obtain b g2 where 2: "fst (device_buffer al sb (\<lambda>b. device_buffer al sc (\<lambda>c. ?ev a b c)) g1) =
      fst (device_buffer al sc (\<lambda>c. ?ev a b c) g2)"
    using device_buffer_result [OF assms(1), of sb "\<lambda>b. device_buffer al sc (\<lambda>c. ?ev a b c)" g1] by auto
  obtain c g3 where 3: "fst (device_buffer al sc (\<lambda>c. ?ev a b c) g2) = fst (?ev a b c g3)"
    using device_buffer_result [OF assms(1), of sc "\<lambda>c. ?ev a b c" g2] by auto
  obtain es g4 where "fst (?ev a b c g3) = fst (turns [a, b, c] es, g4)"
    using plain_events_result [OF assms(2), of 5 "\<lambda>es g. (turns [a, b, c] es, g)" g3] by auto
  with 1 2 3 show ?thesis by auto
qed

subsection \<open>A right implementation passes\<close>

lemma gemm_effect_value:
  assumes "dims_ok M N K batch" "b < batch" "i < M" "j < N"
    and "fn = Naive \<and> grid_ok 16 M N batch \<or> fn = Tiled \<and> grid_ok 32 M N batch \<or> fn = Cublas \<and> sgemm_documented (+) (*) 0 (w_sgemm w)"
  shows "gemm_effect (w_sgemm w) fn M N K batch A B C (cell M N b i j) = gemm_ref (+) (*) 0 A B M N K b i j"
  using assms(5)
proof (elim disjE conjE)
  assume "fn = Naive" and g: "grid_ok 16 M N batch"
  with launch_result(1) [OF naive_writes [OF assms(1) g] assms(2-4)] show ?thesis by (simp add: gemm_effect_def)
next
  assume "fn = Tiled" and g: "grid_ok 32 M N batch"
  have "apply_writes (gemm_tiled_batched (+) (*) 0 A B M N K batch) C (cell M N b i j) = gemm_ref (+) (*) 0 A B M N K b i j"
    by (rule launch_result(1) [OF tiled_writes [OF assms(1) g] assms(2-4)]) simp
  with \<open>fn = Tiled\<close> show ?thesis by (simp add: gemm_effect_def)
next
  assume "fn = Cublas" "sgemm_documented (+) (*) 0 (w_sgemm w)"
  with cublas_value [OF this(2) _ _ assms(2-4), of 1] show ?thesis by (simp add: gemm_effect_def mult.commute)
qed

lemma vector_of_cells:
  assumes "\<And>b i j. b < batch \<Longrightarrow> i < M \<Longrightarrow> j < N \<Longrightarrow> f (cell M N b i j) = g (cell M N b i j)"
    and "n = M * N * batch"
  shows "vector_of n f = vector_of n g"
proof -
  have "f (int c) = g (int c)" if "c < n" for c
    using assms(1) [OF cell_of_index(1-3)] cell_of_index(4) that assms(2) by metis
  then show ?thesis by (simp add: vector_of_def)
qed

lemma same_vector_error: "max_abs_error (vector_of n f) (vector_of n f) = Fin 0"
proof -
  have "foldl (\<lambda>m (x, y). std_max m (fabs (double_minus x y))) (Fin 0) (zip (map (\<lambda>c. Fin (f (int c))) cs) (map (\<lambda>c. Fin (f (int c))) cs)) = Fin 0" for cs
    by (induction cs) (simp_all add: std_max_def)
  then show ?thesis by (simp add: max_abs_error_def vector_of_def)
qed

lemma gemm_args_valid:
  assumes "gemm_args args = Inr opt"
  shows "0 < sint (bg_m opt)" "0 < sint (bg_n opt)" "0 < sint (bg_k opt)" "0 < sint (bg_batch opt)"
    "0 < sint (bg_iters opt)" "0 \<le> sint (bg_warmup opt)" "bg_impl opt \<in> {''naive'', ''tiled'', ''cublas'', ''cpu''}"
  using assms by (auto simp: gemm_args_def not_le split: sum.splits if_splits)

lemma size_c_exact:
  assumes "0 < sint (bg_m opt)" "0 < sint (bg_n opt)" "0 < sint (bg_batch opt)"
    and "nat_of (bg_m opt) * nat_of (bg_n opt) < 2 ^ 31"
  shows "unat (snd (snd (gemm_sizes opt))) = nat_of (bg_m opt) * nat_of (bg_n opt) * nat_of (bg_batch opt)"
  using unat_size_product [OF assms(1-3)] assms(4) by (simp add: gemm_sizes_def nat_of_def dim_def)

lemma gpu_turns_result:
  assumes "never_refuses (dev_al (w_alloc w))" "never_refuses (event_al (w_alloc w))"
    and "gemm_turns (w_env w) opt (w_elapsed w) fresh_run = (Inr ts, st)"
  shows "\<exists>g'. gpu_turns w opt g = (Inr (ts, issued st), g')"
proof -
  have "fst (gpu_turns w opt g) = Inr (ts, issued st)"
    using gemm_gpu_part_result [OF assms(1,2), of opt "\<lambda>bufs es. case gemm_turns (w_env w) opt (w_elapsed w) fresh_run of
         (Inl x, st) \<Rightarrow> Inl (error_code x) | (Inr ts, st) \<Rightarrow> Inr (ts, issued st)" g]
    by (simp add: gpu_turns_def assms(3))
  then show ?thesis by (cases "gpu_turns w opt g") simp
qed

lemma run_benchmark_passes:
  assumes "bg_impl opt \<noteq> ''cpu''" "\<not> 65535 < sint (bg_batch opt)"
    and "\<not> bg_skip_check opt \<Longrightarrow> max_abs_error xs ys = Fin 0"
  shows "\<exists>row. run_benchmark opt cpu_time (Inr ts) xs ys = Inr (row, True) \<and>
    row_max_err row = (if bg_skip_check opt then NaN else Fin 0) \<and> row_kernel row = median_or_zero (map (fst \<circ> snd) ts)"
  using assms by (cases "bg_skip_check opt") (simp_all add: run_benchmark_def Let_def kTolerance_def)

text \<open>
  C24.  \<open>bench_gemm\<close> passes a right implementation.  For every command line that \<open>parse_args\<close>
  accepts and that asks for no help, with a batch of at most 65535 and dimensions in the range of the
  kernel's index arithmetic (\<open>dims_ok\<close>), whose launch the device accepts (\<open>grid_ok\<close>; for
  \<open>cublas\<close> the library call does what its manual says instead), when no CUDA call fails: the program
  returns \<open>EXIT_SUCCESS\<close>; with the check the measured error is exactly 0 in exact arithmetic,
  whatever the number of warm-up and timed turns and whatever uninitialised memory holds; the
  reported kernel time is the median of the timed turns.  The largest batches and dimensions are
  outside of the statement: a batch above 65535 makes the GPU implementations throw.
\<close>

theorem bench_gemm_passes:
  assumes args: "gemm_args args = Inr opt" "\<not> bg_help opt"
    and dims: "M = nat_of (bg_m opt)" "N = nat_of (bg_n opt)" "K = nat_of (bg_k opt)" "batch = nat_of (bg_batch opt)"
      "dims_ok M N K batch" "batch \<le> 65535"
    and impl: "bg_impl opt = ''naive'' \<Longrightarrow> grid_ok 16 M N batch" "bg_impl opt = ''tiled'' \<Longrightarrow> grid_ok 32 M N batch"
      "bg_impl opt = ''cublas'' \<Longrightarrow> sgemm_documented (+) (*) 0 (w_sgemm w)"
    and world: "no_errors (w_env w)" "never_refuses (dev_al (w_alloc w))" "never_refuses (event_al (w_alloc w))"
  shows "\<exists>row g'. bench_gemm_main w args g = (Inr (Some (row, True)), g') \<and>
    row_max_err row = (if bg_skip_check opt \<and> bg_impl opt \<noteq> ''cpu'' then NaN else Fin 0) \<and>
    row_kernel row = (if bg_impl opt = ''cpu'' then w_cpu_time w
      else median (map (\<lambda>i. w_elapsed w i (ev_k0 i) (ev_k1 i)) [0..<nat_of (bg_iters opt)]))"
proof (cases "bg_impl opt = ''cpu''")
  case True
  then show ?thesis
    by (simp add: bench_gemm_main_def args whole_benchmark_def run_benchmark_def Let_def kTolerance_def case_prod_unfold)
next
  case False
  note v = gemm_args_valid [OF args(1)]
  obtain sa sb sc where sizes: "gemm_sizes opt = (sa, sb, sc)" by (metis prod_cases3)
  have sc: "unat sc = M * N * batch"
    using size_c_exact [OF v(1,2,4)] dims by (simp add: sizes dims_ok_def)
  obtain h_a h_b where inp: "gemm_inputs (\<lambda>i. (w_dist w i, Suc i)) (unat sa) (unat sb) 0 = (h_a, h_b)" by fastforce
  let ?A = "memory_of h_a (w_garbage w)" and ?B = "memory_of h_b (w_garbage w)"
  let ?gemm = "gemm_effect (w_sgemm w) (select_impl (bg_impl opt)) M N K batch"
  let ?ref = "apply_writes (gemm_cpu_reference (\<lambda>x. x) (\<lambda>x. x) (+) (*) 0 ?A ?B M N K batch) (\<lambda>_. 0)"
  obtain ts st where turns: "gemm_turns (w_env w) opt (w_elapsed w) fresh_run = (Inr ts, st)"
    using gemm_turns_ok [OF world(1)] by blast
  note t = gemm_turns_result [OF turns]
  obtain g' where gpu: "gpu_turns w opt g = (Inr (ts, issued st), g')"
    using gpu_turns_result [OF world(2,3) turns] by blast
  let ?start = "\<lparr>d_a = w_garbage w, d_b = w_garbage w, d_c = w_garbage w, h_c = (\<lambda>_. 0)\<rparr>"
  let ?hc = "h_c (fold (bench_cmd ?gemm ?A ?B) (issued st) ?start)"
  have "0 < nat_of (bg_iters opt)" using v(5) by (simp add: nat_of_def)
  then obtain C where hc: "?hc = ?gemm ?A ?B C"
    using turns_result t(1) by (metis append.assoc)
  have fn: "select_impl (bg_impl opt) = Naive \<and> grid_ok 16 M N batch \<or> select_impl (bg_impl opt) = Tiled \<and> grid_ok 32 M N batch \<or>
      select_impl (bg_impl opt) = Cublas \<and> sgemm_documented (+) (*) 0 (w_sgemm w)"
    using v(7) False impl by (auto simp: select_impl_def)
  have "vector_of (unat sc) ?hc = vector_of (unat sc) ?ref"
    by (rule vector_of_cells [OF _ sc])
      (simp only: hc gemm_effect_value [OF dims(5) _ _ _ fn] launch_result(1) [OF cpu_reference_writes [OF dims(5)]])
  then have err: "max_abs_error (vector_of (unat sc) ?hc) (vector_of (unat sc) ?ref) = Fin 0"
    by (simp add: same_vector_error)
  have small: "\<not> 65535 < sint (bg_batch opt)" using dims(4,6) v(4) by (simp add: nat_of_def)
  have kernel: "median_or_zero (map (fst \<circ> snd) ts) = median (map (\<lambda>i. w_elapsed w i (ev_k0 i) (ev_k1 i)) [0..<nat_of (bg_iters opt)])"
    using \<open>0 < nat_of (bg_iters opt)\<close> by (simp add: t(2) median_or_zero_def comp_def)
  have whole: "whole_benchmark w opt g = (run_benchmark opt (w_cpu_time w) (Inr ts) (vector_of (unat sc) ?hc)
      (vector_of (unat sc) (if bg_skip_check opt then (\<lambda>_. 0) else ?ref)), g')"
    using False small gpu by (simp add: whole_benchmark_def Let_def sizes inp dims(1-4))
  obtain row where "run_benchmark opt (w_cpu_time w) (Inr ts) (vector_of (unat sc) ?hc)
      (vector_of (unat sc) (if bg_skip_check opt then (\<lambda>_. 0) else ?ref)) = Inr (row, True)"
    "row_max_err row = (if bg_skip_check opt then NaN else Fin 0)" "row_kernel row = median_or_zero (map (fst \<circ> snd) ts)"
    using run_benchmark_passes [OF False small, of "vector_of (unat sc) ?hc"
      "vector_of (unat sc) (if bg_skip_check opt then (\<lambda>_. 0) else ?ref)"] err by auto
  then show ?thesis using False by (simp add: bench_gemm_main_def args whole kernel)
qed

text \<open>Every other run fails with a message or a failed check; all give back what they allocated.\<close>

theorem bench_gemm_releases:
  assumes "allocs_ok (w_alloc w)" "gpu_ok D P E g" "bench_gemm_main w args g = (r, g')"
  shows "gpu_ok D P E g'"
proof -
  have turns: "gpu_ok D P E g1" if "gpu_turns w opt g = (r1, g1)" for opt r1 g1
    using framedD [OF framed_gemm [OF assms(1)] assms(2)] that unfolding gpu_turns_def by blast
  have "gpu_ok D P E g1" if "whole_benchmark w opt g = (r1, g1)" for opt r1 g1
  proof (cases "bg_impl opt = ''cpu'' \<or> sint (bg_batch opt) > 65535")
    case True
    with that assms(2) show ?thesis by (auto simp: whole_benchmark_def Let_def split: prod.splits)
  next
    case False
    obtain r2 g2 where "gpu_turns w opt g = (r2, g2)" by fastforce
    with that False turns [OF this] show ?thesis by (auto simp: whole_benchmark_def Let_def split: prod.splits)
  qed
  then have "gpu_ok D P E (snd (whole_benchmark w opt g))" for opt by (metis prod.collapse)
  then show ?thesis using assms(2,3)
    by (auto simp: bench_gemm_main_def split: sum.splits if_splits) (metis snd_apfst snd_conv)
qed

definition good_world :: bench_world where
  "good_world = \<lparr>w_env = sample_env None, w_alloc = \<lparr>dev_al = grow_alloc, pin_al = grow_alloc, event_al = grow_alloc\<rparr>,
     w_elapsed = (\<lambda>i e e'. of_nat (i mod 3)), w_cpu_time = 10, w_dist = (\<lambda>i. of_nat (i mod 7) / 8),
     w_sgemm = column_major_sgemm (+) (*) 0, w_garbage = (\<lambda>_. 4), w_message = (\<lambda>e. ''CUDA error'')\<rparr>"

theorem bench_gemm_passes_witness:
  "\<exists>row g'. bench_gemm_main good_world [] tiny_gpu = (Inr (Some (row, True)), g') \<and> row_max_err row = Fin 0"
proof -
  have args: "gemm_args [] = Inr default_gemm" by (simp add: gemm_args_def default_gemm_def)
  have dims: "nat_of (bg_m default_gemm) = 512" "nat_of (bg_n default_gemm) = 512" "nat_of (bg_k default_gemm) = 512"
    "nat_of (bg_batch default_gemm) = 8" by (simp_all add: default_gemm_def nat_of_def)
  have ok: "dims_ok 512 512 512 8" "grid_ok 32 512 512 8" by (simp_all add: dims_ok_def grid_ok_def grid_accepted_def)
  have opt: "\<not> bg_help default_gemm" "bg_impl default_gemm = ''tiled''" "\<not> bg_skip_check default_gemm"
    by (simp_all add: default_gemm_def)
  have world: "no_errors (w_env good_world)" "never_refuses (dev_al (w_alloc good_world))" "never_refuses (event_al (w_alloc good_world))"
    by (simp_all add: good_world_def sample_facts grow_alloc_ok)
  obtain row g' where "bench_gemm_main good_world [] tiny_gpu = (Inr (Some (row, True)), g')"
    "row_max_err row = (if bg_skip_check default_gemm \<and> bg_impl default_gemm \<noteq> ''cpu'' then NaN else Fin 0)"
    using bench_gemm_passes [OF args opt(1) dims [symmetric] ok(1) _ _ _ _ world, of tiny_gpu] opt ok(2) by auto
  with opt show ?thesis by simp
qed

end
