(* ===== verification/Spec2Isabelle.thy ===== *)
theory Spec2Isabelle
  imports Shutdown BatchWaits Starvation Lifecycle Results ModuleRace Usage BenchRun
begin

text \<open>
  A verification library for GpuBatchInferenceScheduler, a C++/CUDA program that queues batched
  matrix products (inference jobs), packs them into batches that fit the free memory of the GPU,
  and runs the batches on worker threads.

  \<^bold>\<open>The program.\<close>  A caller (the daemon \<open>src/main.cpp\<close> or the Python module
  \<open>src/bindings/py_module.cpp\<close>) calls \<open>BatchScheduler::submit\<close>.  The dispatcher thread
  (\<open>dispatcher_loop\<close> in \<open>src/sched/scheduler.cpp\<close>) waits for room and for jobs, drains the
  priority queue, rejects jobs that can never fit, packs a batch under the byte budget
  (\<open>pack_jobs\<close>), puts the rest back, reserves the bytes of the batch and publishes it.  A worker
  (\<open>worker_loop\<close>) takes a batch and runs \<open>execute_batch\<close>: it allocates the buffers of every
  job, retrying when memory is short, issues copies and kernels to three streams, waits for each
  job, records its metrics and releases the reservation.  \<open>stop\<close> sets a flag, wakes everyone
  and joins the threads.  The status server and the Python module read the counters and metrics.

  \<^bold>\<open>The theories\<close>, in the order of the program:

  \<^item> \<open>Prelude\<close>: machine integers (\<open>size_t\<close> and \<open>uint64_t\<close> are 64-bit words whose sums
    wrap, \<open>int\<close> is a 32-bit word read with its sign, a time point is a number of nanoseconds),
    sums of words, multisets.  \<open>Ordering\<close>: strict weak orders, stable insertion and sorting, as
    the locales \<open>strict_weak_order\<close> and \<open>key_order\<close>.
  \<^item> \<open>Job\<close> (\<open>sched/job.hpp\<close>): the job, \<open>bytes_required\<close> with its wrap-around against the
    exact \<open>job_bytes\<close>, \<open>JobPriorityCompare\<close>.  \<open>PriorityQueue\<close>: \<open>std::priority_queue\<close> as
    a contract (the locale \<open>priority_queue\<close>), interpreted on a list in the order of the
    comparator; drain and requeue.
  \<^item> \<open>Packing\<close> (\<open>pack_jobs\<close>): wait buckets, the comparator, the greedy sweep; safety,
    maximality, optimality within a bucket, ageing, and the inputs for which the sums wrap.
  \<^item> \<open>Monitor\<close> (\<open>sched/gpu_monitor.cpp\<close>): NVML or CUDA fallback, the sampler.
  \<^item> \<open>State\<close>: the members of \<open>BatchScheduler\<close> and its short operations; the reservation
    counter as the locale \<open>reservation_ledger\<close>.
  \<^item> \<open>Buffers\<close> (\<open>core/device_buffer.hpp\<close>, \<open>PinnedHostBuffer\<close>): owning buffers over a heap
    that records leaks and bad frees.  \<open>Handles\<close>: the classes that own one event, pinned buffer
    or cuBLAS handle, as interpretations of the locales \<open>owner\<close>, \<open>constructed\<close> and \<open>movable\<close>,
    vectors of them, and the streams and events of a worker.
  \<^item> \<open>Pipeline\<close>: commands, streams, events and the happens-before relation; the issue order
    of \<open>execute_batch\<close>.  \<open>Execute\<close>: \<open>execute_batch\<close> itself, every CUDA call with every
    answer it can give, allocation retries, the release after a failed attempt, the collection.
  \<^item> \<open>Scheduler\<close>: dispatcher, workers, \<open>start\<close>, \<open>stop\<close> and submitters as a step relation
    \<open>reach\<close> over their program counters; refinement of an abstract pool of jobs, accounting,
    reservations, progress, termination of \<open>stop\<close>.  \<open>Shutdown\<close> refines the wait on
    \<open>queue_cv_\<close> to lock, test, sleep and notification, and \<open>BatchWaits\<close> the waits on
    \<open>batch_cv_\<close> and \<open>batch_space_cv_\<close>, over the whole state: they reach only
    what \<open>reach\<close> has and complete every wait that it lets pass, no notification of a batch or of
    room is lost, and \<open>stop\<close> can miss a worker.  \<open>Starvation\<close>
    composes whole turns of the dispatcher and of a worker into runs of any length in which a
    large job stays in the queue.  \<open>Lifecycle\<close> opens the steps of \<open>start\<close>, \<open>stop\<close> and the
    destructor: the \<open>std::thread\<close> objects, a thread that cannot be made, the join of each; without
    failures it and \<open>reach\<close> simulate each other.
  \<^item> \<open>Stats\<close> (\<open>server/http_server.cpp\<close>, \<open>print_summary\<close>, \<open>dump_metrics_csv\<close>): percentiles,
    the metrics page, the metrics file.
  \<^item> \<open>Gemm\<close> (\<open>kernels/gemm.cu\<close>, \<open>kernels/gemm_cublas.cu\<close>): what each thread of the kernels
    reads and writes, with the index arithmetic at its width, and \<open>gemm_cublas_batched\<close>, of which only the call into
    cuBLAS is a parameter.  \<open>JobResult\<close>
    composes inputs, pipeline and kernel: the result of a job is the product of its inputs.
    \<open>Results\<close> puts that into the runs of \<open>Scheduler\<close>: what \<open>get_result\<close> answers in any state of
    any interleaving is the product of the inputs of the job with that sequence number.
  \<^item> \<open>CommandLine\<close>: \<open>stoi\<close>, \<open>stoull\<close>, \<open>to_string\<close>, \<open>getline\<close> and the option loop that
    all programs share (the locale \<open>option_parser\<close>).  \<open>Daemon\<close> (\<open>main.cpp\<close>): options,
    replay file, workloads, start and end of a run.  \<open>Bindings\<close> (\<open>py_module.cpp\<close>): the
    process-global scheduler under any calls from Python that take effect one at a time, and \<open>batched_gemm\<close>.  \<open>ModuleRace\<close>
    takes a call of \<open>submit_job\<close> apart into its reads and writes of \<open>g_sched\<close> and \<open>g_running\<close>:
    safe while the scheduler runs, a race when it has to be made.  \<open>Usage\<close>: the usage texts of
    the four programs against their parsers.
  \<^item> \<open>BenchOverlap\<close>, \<open>BenchGemm\<close>, \<open>MemoryHog\<close> (\<open>bench/*.cpp\<close>): the benchmarks: shapes and
    options, the issue orders of the four configurations, medians, the CPU reference and the
    check against it, the allocation cycles.  \<open>BenchMemory\<close>: what the first two allocate, as
    scopes that give everything back on every way out, and their inputs.  \<open>BenchRun\<close>: the
    whole of \<open>bench_gemm\<close>, call by call, and that it passes a right implementation.

  \<^bold>\<open>How the code is read.\<close>  A class is a record, its members are fields; a member function is
  a definition that takes the record and returns the new one.  An exception or an early return is
  \<open>Inl\<close>, \<open>None\<close> or a constructor of a result type.  A thread is a program counter, and a step is
  what it does under one lock or between two; values from outside (clock, NVML, the answer of each
  CUDA call, random numbers, files) are arguments of the step, so a theorem about \<open>reach\<close> holds
  for every interleaving and for everything the GPU may answer.  Times are exact rational
  milliseconds, floating-point products are parameters with the laws that a proof needs.

  \<^bold>\<open>Bounds and fuel.\<close>  Nothing runs on fuel.  The retry loop of \<open>execute_batch\<close> recurses on the
  200 attempts of the code (\<open>kMaxAllocRetries\<close>); loops over lists recurse on the list; the loops
  over files, tiles and shapes have termination proofs.  The waiting loops of the threads are the
  step relation; that they end after \<open>stop\<close>, but for threads that sleep through its notification, is
  \<open>stop_terminates\<close>.  \<open>cap\<close> in \<open>reach\<close> is any
  bound of the budgets that a run has seen; a budget below \<open>2 ^ 63\<close> is what the exactness of the
  reservations needs.  \<open>dims_ok\<close> is the range in which no index of a kernel wraps, \<open>grid_ok\<close> what
  a launch may ask of the device (compute capability 7.5); a larger launch does nothing.

  \<^bold>\<open>Parameters.\<close>  NVML, CUDA and cuBLAS are not code of the repository: their answers are
  arguments; where a proof needs a law, it is a named hypothesis (\<open>alloc_ok\<close>,
  \<open>sgemm_documented\<close> and \<open>cublas_ok\<close>, \<open>in_range\<close> of a random distribution), with an instance that meets it.

  \<^bold>\<open>Not modelled.\<close>  Output text of the benchmarks (progress, tables, CSV headers) and the wording
  of CUDA error messages, rounding of \<open>float\<close> and \<open>double\<close>, the HTTP protocol (cpp-httplib),
  conversion of NumPy arrays (pybind11), signal delivery, spurious wake-ups of condition variables, the
  mechanics of \<open>dlopen\<close>, torn reads of a pointer (\<open>ModuleRace\<close> takes them as atomic), what a
  new thread does before \<open>start\<close> has returned (\<open>start\<close> is one step), the error that a refused launch
  may leave for a later CUDA call, \<open>start\<close> and \<open>stop\<close> called from two threads at once (both
  callers in the repository serialise them);
  the tests, the Python scripts and the deployment files.
\<close>

end
